(* ===== verification/Prelude.thy ===== *)
theory Prelude
  imports Main "HOL-Library.Word"
begin

unbundle bit_operations_syntax

text \<open>
  Shared ground of the development: the names of Rust's machine types, results as sums with
  their bind, big-endian integers as byte lists, byte sources read with \<open>read_exact\<close>, and the
  lemmas on lists and words that the component theories use.

  A \<open>Vec<u8>\<close>, a \<open>&[u8]\<close>, a \<open>[u8; N]\<close> and a \<open>BytesMut\<close> are all a list of 8-bit words. A Rust
  \<open>Result<T, E>\<close> is \<open>'e + 'a\<close> with the error on the left. A reader (\<open>impl Read\<close> over bytes that
  have arrived) is the list of the bytes still to be read; reading past the end is
  \<open>UnexpectedEof\<close>.
\<close>

type_synonym u8 = "8 word"
type_synonym u16 = "16 word"
type_synonym u32 = "32 word"
type_synonym u64 = "64 word"
type_synonym bytes = "u8 list"

named_theorems codec_simps \<open>rewrite rules that run encoders and decoders symbolically\<close>

section \<open>Results\<close>

text \<open>The \<open>?\<close> operator: stop at the first error.\<close>

definition bindr :: "'e + 'a \<Rightarrow> ('a \<Rightarrow> 'e + 'b) \<Rightarrow> 'e + 'b" where
  "bindr m f = (case m of Inl e \<Rightarrow> Inl e | Inr x \<Rightarrow> f x)"

text \<open>\<open>Result::map_err\<close> and \<open>Option::ok_or\<close>.\<close>

definition map_err :: "('e \<Rightarrow> 'f) \<Rightarrow> 'e + 'a \<Rightarrow> 'f + 'a" where
  "map_err g m = (case m of Inl e \<Rightarrow> Inl (g e) | Inr x \<Rightarrow> Inr x)"

definition ok_or :: "'e \<Rightarrow> 'a option \<Rightarrow> 'e + 'a" where
  "ok_or e m = (case m of None \<Rightarrow> Inl e | Some x \<Rightarrow> Inr x)"

definition is_ok :: "'e + 'a \<Rightarrow> bool" where
  "is_ok m = (case m of Inl _ \<Rightarrow> False | Inr _ \<Rightarrow> True)"

lemma bindr_simps [simp]:
  "bindr (Inl e) f = Inl e"
  "bindr (Inr x) f = f x"
  by (simp_all add: bindr_def)

lemma bindr_eq_Inr_iff: "bindr m f = Inr y \<longleftrightarrow> (\<exists>x. m = Inr x \<and> f x = Inr y)"
  by (cases m) auto

lemma bindr_eq_Inl_iff:
  "bindr m f = Inl e \<longleftrightarrow> m = Inl e \<or> (\<exists>x. m = Inr x \<and> f x = Inl e)"
  by (cases m) auto

lemma bindr_assoc: "bindr (bindr m f) g = bindr m (\<lambda>x. bindr (f x) g)"
  by (cases m) auto

lemma map_err_simps [simp]:
  "map_err g (Inl e) = Inl (g e)"
  "map_err g (Inr x) = Inr x"
  by (simp_all add: map_err_def)

lemma map_err_eq_Inr_iff [simp]: "map_err g m = Inr y \<longleftrightarrow> m = Inr y"
  by (cases m) auto

lemma ok_or_simps [simp]:
  "ok_or e None = Inl e"
  "ok_or e (Some x) = Inr x"
  by (simp_all add: ok_or_def)

lemma ok_or_eq_Inr_iff [simp]: "ok_or e m = Inr y \<longleftrightarrow> m = Some y"
  by (cases m) auto

lemma is_ok_simps [simp]:
  "\<not> is_ok (Inl e)"
  "is_ok (Inr x)"
  by (simp_all add: is_ok_def)

section \<open>Big-endian integers\<close>

text \<open>
  \<open>be n x\<close> is the \<open>n\<close>-byte big-endian form of \<open>x\<close>, truncated as Rust's \<open>as\<close> casts do;
  \<open>from_be\<close> reads such a list back.
\<close>

fun be :: "nat \<Rightarrow> nat \<Rightarrow> bytes" where
  "be 0 x = []"
| "be (Suc n) x = be n (x div 256) @ [word_of_nat x]"

fun from_be_acc :: "nat \<Rightarrow> bytes \<Rightarrow> nat" where
  "from_be_acc acc [] = acc"
| "from_be_acc acc (b # bs) = from_be_acc (acc * 256 + unat b) bs"

definition from_be :: "bytes \<Rightarrow> nat" where
  "from_be bs = from_be_acc 0 bs"

lemma be_numeral [simp]:
  "be (numeral k) x = be (pred_numeral k) (x div 256) @ [word_of_nat x]"
  by (subst numeral_eq_Suc) (rule be.simps)

lemma length_be [simp]: "length (be n x) = n"
  by (induction n arbitrary: x) auto

lemma unat_u8_less [simp]: "unat (b :: u8) < 256"
  using unsigned_less [of b] by simp

lemma unat_u8_le [simp]: "unat (b :: u8) \<le> 255"
  using unat_u8_less [of b] by linarith

lemma unat_u16_less [simp]: "unat (b :: u16) < 65536"
  using unsigned_less [of b] by simp

lemma unat_of_nat_u8: "unat (word_of_nat x :: u8) = x mod 256"
  by (simp add: unat_of_nat)

lemma word_of_nat_mod_u8 [simp]: "(word_of_nat (x mod 256) :: u8) = word_of_nat x"
  by (simp add: word_unat_eq_iff unat_of_nat)

lemma from_be_acc_append: "from_be_acc a (xs @ ys) = from_be_acc (from_be_acc a xs) ys"
  by (induction xs arbitrary: a) auto

lemma from_be_Nil [simp]: "from_be [] = 0"
  by (simp add: from_be_def)

lemma from_be_snoc [simp]: "from_be (xs @ [b]) = from_be xs * 256 + unat b"
  by (simp add: from_be_def from_be_acc_append)

lemma from_be_be: "from_be (be n x) = x mod 256 ^ n"
proof (induction n arbitrary: x)
  case 0
  then show ?case by simp
next
  case (Suc n)
  have "from_be (be (Suc n) x) = (x div 256) mod 256 ^ n * 256 + x mod 256"
    by (simp add: Suc.IH unat_of_nat_u8)
  also have "\<dots> = x mod (256 * 256 ^ n)"
    by (simp add: mod_mult2_eq)
  also have "\<dots> = x mod 256 ^ Suc n"
    by simp
  finally show ?case .
qed

lemma from_be_be_small [simp]: "x < 256 ^ n \<Longrightarrow> from_be (be n x) = x"
  by (simp add: from_be_be)

lemma be_from_be: "length bs = n \<Longrightarrow> be n (from_be bs) = bs"
proof (induction bs arbitrary: n rule: rev_induct)
  case Nil
  then show ?case by simp
next
  case (snoc b bs)
  then obtain m where n: "n = Suc m" and m: "length bs = m" by auto
  have "(word_of_nat (from_be bs * 256 + unat b) :: u8) = b"
    by (simp add: word_unat_eq_iff unat_of_nat del: of_nat_add of_nat_mult)
  with n m snoc.IH show ?case by simp
qed

lemma from_be_less: "from_be bs < 256 ^ length bs"
proof (induction bs rule: rev_induct)
  case Nil
  then show ?case by simp
next
  case (snoc b bs)
  have "unat b < 256" by simp
  then have "from_be bs * 256 + unat b < from_be bs * 256 + 256" by linarith
  also have "\<dots> = (from_be bs + 1) * 256" by simp
  also have "\<dots> \<le> 256 ^ length bs * 256"
    using snoc by (intro mult_right_mono) auto
  finally show ?case by (simp add: mult.commute)
qed

lemma be_inject: "x < 256 ^ n \<Longrightarrow> y < 256 ^ n \<Longrightarrow> be n x = be n y \<longleftrightarrow> x = y"
  by (metis from_be_be_small)

text \<open>Assembling an integer from bytes with shifts and \<open>|\<close> is the big-endian value.\<close>

lemma push_bit_or_byte_int:
  fixes a b :: int
  assumes "0 \<le> b" and "b < 256"
  shows "push_bit 8 a OR b = a * 256 + b"
proof -
  have b: "take_bit 8 b = b"
    using assms by (simp add: take_bit_int_eq_self_iff)
  have "push_bit 8 a AND take_bit 8 b = 0"
    by (auto simp: bit_eq_iff bit_simps)
  then have "push_bit 8 a + b = push_bit 8 a OR b"
    unfolding b by (rule disjunctive_add_eq_or)
  then show ?thesis by (simp add: push_bit_eq_mult)
qed

lemma push_bit_or_byte_nat:
  fixes a b :: nat
  assumes "b < 256"
  shows "push_bit 8 a OR b = a * 256 + b"
proof -
  have b: "take_bit 8 b = b"
    using assms by (simp add: take_bit_nat_eq_self_iff)
  have "push_bit 8 a AND take_bit 8 b = 0"
    by (auto simp: bit_eq_iff bit_simps)
  then have "push_bit 8 a + b = push_bit 8 a OR b"
    unfolding b by (rule disjunctive_add_eq_or)
  then show ?thesis by (simp add: push_bit_eq_mult)
qed

text \<open>\<open>u16::to_be_bytes\<close>, \<open>u16::from_be_bytes\<close> and their 32- and 64-bit forms.\<close>

definition u16_be :: "u16 \<Rightarrow> bytes" where "u16_be w = be 2 (unat w)"
definition u32_be :: "u32 \<Rightarrow> bytes" where "u32_be w = be 4 (unat w)"
definition u64_be :: "u64 \<Rightarrow> bytes" where "u64_be w = be 8 (unat w)"

definition u16_of_be :: "bytes \<Rightarrow> u16" where "u16_of_be bs = word_of_nat (from_be bs)"
definition u32_of_be :: "bytes \<Rightarrow> u32" where "u32_of_be bs = word_of_nat (from_be bs)"
definition u64_of_be :: "bytes \<Rightarrow> u64" where "u64_of_be bs = word_of_nat (from_be bs)"

lemma length_uN_be [simp]:
  "length (u16_be w) = 2" "length (u32_be v) = 4" "length (u64_be u) = 8"
  by (simp_all add: u16_be_def u32_be_def u64_be_def del: be_numeral)

lemma u16_be_of_be: "length bs = 2 \<Longrightarrow> u16_be (u16_of_be bs) = bs"
proof -
  assume l: "length bs = 2"
  have "from_be bs < 2 ^ LENGTH(16)" using from_be_less [of bs] l by simp
  then have "unat (u16_of_be bs) = from_be bs"
    by (simp add: u16_of_be_def unat_of_nat)
  then show ?thesis
    using be_from_be [OF l] by (simp add: u16_be_def del: be_numeral)
qed

lemma u32_be_of_be: "length bs = 4 \<Longrightarrow> u32_be (u32_of_be bs) = bs"
proof -
  assume l: "length bs = 4"
  have "from_be bs < 2 ^ LENGTH(32)" using from_be_less [of bs] l by simp
  then have "unat (u32_of_be bs) = from_be bs"
    by (simp add: u32_of_be_def unat_of_nat)
  then show ?thesis
    using be_from_be [OF l] by (simp add: u32_be_def del: be_numeral)
qed

lemma u16_of_be_u16_be [simp]: "u16_of_be (u16_be w) = w"
proof -
  have "from_be (be 2 (unat w)) = unat w"
    using unsigned_less [of w] by (intro from_be_be_small) simp
  then show ?thesis unfolding u16_of_be_def u16_be_def by (simp del: be_numeral)
qed

lemma u32_of_be_u32_be [simp]: "u32_of_be (u32_be w) = w"
proof -
  have "from_be (be 4 (unat w)) = unat w"
    using unsigned_less [of w] by (intro from_be_be_small) simp
  then show ?thesis unfolding u32_of_be_def u32_be_def by (simp del: be_numeral)
qed

lemma u64_of_be_u64_be [simp]: "u64_of_be (u64_be w) = w"
proof -
  have "from_be (be 8 (unat w)) = unat w"
    using unsigned_less [of w] by (intro from_be_be_small) simp
  then show ?thesis unfolding u64_of_be_def u64_be_def by (simp del: be_numeral)
qed

text \<open>A property of bytes, checked on all 256.\<close>

lemma all_u8: "list_all (\<lambda>n. P (word_of_nat n :: u8)) [0..<256] \<Longrightarrow> P b"
proof -
  assume "list_all (\<lambda>n. P (word_of_nat n :: u8)) [0..<256]"
  then have "\<forall>n \<in> set [0..<256]. P (word_of_nat n)" by (simp only: list_all_iff)
  moreover have "unat b \<in> set [0..<256]" using unat_u8_less [of b] by simp
  ultimately have "P (word_of_nat (unat b))" by (rule bspec)
  then show "P b" by simp
qed

section \<open>Byte sources\<close>

datatype io_error = UnexpectedEof | WouldBlock | TimedOut | Interrupted | OtherIo

text \<open>\<open>Read::read_exact\<close> into a buffer of \<open>n\<close> bytes.\<close>

definition read_exact :: "nat \<Rightarrow> bytes \<Rightarrow> io_error + bytes \<times> bytes" where
  "read_exact n bs =
     (if length bs < n then Inl UnexpectedEof else Inr (take n bs, drop n bs))"

lemma read_exact_append [simp]: "length xs = n \<Longrightarrow> read_exact n (xs @ ys) = Inr (xs, ys)"
  by (simp add: read_exact_def)

lemma read_exact_Inr_iff:
  "read_exact n bs = Inr (xs, ys) \<longleftrightarrow> bs = xs @ ys \<and> length xs = n"
  by (auto simp: read_exact_def)

lemma read_exact_Inl_iff: "read_exact n bs = Inl e \<longleftrightarrow> length bs < n \<and> e = UnexpectedEof"
  by (auto simp: read_exact_def)

lemma read_exact_Cons [simp]: "read_exact (Suc 0) (x # xs) = Inr ([x], xs)"
  by (simp add: read_exact_def)

lemma read_exact_Nil [simp]: "0 < n \<Longrightarrow> read_exact n [] = Inl UnexpectedEof"
  by (simp add: read_exact_def)

lemma read_exact_0 [simp]: "read_exact 0 bs = Inr ([], bs)"
  by (simp add: read_exact_def)

section \<open>Lists\<close>

lemma find_append: "find P (xs @ ys) = (case find P xs of None \<Rightarrow> find P ys | Some x \<Rightarrow> Some x)"
  by (induction xs) auto

lemma find_SomeD: "find P xs = Some x \<Longrightarrow> x \<in> set xs \<and> P x"
  by (induction xs) (auto split: if_splits)

lemma list_all2_in_right: "list_all2 P xs ys \<Longrightarrow> y \<in> set ys \<Longrightarrow> \<exists>x \<in> set xs. P x y"
  by (induction rule: list_all2_induct) auto

text \<open>\<open>data.chunks(n)\<close>.\<close>

function chunks :: "nat \<Rightarrow> 'a list \<Rightarrow> 'a list list" where
  "chunks n xs = (if xs = [] \<or> n = 0 then [] else take n xs # chunks n (drop n xs))"
  by pat_completeness auto
termination
  by (relation "measure (\<lambda>(n, xs). length xs)") auto

declare chunks.simps [simp del]

lemma concat_chunks [simp]: "0 < n \<Longrightarrow> concat (chunks n xs) = xs"
  by (induction n xs rule: chunks.induct) (simp add: chunks.simps)

lemma chunks_length: "c \<in> set (chunks n xs) \<Longrightarrow> length c \<le> n \<and> c \<noteq> []"
proof (induction n xs rule: chunks.induct)
  case (1 n xs)
  show ?case
  proof (cases "xs = [] \<or> n = 0")
    case True
    with 1(2) show ?thesis by (simp add: chunks.simps [of n xs])
  next
    case False
    with 1(2) have "c = take n xs \<or> c \<in> set (chunks n (drop n xs))" by (simp add: chunks.simps [of n xs])
    with 1(1) [OF False] False show ?thesis by auto
  qed
qed

end
