(* ===== verification/Vision.thy ===== *)
theory Vision
  imports Prelude
begin

unbundle bit_operations_syntax

text \<open>
  XTLS Vision (\<open>crates/vless/src/vision.rs\<close>): the padding layer. Every frame is
  \<open>[uuid(16)] command(1) content_len(2) padding_len(2) content padding\<close>, the UUID on the first
  frame of a direction only. The \<open>i32\<close> counters are integers, since every value they take fits;
  casts to \<open>u16\<close> truncate. Random choices are arguments: \<open>rng n\<close> is the result of
  \<open>gen_range(0..n)\<close> and \<open>fill i\<close> the \<open>i\<close>-th random padding byte.
\<close>

section \<open>State\<close>

record DirectionState =
  within_padding_buffers :: bool
  direct_copy :: bool
  remaining_command :: int
  remaining_content :: int
  remaining_padding :: int
  current_command :: int
  is_padding :: bool
  initial_buffer :: bytes

record TrafficState =
  ts_user_uuid :: bytes
  number_of_packet_to_filter :: int
  enable_xtls :: bool
  is_tls12_or_above :: bool
  is_tls :: bool
  cipher :: u16
  remaining_server_hello :: int
  inbound :: DirectionState
  outbound :: DirectionState

definition direction_new :: DirectionState where
  "direction_new =
     \<lparr>within_padding_buffers = True, direct_copy = False, remaining_command = -1,
      remaining_content = -1, remaining_padding = -1, current_command = 0, is_padding = True,
      initial_buffer = []\<rparr>"

definition TrafficState_new :: "bytes \<Rightarrow> TrafficState" where
  "TrafficState_new user_uuid =
     (let len = min (length user_uuid) 16 in
      \<lparr>ts_user_uuid = take len user_uuid @ replicate (16 - len) 0,
       number_of_packet_to_filter = 8, enable_xtls = False, is_tls12_or_above = False,
       is_tls = False, cipher = 0, remaining_server_hello = -1,
       inbound = direction_new, outbound = direction_new\<rparr>)"

definition CMD_PADDING_CONTINUE :: u8 where "CMD_PADDING_CONTINUE = 0"
definition CMD_PADDING_END :: u8 where "CMD_PADDING_END = 1"
definition CMD_PADDING_DIRECT :: u8 where "CMD_PADDING_DIRECT = 2"

section \<open>Padding\<close>

definition padding_length :: "(u32 \<Rightarrow> u32) \<Rightarrow> int \<Rightarrow> bool \<Rightarrow> u32 list \<Rightarrow> int" where
  "padding_length rng content_len long_padding testseed =
     (if content_len < sint (testseed ! 0) \<and> long_padding
      then max (sint (rng (testseed ! 1)) + sint (testseed ! 2) - content_len) 0
      else sint (rng (testseed ! 3)))"

text \<open>The frame, and the UUID option after \<open>take\<close>.\<close>

definition xtls_padding ::
  "(u32 \<Rightarrow> u32) \<Rightarrow> (nat \<Rightarrow> u8) \<Rightarrow> bytes \<Rightarrow> u8 \<Rightarrow> bytes option \<Rightarrow> bool \<Rightarrow> u32 list
     \<Rightarrow> bytes \<times> bytes option" where
  "xtls_padding rng fill buf command user_uuid long_padding testseed =
     (let testseed = (if length testseed < 4 then [900, 500, 900, 256] else testseed);
          content_len = int (length buf);
          padding_len = padding_length rng content_len long_padding testseed;
          max_content = 65536 - 21 - content_len;
          padding_len = min padding_len max_content
      in ((case user_uuid of None \<Rightarrow> [] | Some uuid \<Rightarrow> uuid)
          @ [command] @ u16_be (word_of_int content_len) @ u16_be (word_of_int padding_len)
          @ buf @ map fill [0..<nat padding_len], None))"

section \<open>Unpadding\<close>

text \<open>One header byte, by the number of header bytes still expected.\<close>

definition header_byte :: "DirectionState \<Rightarrow> u8 \<Rightarrow> DirectionState" where
  "header_byte dir b =
     (let v = uint b; rc = remaining_command dir;
          dir' = (if rc = 5 then dir\<lparr>current_command := v\<rparr>
                  else if rc = 4 then dir\<lparr>remaining_content := push_bit 8 v\<rparr>
                  else if rc = 3 then dir\<lparr>remaining_content := remaining_content dir OR v\<rparr>
                  else if rc = 2 then dir\<lparr>remaining_padding := push_bit 8 v\<rparr>
                  else if rc = 1 then dir\<lparr>remaining_padding := remaining_padding dir OR v\<rparr>
                  else dir)
      in dir'\<lparr>remaining_command := rc - 1\<rparr>)"

text \<open>The three-way branch at the head of the loop body, on a non-empty buffer.\<close>

definition consume :: "bytes \<Rightarrow> DirectionState \<Rightarrow> bytes \<Rightarrow> bytes \<times> DirectionState \<times> bytes" where
  "consume buf dir output =
     (if remaining_command dir > 0 then (tl buf, header_byte dir (hd buf), output)
      else if remaining_content dir > 0 then
        (let len = min (nat (remaining_content dir)) (length buf) in
         (drop len buf, dir\<lparr>remaining_content := remaining_content dir - int len\<rparr>,
          output @ take len buf))
      else if remaining_padding dir > 0 then
        (let len = min (nat (remaining_padding dir)) (length buf) in
         (drop len buf, dir\<lparr>remaining_padding := remaining_padding dir - int len\<rparr>, output))
      else (buf, dir, output))"

definition block_complete :: "DirectionState \<Rightarrow> bool" where
  "block_complete dir \<longleftrightarrow>
     remaining_command dir \<le> 0 \<and> remaining_content dir \<le> 0 \<and> remaining_padding dir \<le> 0"

definition reset_dir :: "DirectionState \<Rightarrow> DirectionState" where
  "reset_dir dir =
     dir\<lparr>remaining_command := -1, remaining_content := -1, remaining_padding := -1\<rparr>"

function unpadding_loop :: "bytes \<Rightarrow> DirectionState \<Rightarrow> bytes \<Rightarrow> bytes \<times> DirectionState" where
  "unpadding_loop buf dir output =
     (if buf = [] then (output, dir)
      else case consume buf dir output of (buf', dir', output') \<Rightarrow>
        if block_complete dir' then
          (if current_command dir' = 0 then unpadding_loop buf' (dir'\<lparr>remaining_command := 5\<rparr>) output'
           else (output' @ buf', reset_dir dir'))
        else unpadding_loop buf' dir' output')"
  by pat_completeness auto
termination
  by (relation "measure (\<lambda>(buf, dir, output). 2 * length buf + (if block_complete dir then 1 else 0))")
    (auto simp: consume_def block_complete_def Let_def split: if_splits)

declare unpadding_loop.simps [simp del]

definition get_dir :: "TrafficState \<Rightarrow> bool \<Rightarrow> DirectionState" where
  "get_dir st is_uplink = (if is_uplink then inbound st else outbound st)"

definition set_dir :: "TrafficState \<Rightarrow> bool \<Rightarrow> DirectionState \<Rightarrow> TrafficState" where
  "set_dir st is_uplink dir = (if is_uplink then st\<lparr>inbound := dir\<rparr> else st\<lparr>outbound := dir\<rparr>)"

text \<open>The body of \<open>xtls_unpadding\<close> on the selected direction.\<close>

definition unpad_dir :: "bytes \<Rightarrow> bytes \<Rightarrow> DirectionState \<Rightarrow> bytes \<times> DirectionState" where
  "unpad_dir user_uuid buf dir =
     (if remaining_command dir = -1 \<and> remaining_content dir = -1 \<and> remaining_padding dir = -1 then
        (if initial_buffer dir \<noteq> [] \<or> length buf < 21 then
           (let ib = initial_buffer dir @ buf in
            if \<exists>(got, expected) \<in> set (zip ib user_uuid). got \<noteq> expected
            then (ib, dir\<lparr>initial_buffer := []\<rparr>)
            else if length ib < 21 then ([], dir\<lparr>initial_buffer := ib\<rparr>)
            else unpadding_loop (drop 16 ib) (dir\<lparr>initial_buffer := [], remaining_command := 5\<rparr>) [])
         else if length buf \<ge> 21 \<and> user_uuid = take 16 buf
         then unpadding_loop (drop 16 buf) (dir\<lparr>remaining_command := 5\<rparr>) []
         else (buf, dir))
      else unpadding_loop buf dir [])"

definition xtls_unpadding :: "bytes \<Rightarrow> TrafficState \<Rightarrow> bool \<Rightarrow> bytes \<times> TrafficState" where
  "xtls_unpadding buf st is_uplink =
     (case unpad_dir (ts_user_uuid st) buf (get_dir st is_uplink) of
        (out, dir) \<Rightarrow> (out, set_dir st is_uplink dir))"

section \<open>TLS detection\<close>

definition TLS13_SUPPORTED_VERSIONS :: bytes where
  "TLS13_SUPPORTED_VERSIONS = [0x00, 0x2b, 0x00, 0x02, 0x03, 0x04]"

text \<open>\<open>windows(6).any(|w| w == pat)\<close> for a pattern as long as the window.\<close>

fun contains_window :: "bytes \<Rightarrow> bytes \<Rightarrow> bool" where
  "contains_window pat [] = (pat = [])"
| "contains_window pat (b # bs) = (take (length pat) (b # bs) = pat \<or> contains_window pat bs)"

text \<open>The cipher whose name is \<open>TLS_AES_128_CCM_8_SHA256\<close> in \<open>TLS13_CIPHER_SUITES\<close>.\<close>

definition TLS13_CIPHER_SUITES :: "(u16 \<times> string) list" where
  "TLS13_CIPHER_SUITES =
     [(0x1301, ''TLS_AES_128_GCM_SHA256''), (0x1302, ''TLS_AES_256_GCM_SHA384''),
      (0x1303, ''TLS_CHACHA20_POLY1305_SHA256''), (0x1304, ''TLS_AES_128_CCM_SHA256''),
      (0x1305, ''TLS_AES_128_CCM_8_SHA256'')]"

definition cipher_name :: "u16 \<Rightarrow> string" where
  "cipher_name c = (case map_of TLS13_CIPHER_SUITES c of None \<Rightarrow> ''unknown'' | Some n \<Rightarrow> n)"

definition filter_hello :: "bytes \<Rightarrow> TrafficState \<Rightarrow> TrafficState" where
  "filter_hello buf st =
     (if take 3 buf = [0x16, 0x03, 0x03] \<and> buf ! 5 = 0x02 then
        (let record_len = push_bit 8 (int (unat (buf ! 3))) OR int (unat (buf ! 4));
             st1 = st\<lparr>remaining_server_hello := record_len + 5, is_tls12_or_above := True,
                      is_tls := True\<rparr>
         in if length buf \<ge> 79 \<and> remaining_server_hello st1 \<ge> 79 then
              (let cs_start = 43 + unat (buf ! 43) + 1 in
               if cs_start + 1 < length buf
               then st1\<lparr>cipher := push_bit 8 (ucast (buf ! cs_start)) OR ucast (buf ! (cs_start + 1))\<rparr>
               else st1)
            else st1)
      else if take 2 buf = [0x16, 0x03] \<and> buf ! 5 = 0x01 then st\<lparr>is_tls := True\<rparr>
      else st)"

definition filter_versions :: "bytes \<Rightarrow> TrafficState \<Rightarrow> TrafficState" where
  "filter_versions buf st =
     (if remaining_server_hello st > 0 then
        (let fin = min (nat (remaining_server_hello st)) (length buf);
             st1 = st\<lparr>remaining_server_hello := remaining_server_hello st - int (length buf)\<rparr>
         in if contains_window TLS13_SUPPORTED_VERSIONS (take fin buf) then
              (if cipher_name (cipher st1) \<noteq> ''TLS_AES_128_CCM_8_SHA256''
               then st1\<lparr>enable_xtls := True, number_of_packet_to_filter := 0\<rparr>
               else st1\<lparr>number_of_packet_to_filter := 0\<rparr>)
            else if remaining_server_hello st1 \<le> 0 then st1\<lparr>number_of_packet_to_filter := 0\<rparr>
            else st1)
      else st)"

definition xtls_filter_tls :: "bytes \<Rightarrow> TrafficState \<Rightarrow> TrafficState" where
  "xtls_filter_tls buf st =
     (let st = st\<lparr>number_of_packet_to_filter := number_of_packet_to_filter st - 1\<rparr> in
      if length buf < 6 then st else filter_versions buf (filter_hello buf st))"

text \<open>
  The loop of \<open>is_complete_record\<close> over the bytes left: \<open>header_remaining\<close> and
  \<open>record_remaining\<close> are the source's locals.
\<close>

function complete_record_loop :: "nat \<Rightarrow> nat \<Rightarrow> bytes \<Rightarrow> bool" where
  "complete_record_loop header_remaining record_remaining bs =
     (case bs of
        [] \<Rightarrow> header_remaining = 5 \<and> record_remaining = 0
      | byte # rest \<Rightarrow>
          if header_remaining > 0 then
            (if header_remaining = 5 \<and> byte \<noteq> 0x17 then False
             else if header_remaining = 4 \<and> byte \<noteq> 0x03 then False
             else if header_remaining = 3 \<and> byte \<noteq> 0x03 then False
             else complete_record_loop (header_remaining - 1)
                    (if header_remaining = 2 then push_bit 8 (unat byte)
                     else if header_remaining = 1 then record_remaining OR unat byte
                     else record_remaining) rest)
          else if record_remaining > 0 then
            (if length bs < record_remaining then False
             else complete_record_loop 5 0 (drop record_remaining bs))
          else False)"
  by pat_completeness auto
termination
  by (relation "measure (\<lambda>(h, r, bs). length bs)") auto

declare complete_record_loop.simps [simp del]

definition is_complete_record :: "bytes \<Rightarrow> bool" where
  "is_complete_record buf = complete_record_loop 5 0 buf"

section \<open>Reader and writer\<close>

text \<open>
  \<open>VisionReader\<close>: the inner reader is the list of results its \<open>read\<close> calls will give, an error
  or a chunk; the empty list and the empty chunk are end of file. \<open>vision_read\<close> is one \<open>read\<close> into
  a buffer of \<open>buf_len\<close> bytes: what the caller gets, the reader, and the results not yet used.
\<close>

record VisionReader =
  vr_state :: TrafficState
  vr_is_uplink :: bool
  vr_direct :: bool

definition VisionReader_new :: "TrafficState \<Rightarrow> bool \<Rightarrow> VisionReader" where
  "VisionReader_new st is_uplink = \<lparr>vr_state = st, vr_is_uplink = is_uplink, vr_direct = False\<rparr>"

definition after_unpad :: "DirectionState \<Rightarrow> DirectionState \<times> bool" where
  "after_unpad dir =
     (if remaining_content dir > 0 \<or> remaining_padding dir > 0 \<or> current_command dir = 0
      then (dir\<lparr>within_padding_buffers := True\<rparr>, False)
      else if current_command dir = 1 then (dir\<lparr>within_padding_buffers := False\<rparr>, False)
      else if current_command dir = 2
      then (dir\<lparr>within_padding_buffers := False, direct_copy := True\<rparr>, True)
      else (dir, False))"

text \<open>What one chunk does to a reader that is not in direct mode and still within padding.\<close>

definition reader_chunk :: "VisionReader \<Rightarrow> bytes \<Rightarrow> bytes \<times> VisionReader" where
  "reader_chunk r raw =
     (let up = vr_is_uplink r in
      case xtls_unpadding raw (vr_state r) up of (unpadded, st1) \<Rightarrow>
        case after_unpad (get_dir st1 up) of (dir, direct) \<Rightarrow>
          let st2 = set_dir st1 up dir;
              st3 = (if number_of_packet_to_filter st2 > 0 then xtls_filter_tls unpadded st2 else st2)
          in (unpadded, r\<lparr>vr_state := st3, vr_direct := vr_direct r \<or> direct\<rparr>))"

fun vision_read ::
  "nat \<Rightarrow> VisionReader \<Rightarrow> (io_error + bytes) list
     \<Rightarrow> (io_error + bytes) \<times> VisionReader \<times> (io_error + bytes) list" where
  "vision_read buf_len r [] = (Inr [], r, [])"
| "vision_read buf_len r (Inl e # src) =
     (if buf_len = 0 then (Inr [], r, Inl e # src) else (Inl e, r, src))"
| "vision_read buf_len r (Inr raw # src) =
     (if buf_len = 0 then (Inr [], r, Inr raw # src)
      else if raw = [] then (Inr [], r, src)
      else if vr_direct r then (Inr (take buf_len raw), r, src)
      else if \<not> (within_padding_buffers (get_dir (vr_state r) (vr_is_uplink r))
                 \<or> number_of_packet_to_filter (vr_state r) > 0)
      then (Inr (take buf_len raw), r, src)
      else case reader_chunk r raw of (unpadded, r') \<Rightarrow>
        if unpadded = [] then vision_read buf_len r' src
        else (Inr (take buf_len unpadded), r', src))"

text \<open>\<open>VisionWriter\<close>: one \<open>write\<close> gives the writer, the bytes that reach the inner sink and the count.\<close>

record VisionWriter =
  vw_state :: TrafficState
  vw_is_uplink :: bool
  vw_user_uuid :: "bytes option"
  vw_testseed :: "u32 list"
  vw_direct :: bool

definition VisionWriter_new :: "TrafficState \<Rightarrow> bool \<Rightarrow> u32 list \<Rightarrow> VisionWriter" where
  "VisionWriter_new st is_uplink testseed =
     \<lparr>vw_state = st, vw_is_uplink = is_uplink, vw_user_uuid = Some (ts_user_uuid st),
      vw_testseed = testseed, vw_direct = False\<rparr>"

text \<open>The writer's direction is the one the reader does not use.\<close>

definition writer_dir :: "VisionWriter \<Rightarrow> DirectionState" where
  "writer_dir w = get_dir (vw_state w) (\<not> vw_is_uplink w)"

definition upd_writer_dir :: "(DirectionState \<Rightarrow> DirectionState) \<Rightarrow> VisionWriter \<Rightarrow> VisionWriter" where
  "upd_writer_dir f w =
     w\<lparr>vw_state := set_dir (vw_state w) (\<not> vw_is_uplink w) (f (writer_dir w))\<rparr>"

definition vision_write ::
  "(u32 \<Rightarrow> u32) \<Rightarrow> (nat \<Rightarrow> u8) \<Rightarrow> VisionWriter \<Rightarrow> bytes \<Rightarrow> VisionWriter \<times> bytes \<times> nat" where
  "vision_write rng fill w buf =
     (if vw_direct w then (w, buf, length buf)
      else
        let w1 = (if number_of_packet_to_filter (vw_state w) > 0
                  then w\<lparr>vw_state := xtls_filter_tls buf (vw_state w)\<rparr> else w)
        in if is_padding (writer_dir w1) then
             (if buf = [] then
                (case xtls_padding rng fill [] CMD_PADDING_CONTINUE (vw_user_uuid w1) True
                        (vw_testseed w1) of (frame, uu) \<Rightarrow> (w1\<lparr>vw_user_uuid := uu\<rparr>, frame, 0))
              else if is_tls (vw_state w1) \<and> length buf \<ge> 6 \<and> take 3 buf = [0x17, 0x03, 0x03]
                   \<and> is_complete_record buf then
                (let xtls = enable_xtls (vw_state w1);
                     command = (if xtls then CMD_PADDING_DIRECT else CMD_PADDING_END);
                     w2 = (if xtls then (upd_writer_dir (\<lambda>d. d\<lparr>direct_copy := True\<rparr>) w1)\<lparr>vw_direct := True\<rparr>
                           else w1)
                 in case xtls_padding rng fill buf command (vw_user_uuid w2) False (vw_testseed w2) of
                      (frame, uu) \<Rightarrow>
                        (upd_writer_dir (\<lambda>d. d\<lparr>is_padding := False\<rparr>) (w2\<lparr>vw_user_uuid := uu\<rparr>),
                         frame, length buf))
              else
                (case xtls_padding rng fill buf CMD_PADDING_CONTINUE (vw_user_uuid w1)
                        (is_tls (vw_state w1)) (vw_testseed w1) of
                   (frame, uu) \<Rightarrow> (w1\<lparr>vw_user_uuid := uu\<rparr>, frame, length buf)))
           else (w1, buf, length buf))"

section \<open>The unpadding loop, one byte at a time\<close>

text \<open>
  The reference semantics: one byte, its effect on the direction, the byte it lets through if any,
  and whether it ended the padded part of the stream.
\<close>

definition byte_step :: "DirectionState \<Rightarrow> u8 \<Rightarrow> DirectionState \<times> bytes \<times> bool" where
  "byte_step dir b =
     (let (dir', out) =
            (if remaining_command dir > 0 then (header_byte dir b, [])
             else if remaining_content dir > 0
             then (dir\<lparr>remaining_content := remaining_content dir - 1\<rparr>, [b])
             else (dir\<lparr>remaining_padding := remaining_padding dir - 1\<rparr>, []))
      in if block_complete dir' then
           (if current_command dir' = 0 then (dir'\<lparr>remaining_command := 5\<rparr>, out, False)
            else (reset_dir dir', out, True))
         else (dir', out, False))"

fun unpad_bytes :: "DirectionState \<Rightarrow> bytes \<Rightarrow> bytes \<times> DirectionState" where
  "unpad_bytes dir [] = ([], dir)"
| "unpad_bytes dir (b # bs) =
     (case byte_step dir b of (dir', out, ended) \<Rightarrow>
        if ended then (out @ bs, dir')
        else (case unpad_bytes dir' bs of (out', dir'') \<Rightarrow> (out @ out', dir'')))"

lemma byte_step_active: "byte_step dir b = (dir', out, False) \<Longrightarrow> \<not> block_complete dir'"
  by (auto simp: byte_step_def block_complete_def Let_def split: prod.splits if_splits)

lemma unpadding_loop_Nil [simp]: "unpadding_loop [] dir out = (out, dir)"
  by (simp add: unpadding_loop.simps)

lemma unpadding_loop_header:
  assumes "remaining_command dir > 0"
  shows "unpadding_loop (b # bs) dir out =
    (case byte_step dir b of (dir', o1, ended) \<Rightarrow>
       if ended then (out @ o1 @ bs, dir') else unpadding_loop bs dir' (out @ o1))"
  using assms
  by (subst unpadding_loop.simps) (simp add: consume_def byte_step_def Let_def)

text \<open>Copying a run of bytes at once is copying the first and going on.\<close>

lemma min_Suc_nat: "0 < c \<Longrightarrow> min (nat c) (Suc n) = Suc (min (nat (c - 1)) n)"
  by (cases "nat c") auto

lemma unpadding_loop_content:
  assumes rc: "remaining_command dir \<le> 0" and c: "remaining_content dir > 0"
  shows "unpadding_loop (b # bs) dir out =
    (case byte_step dir b of (dir', o1, ended) \<Rightarrow>
       if ended then (out @ o1 @ bs, dir') else unpadding_loop bs dir' (out @ o1))"
proof (cases "bs = [] \<or> remaining_content dir = 1")
  case True
  then show ?thesis
    using rc c by (subst unpadding_loop.simps)
      (auto simp: consume_def byte_step_def Let_def)
next
  case False
  let ?dir = "dir\<lparr>remaining_content := remaining_content dir - 1\<rparr>"
  have "byte_step dir b = (?dir, [b], False)"
    using rc c False by (auto simp: byte_step_def block_complete_def Let_def)
  moreover have "consume (b # bs) dir out = consume bs ?dir (out @ [b])"
    using rc c False by (simp add: consume_def Let_def min_Suc_nat)
  ultimately show ?thesis
    using False by (simp add: unpadding_loop.simps [of "b # bs"] unpadding_loop.simps [of bs])
qed

lemma unpadding_loop_padding:
  assumes rc: "remaining_command dir \<le> 0" and c: "remaining_content dir \<le> 0"
    and p: "remaining_padding dir > 0"
  shows "unpadding_loop (b # bs) dir out =
    (case byte_step dir b of (dir', o1, ended) \<Rightarrow>
       if ended then (out @ o1 @ bs, dir') else unpadding_loop bs dir' (out @ o1))"
proof (cases "bs = [] \<or> remaining_padding dir = 1")
  case True
  then show ?thesis
    using rc c p by (subst unpadding_loop.simps)
      (auto simp: consume_def byte_step_def Let_def)
next
  case False
  let ?dir = "dir\<lparr>remaining_padding := remaining_padding dir - 1\<rparr>"
  have "byte_step dir b = (?dir, [], False)"
    using rc c p False by (auto simp: byte_step_def block_complete_def Let_def)
  moreover have "consume (b # bs) dir out = consume bs ?dir out"
    using rc c p False by (simp add: consume_def Let_def min_Suc_nat)
  ultimately show ?thesis
    using False by (simp add: unpadding_loop.simps [of "b # bs"] unpadding_loop.simps [of bs])
qed

lemma unpadding_loop_bytes:
  "\<not> block_complete dir \<Longrightarrow>
     unpadding_loop bs dir out = (out @ fst (unpad_bytes dir bs), snd (unpad_bytes dir bs))"
proof (induction bs arbitrary: dir out)
  case Nil
  then show ?case by simp
next
  case (Cons b bs)
  have "unpadding_loop (b # bs) dir out =
    (case byte_step dir b of (dir', o1, ended) \<Rightarrow>
       if ended then (out @ o1 @ bs, dir') else unpadding_loop bs dir' (out @ o1))"
    using Cons.prems unpadding_loop_header unpadding_loop_content unpadding_loop_padding
    unfolding block_complete_def by (meson not_le)
  then show ?case
    using Cons.IH byte_step_active by (auto split: prod.splits if_splits)
qed

section \<open>Frames\<close>

definition enframe :: "u8 \<Rightarrow> bytes \<Rightarrow> bytes \<Rightarrow> bytes" where
  "enframe cmd content padding =
     cmd # be 2 (length content) @ be 2 (length padding) @ content @ padding"

lemma unpad_bytes_append:
  "unpad_bytes dir (xs @ ys) =
     (case unpad_bytes dir xs of (out, d) \<Rightarrow>
        if xs \<noteq> [] \<and> block_complete d then (out @ ys, d)
        else (case unpad_bytes d ys of (out', d') \<Rightarrow> (out @ out', d')))"
proof (induction xs arbitrary: dir)
  case Nil
  then show ?case by simp
next
  case (Cons b xs)
  have ended: "block_complete dir'" if "byte_step dir b = (dir', out, True)" for dir' out
    using that by (auto simp: byte_step_def Let_def block_complete_def reset_dir_def
        split: prod.splits if_splits)
  show ?case
    using Cons.IH ended byte_step_active
    by (cases "byte_step dir b") (auto split: prod.splits if_splits)
qed

lemma unpad_bytes_content:
  assumes "remaining_command dir = 0" and "remaining_content dir = int (length content)"
    and "remaining_padding dir = int n" and "n > 0"
  shows "unpad_bytes dir (content @ rest) =
    (case unpad_bytes (dir\<lparr>remaining_content := 0\<rparr>) rest of (out, d) \<Rightarrow> (content @ out, d))"
  using assms
proof (induction content arbitrary: dir)
  case Nil
  then have "dir\<lparr>remaining_content := 0\<rparr> = dir" by simp
  then show ?case by simp
next
  case (Cons b content)
  let ?dir = "dir\<lparr>remaining_content := remaining_content dir - 1\<rparr>"
  have "byte_step dir b = (?dir, [b], False)"
    using Cons.prems by (simp add: byte_step_def block_complete_def Let_def)
  moreover have "unpad_bytes ?dir (content @ rest) =
      (case unpad_bytes (?dir\<lparr>remaining_content := 0\<rparr>) rest of (out, d) \<Rightarrow> (content @ out, d))"
    using Cons.prems by (intro Cons.IH) auto
  ultimately show ?case by (simp split: prod.splits)
qed

text \<open>What follows the last byte of a frame: the next frame, or raw bytes.\<close>

definition after_frame :: "DirectionState \<Rightarrow> bytes \<Rightarrow> bytes \<times> DirectionState" where
  "after_frame dir rest =
     (if current_command dir = 0
      then unpad_bytes (dir\<lparr>remaining_content := 0, remaining_padding := 0, remaining_command := 5\<rparr>) rest
      else (rest, reset_dir dir))"

lemma reset_dir_upd [simp]:
  "reset_dir (dir\<lparr>remaining_content := c\<rparr>) = reset_dir dir"
  "reset_dir (dir\<lparr>remaining_padding := p\<rparr>) = reset_dir dir"
  "reset_dir (dir\<lparr>remaining_command := k\<rparr>) = reset_dir dir"
  by (simp_all add: reset_dir_def)

lemma after_frame_upd [simp]:
  "after_frame (dir\<lparr>remaining_content := c\<rparr>) = after_frame dir"
  "after_frame (dir\<lparr>remaining_padding := p\<rparr>) = after_frame dir"
  "after_frame (dir\<lparr>remaining_command := k\<rparr>) = after_frame dir"
  by (simp_all add: after_frame_def fun_eq_iff)

lemma unpad_bytes_padding:
  assumes "remaining_command dir = 0" and "remaining_content dir = 0"
    and "remaining_padding dir = int (length padding)" and "padding \<noteq> []"
  shows "unpad_bytes dir (padding @ rest) = after_frame dir rest"
  using assms
proof (induction padding arbitrary: dir)
  case Nil
  then show ?case by simp
next
  case (Cons b padding)
  let ?dir = "dir\<lparr>remaining_padding := remaining_padding dir - 1\<rparr>"
  show ?case
  proof (cases "padding = []")
    case True
    with Cons.prems show ?thesis
      by (cases dir) (auto simp: byte_step_def block_complete_def after_frame_def reset_dir_def Let_def split: prod.splits)
  next
    case False
    have "byte_step dir b = (?dir, [], False)"
      using Cons.prems False by (simp add: byte_step_def block_complete_def Let_def)
    moreover have "unpad_bytes ?dir (padding @ rest) = after_frame ?dir rest"
      using Cons.prems False by (intro Cons.IH) auto
    ultimately show ?thesis by (simp split: prod.splits)
  qed
qed

lemma unpad_bytes_content_only:
  assumes "remaining_command dir = 0" and "remaining_content dir = int (length content)"
    and "remaining_padding dir = 0" and "content \<noteq> []"
  shows "unpad_bytes dir (content @ rest) =
    (case after_frame dir rest of (out, d) \<Rightarrow> (content @ out, d))"
  using assms
proof (induction content arbitrary: dir)
  case Nil
  then show ?case by simp
next
  case (Cons b content)
  let ?dir = "dir\<lparr>remaining_content := remaining_content dir - 1\<rparr>"
  show ?case
  proof (cases "content = []")
    case True
    with Cons.prems show ?thesis
      by (cases dir) (auto simp: byte_step_def block_complete_def after_frame_def reset_dir_def Let_def split: prod.splits)
  next
    case False
    have "byte_step dir b = (?dir, [b], False)"
      using Cons.prems False by (simp add: byte_step_def block_complete_def Let_def)
    moreover have "unpad_bytes ?dir (content @ rest) =
        (case after_frame ?dir rest of (out, d) \<Rightarrow> (content @ out, d))"
      using Cons.prems False by (intro Cons.IH) auto
    ultimately show ?thesis by (simp split: prod.splits)
  qed
qed

lemma unpad_bytes_body:
  assumes "remaining_command dir = 0" and "remaining_content dir = int (length content)"
    and "remaining_padding dir = int (length padding)" and "content \<noteq> [] \<or> padding \<noteq> []"
  shows "unpad_bytes dir (content @ padding @ rest) =
    (case after_frame dir rest of (out, d) \<Rightarrow> (content @ out, d))"
proof (cases "padding = []")
  case True
  with assms show ?thesis using unpad_bytes_content_only [of dir content rest] by simp
next
  case False
  have "unpad_bytes (dir\<lparr>remaining_content := 0\<rparr>) (padding @ rest) = after_frame dir rest"
    using assms False by (subst unpad_bytes_padding) auto
  with assms False show ?thesis
    by (subst unpad_bytes_content [where n = "length padding"]) auto
qed

text \<open>The five header bytes.\<close>

lemma or_be2:
  assumes "x < 65536"
  shows "push_bit 8 (uint (word_of_nat (x div 256) :: u8)) OR uint (word_of_nat x :: u8) = int x"
proof -
  have u: "uint (word_of_nat n :: u8) = int (n mod 256)" for n
    by (metis unat_of_nat_u8 uint_nat)
  have "x div 256 * 256 + x mod 256 = x"
    by simp
  then have "int (x div 256) * 256 + int (x mod 256) = int x"
    by (metis of_nat_add of_nat_mult of_nat_numeral)
  then show ?thesis
    using assms by (simp add: u push_bit_or_byte_int)
qed

lemma unpad_bytes_header:
  assumes rc: "remaining_command dir = 5" and x: "x < 65536" and y: "y < 65536"
    and d: "dir' = dir\<lparr>current_command := uint cmd, remaining_content := int x,
      remaining_padding := int y, remaining_command := 0\<rparr>"
  shows "unpad_bytes dir (cmd # be 2 x @ be 2 y @ rest) =
    (if x = 0 \<and> y = 0 then after_frame dir' rest else unpad_bytes dir' rest)"
proof -
  let ?a = "dir\<lparr>current_command := uint cmd, remaining_command := 4\<rparr>"
  let ?b = "?a\<lparr>remaining_content := push_bit 8 (uint (word_of_nat (x div 256) :: u8)),
    remaining_command := 3\<rparr>"
  let ?c = "?a\<lparr>remaining_content := int x, remaining_command := 2\<rparr>"
  let ?d = "?c\<lparr>remaining_padding := push_bit 8 (uint (word_of_nat (y div 256) :: u8)),
    remaining_command := 1\<rparr>"
  have "byte_step dir cmd = (?a, [], False)"
    using rc by (simp add: byte_step_def header_byte_def block_complete_def Let_def)
  moreover have "byte_step ?a (word_of_nat (x div 256)) = (?b, [], False)"
    by (simp add: byte_step_def header_byte_def block_complete_def Let_def)
  moreover have "byte_step ?b (word_of_nat x) = (?c, [], False)"
    by (simp add: byte_step_def header_byte_def block_complete_def Let_def or_be2 [OF x])
  moreover have "byte_step ?c (word_of_nat (y div 256)) = (?d, [], False)"
    by (simp add: byte_step_def header_byte_def block_complete_def Let_def)
  moreover have "byte_step ?d (word_of_nat y) =
      (if x = 0 \<and> y = 0 then (if cmd = 0 then (dir'\<lparr>remaining_command := 5\<rparr>, [], False)
         else (reset_dir dir', [], True)) else (dir', [], False))"
    by (simp add: d byte_step_def header_byte_def block_complete_def Let_def or_be2 [OF y] uint_0_iff)
  ultimately show ?thesis
    by (auto simp: after_frame_def d uint_0_iff split: prod.splits)
qed

text \<open>A whole frame: its content comes out, whatever the padding.\<close>

lemma unpad_bytes_frame:
  assumes rc: "remaining_command dir = 5" and c: "length content < 65536" and p: "length padding < 65536"
  shows "unpad_bytes dir (enframe cmd content padding @ rest) =
    (case after_frame (dir\<lparr>current_command := uint cmd\<rparr>) rest of (out, d) \<Rightarrow> (content @ out, d))"
proof -
  let ?dir' = "dir\<lparr>current_command := uint cmd, remaining_content := int (length content),
    remaining_padding := int (length padding), remaining_command := 0\<rparr>"
  have "unpad_bytes dir (enframe cmd content padding @ rest) =
    (if length content = 0 \<and> length padding = 0
     then after_frame ?dir' (content @ padding @ rest) else unpad_bytes ?dir' (content @ padding @ rest))"
    using unpad_bytes_header [OF rc c p refl, of cmd] by (simp add: enframe_def del: be_numeral)
  then show ?thesis
    by (cases "content = [] \<and> padding = []")
      (auto simp: unpad_bytes_body split: prod.splits)
qed

text \<open>A stream of continuation frames.\<close>

definition continue_frames :: "(bytes \<times> bytes) list \<Rightarrow> bytes" where
  "continue_frames fs = concat (map (\<lambda>(c, p). enframe CMD_PADDING_CONTINUE c p) fs)"

definition frames_fit :: "(bytes \<times> bytes) list \<Rightarrow> bool" where
  "frames_fit fs = list_all (\<lambda>(c, p). length c < 65536 \<and> length p < 65536) fs"

lemma unpad_bytes_frames:
  assumes "remaining_command dir = 5" and "frames_fit fs"
  shows "\<exists>d. unpad_bytes dir (continue_frames fs) = (concat (map fst fs), d)
    \<and> remaining_command d = 5 \<and> (current_command dir = 0 \<or> fs \<noteq> [] \<longrightarrow> current_command d = 0)"
  using assms
proof (induction fs arbitrary: dir)
  case Nil
  then show ?case by (simp add: continue_frames_def)
next
  case (Cons f fs)
  obtain c p where f: "f = (c, p)" by force
  let ?d = "dir\<lparr>current_command := 0, remaining_content := 0, remaining_padding := 0, remaining_command := 5\<rparr>"
  have "\<exists>d. unpad_bytes ?d (continue_frames fs) = (concat (map fst fs), d)
      \<and> remaining_command d = 5 \<and> (current_command ?d = 0 \<or> fs \<noteq> [] \<longrightarrow> current_command d = 0)"
    using Cons.prems by (intro Cons.IH) (auto simp: frames_fit_def)
  moreover have "unpad_bytes dir (continue_frames (f # fs)) =
      (case unpad_bytes ?d (continue_frames fs) of (out, d) \<Rightarrow> (c @ out, d))"
    using Cons.prems unpad_bytes_frame [of dir c p 0 "continue_frames fs"]
    by (simp add: f continue_frames_def frames_fit_def after_frame_def CMD_PADDING_CONTINUE_def)
  ultimately show ?case by (auto simp: f)
qed

section \<open>Fragmentation\<close>

text \<open>Feeding a direction chunk by chunk.\<close>

fun feed_dir :: "bytes \<Rightarrow> DirectionState \<Rightarrow> bytes list \<Rightarrow> bytes \<times> DirectionState" where
  "feed_dir uuid dir [] = ([], dir)"
| "feed_dir uuid dir (c # cs) =
     (case unpad_dir uuid c dir of (out, d) \<Rightarrow>
        case feed_dir uuid d cs of (out', d') \<Rightarrow> (out @ out', d'))"

fun unpad_chunks :: "TrafficState \<Rightarrow> bool \<Rightarrow> bytes list \<Rightarrow> bytes \<times> TrafficState" where
  "unpad_chunks st up [] = ([], st)"
| "unpad_chunks st up (c # cs) =
     (case xtls_unpadding c st up of (out, st1) \<Rightarrow>
        case unpad_chunks st1 up cs of (out', st2) \<Rightarrow> (out @ out', st2))"

lemma get_set_dir [simp]: "get_dir (set_dir st up d) up = d"
  by (simp add: get_dir_def set_dir_def)

lemma ts_user_uuid_set_dir [simp]: "ts_user_uuid (set_dir st up d) = ts_user_uuid st"
  by (simp add: set_dir_def)

lemma unpad_chunks_feed:
  "fst (unpad_chunks st up cs) = fst (feed_dir (ts_user_uuid st) (get_dir st up) cs)"
  by (induction cs arbitrary: st) (auto simp: xtls_unpadding_def split: prod.splits, metis fst_conv get_set_dir ts_user_uuid_set_dir)

lemma unpad_dir_active:
  "\<not> block_complete dir \<Longrightarrow> unpad_dir uuid buf dir = unpad_bytes dir buf"
  by (auto simp: unpad_dir_def unpadding_loop_bytes block_complete_def)

lemma feed_dir_active:
  "\<not> block_complete dir \<Longrightarrow> \<not> block_complete (snd (unpad_bytes dir (concat cs))) \<Longrightarrow>
     feed_dir uuid dir cs = unpad_bytes dir (concat cs)"
proof (induction cs arbitrary: dir)
  case Nil
  then show ?case by simp
next
  case (Cons c cs)
  obtain out d where od: "unpad_bytes dir c = (out, d)" by force
  have app: "unpad_bytes dir (c @ concat cs) =
      (if c \<noteq> [] \<and> block_complete d then (out @ concat cs, d)
       else (case unpad_bytes d (concat cs) of (out', d') \<Rightarrow> (out @ out', d')))"
    using unpad_bytes_append [of dir c "concat cs"] od by simp
  have act: "\<not> block_complete d"
  proof (cases "c = []")
    case True
    with od Cons.prems(1) show ?thesis by simp
  next
    case False
    with app Cons.prems(2) show ?thesis by (auto split: if_splits)
  qed
  have "\<not> block_complete (snd (unpad_bytes d (concat cs)))"
    using Cons.prems(2) app act by (simp split: prod.splits)
  then have "feed_dir uuid d cs = unpad_bytes d (concat cs)"
    by (rule Cons.IH [OF act])
  then show ?case
    using od app act by (simp add: unpad_dir_active [OF Cons.prems(1)])
qed

text \<open>The UUID may itself arrive in pieces.\<close>

definition dir_initial :: "DirectionState \<Rightarrow> bool" where
  "dir_initial dir \<longleftrightarrow> remaining_command dir = -1 \<and> remaining_content dir = -1
     \<and> remaining_padding dir = -1"

lemma zip_prefix_matches:
  "ib @ zs = uuid @ rest \<Longrightarrow> \<not> (\<exists>(got, expected) \<in> set (zip ib uuid). got \<noteq> expected)"
proof (induction ib arbitrary: uuid)
  case Nil
  then show ?case by simp
next
  case (Cons x ib)
  then show ?case by (cases uuid) fastforce+
qed

lemma unpad_dir_initial:
  assumes "dir_initial dir" and "length uuid = 16" and "(initial_buffer dir @ c) @ zs = uuid @ rest"
    and "length (initial_buffer dir) < 21"
  shows "unpad_dir uuid c dir =
    (if length (initial_buffer dir @ c) < 21 then ([], dir\<lparr>initial_buffer := initial_buffer dir @ c\<rparr>)
     else unpad_bytes (dir\<lparr>initial_buffer := [], remaining_command := 5\<rparr>) (drop 16 (initial_buffer dir @ c)))"
proof -
  let ?d = "dir\<lparr>initial_buffer := [], remaining_command := 5\<rparr>"
  have loop: "unpadding_loop bs ?d [] = unpad_bytes ?d bs" for bs
    by (subst unpadding_loop_bytes) (simp_all add: block_complete_def)
  have nomis: "\<not> (\<exists>(got, expected) \<in> set (zip (initial_buffer dir @ c) uuid). got \<noteq> expected)"
    using zip_prefix_matches [OF assms(3)] .
  have pre: "uuid = take 16 c" if "initial_buffer dir = []" "length c \<ge> 21"
  proof -
    have "take 16 (c @ zs) = take 16 (uuid @ rest)" using assms(3) that by simp
    then show ?thesis using that assms(2) by simp
  qed
  have same: "dir\<lparr>remaining_command := 5\<rparr> = ?d" if "initial_buffer dir = []"
    using that by (cases dir) simp
  show ?thesis
  proof (cases "initial_buffer dir \<noteq> [] \<or> length c < 21")
    case True
    then show ?thesis
      using assms(1) nomis loop by (simp add: unpad_dir_def dir_initial_def Let_def del: append_assoc)
  next
    case False
    then have "unpadding_loop (drop 16 c) (dir\<lparr>remaining_command := 5\<rparr>) [] = unpad_bytes ?d (drop 16 c)"
      using same loop by metis
    with False show ?thesis
      using assms(1) pre by (simp add: unpad_dir_def dir_initial_def)
  qed
qed

lemma feed_dir_initial:
  assumes "dir_initial dir" and "length uuid = 16"
    and "initial_buffer dir @ concat cs = uuid @ rest" and "length rest \<ge> 5"
    and "length (initial_buffer dir) < 21"
    and "\<not> block_complete (snd (unpad_bytes (dir\<lparr>initial_buffer := [], remaining_command := 5\<rparr>) rest))"
  shows "feed_dir uuid dir cs = unpad_bytes (dir\<lparr>initial_buffer := [], remaining_command := 5\<rparr>) rest"
  using assms
proof (induction cs arbitrary: dir)
  case Nil
  then have "length (initial_buffer dir) = 16 + length rest"
    using arg_cong [OF Nil.prems(3), of length] by simp
  with Nil.prems show ?case by simp
next
  case (Cons c cs)
  let ?ib = "initial_buffer dir @ c"
  let ?d = "dir\<lparr>initial_buffer := [], remaining_command := 5\<rparr>"
  have eq: "?ib @ concat cs = uuid @ rest" using Cons.prems(3) by simp
  note ui = unpad_dir_initial [OF Cons.prems(1,2) eq Cons.prems(5)]
  show ?case
  proof (cases "length ?ib < 21")
    case True
    have "feed_dir uuid (dir\<lparr>initial_buffer := ?ib\<rparr>) cs =
        unpad_bytes (dir\<lparr>initial_buffer := ?ib, initial_buffer := [], remaining_command := 5\<rparr>) rest"
      using Cons.prems True eq by (intro Cons.IH) (auto simp: dir_initial_def)
    then show ?thesis using True ui by (simp split: prod.splits)
  next
    case False
    have r: "rest = drop 16 ?ib @ concat cs"
      using arg_cong [OF eq, of "drop 16"] Cons.prems(2) False by simp
    have act: "\<not> block_complete ?d" by (simp add: block_complete_def)
    have "feed_dir uuid ?d (drop 16 ?ib # cs) = unpad_bytes ?d (concat (drop 16 ?ib # cs))"
      using Cons.prems(6) r by (intro feed_dir_active [OF act]) simp
    then show ?thesis
      using False ui unpad_dir_active [OF act] r by simp
  qed
qed

section \<open>What the reader delivers\<close>

text \<open>Reading until end of file, as the relay loop does.\<close>

lemma vision_read_shorter:
  "vision_read n r src = (Inr out, r', src') \<Longrightarrow> out \<noteq> [] \<Longrightarrow> length src' < length src"
  by (induction n r src rule: vision_read.induct) (fastforce split: if_splits prod.splits)+

function read_to_end :: "nat \<Rightarrow> VisionReader \<Rightarrow> (io_error + bytes) list \<Rightarrow> bytes" where
  "read_to_end n r src =
     (case vision_read n r src of
        (Inl e, r', src') \<Rightarrow> []
      | (Inr out, r', src') \<Rightarrow> if out = [] then [] else out @ read_to_end n r' src')"
  by pat_completeness auto
termination
  by (relation "measure (\<lambda>(n, r, src). length src)") (auto dest: sym dest!: vision_read_shorter)

declare read_to_end.simps [simp del]

text \<open>
  A stream is quiet for a reader with an \<open>n\<close>-byte buffer when every chunk leaves the direction
  with a continuation command and yields no more than the buffer holds.
\<close>

fun quiet :: "nat \<Rightarrow> bytes \<Rightarrow> DirectionState \<Rightarrow> bytes list \<Rightarrow> bool" where
  "quiet n uuid dir [] = True"
| "quiet n uuid dir (c # cs) =
     (c \<noteq> [] \<and> (case unpad_dir uuid c dir of (out, d) \<Rightarrow>
        length out \<le> n \<and> current_command d = 0 \<and> quiet n uuid d cs))"

lemma filter_hello_frame:
  "inbound (filter_hello buf st) = inbound st \<and> outbound (filter_hello buf st) = outbound st
     \<and> ts_user_uuid (filter_hello buf st) = ts_user_uuid st"
  by (cases st) (simp only: filter_hello_def Let_def TrafficState.update_convs
      TrafficState.select_convs simp_thms split: if_split)

lemma filter_versions_frame:
  "inbound (filter_versions buf st) = inbound st \<and> outbound (filter_versions buf st) = outbound st
     \<and> ts_user_uuid (filter_versions buf st) = ts_user_uuid st"
  by (cases st) (simp only: filter_versions_def Let_def TrafficState.update_convs
      TrafficState.select_convs simp_thms split: if_split)

lemma filter_tls_frame [simp]:
  "get_dir (xtls_filter_tls buf st) up = get_dir st up"
  "ts_user_uuid (xtls_filter_tls buf st) = ts_user_uuid st"
  by (simp_all add: xtls_filter_tls_def filter_versions_frame filter_hello_frame get_dir_def Let_def)

lemma consume_within:
  "within_padding_buffers (fst (snd (consume buf dir out))) = within_padding_buffers dir"
  by (simp add: consume_def header_byte_def Let_def)

lemma unpadding_loop_within:
  "within_padding_buffers (snd (unpadding_loop buf dir out)) = within_padding_buffers dir"
proof (induction buf dir out rule: unpadding_loop.induct)
  case (1 buf dir out)
  obtain buf' dir' out' where c: "consume buf dir out = (buf', dir', out')"
    by (metis prod_cases3)
  then have "within_padding_buffers dir' = within_padding_buffers dir"
    using consume_within [of buf dir out] by simp
  then show ?case
    using 1 c by (simp add: unpadding_loop.simps [of buf] reset_dir_def)
qed

lemma unpad_dir_within:
  "within_padding_buffers (snd (unpad_dir uuid c dir)) = within_padding_buffers dir"
  by (simp add: unpad_dir_def Let_def unpadding_loop_within)

lemma reader_chunk_quiet:
  assumes "unpad_dir (ts_user_uuid (vr_state r)) c (get_dir (vr_state r) (vr_is_uplink r)) = (out, d)"
    and "after_unpad d = (d, False)" and "reader_chunk r c = (o1, r1)"
  shows "o1 = out" and "vr_direct r1 = vr_direct r" and "vr_is_uplink r1 = vr_is_uplink r"
    and "get_dir (vr_state r1) (vr_is_uplink r1) = d"
    and "ts_user_uuid (vr_state r1) = ts_user_uuid (vr_state r)"
proof -
  define st where "st = set_dir (set_dir (vr_state r) (vr_is_uplink r) d) (vr_is_uplink r) d"
  define st' where "st' = (if number_of_packet_to_filter st > 0 then xtls_filter_tls out st else st)"
  have "(o1, r1) = (out, r\<lparr>vr_state := st', vr_direct := vr_direct r \<or> False\<rparr>)"
    using assms(3) unfolding reader_chunk_def xtls_unpadding_def assms(1) Let_def st'_def st_def
    by (auto simp: assms(2) split del: if_split)
  then have r1: "o1 = out" "r1 = r\<lparr>vr_state := st'\<rparr>" by simp_all
  have g: "get_dir st' (vr_is_uplink r) = d" "ts_user_uuid st' = ts_user_uuid (vr_state r)"
    by (simp_all add: st'_def st_def)
  show "o1 = out" "vr_direct r1 = vr_direct r" "vr_is_uplink r1 = vr_is_uplink r"
    "get_dir (vr_state r1) (vr_is_uplink r1) = d"
    "ts_user_uuid (vr_state r1) = ts_user_uuid (vr_state r)"
    using r1 g by simp_all
qed

lemma read_to_end_feed:
  assumes "quiet n uuid dir cs" and "0 < n" and "\<not> vr_direct r"
    and "get_dir (vr_state r) (vr_is_uplink r) = dir" and "ts_user_uuid (vr_state r) = uuid"
    and "within_padding_buffers dir"
  shows "read_to_end n r (map Inr cs) = fst (feed_dir uuid dir cs)"
  using assms
proof (induction cs arbitrary: r dir)
  case Nil
  then show ?case by (simp add: read_to_end.simps)
next
  case (Cons c cs)
  obtain out d where od: "unpad_dir uuid c dir = (out, d)" by force
  obtain o1 r1 where or1: "reader_chunk r c = (o1, r1)" by force
  have w: "within_padding_buffers d" using unpad_dir_within [of uuid c dir] od Cons.prems(6) by simp
  have q: "length out \<le> n" "current_command d = 0" "quiet n uuid d cs" "c \<noteq> []"
    using Cons.prems(1) od by auto
  have au: "after_unpad d = (d, False)"
    using w q(2) by (cases d) (simp add: after_unpad_def)
  have r1: "o1 = out" "\<not> vr_direct r1" "vr_is_uplink r1 = vr_is_uplink r"
      "get_dir (vr_state r1) (vr_is_uplink r1) = d" "ts_user_uuid (vr_state r1) = uuid"
    using reader_chunk_quiet [OF _ au or1] od Cons.prems(3,4,5) by simp_all
  have IH: "read_to_end n r1 (map Inr cs) = fst (feed_dir uuid d cs)"
    using q(3) Cons.prems(2) r1 w by (intro Cons.IH)
  have vr: "vision_read n r (map Inr (c # cs)) =
      (if out = [] then vision_read n r1 (map Inr cs) else (Inr out, r1, map Inr cs))"
    using or1 r1(1) Cons.prems q by simp
  show ?case
  proof (cases "out = []")
    case True
    then have "read_to_end n r (map Inr (c # cs)) = read_to_end n r1 (map Inr cs)"
      unfolding read_to_end.simps [of n r "map Inr (c # cs)"] read_to_end.simps [of n r1 "map Inr cs"] vr
      by (simp only: if_True simp_thms)
    with IH od True show ?thesis by (simp split: prod.splits)
  next
    case False
    then have "read_to_end n r (map Inr (c # cs)) = out @ read_to_end n r1 (map Inr cs)"
      unfolding read_to_end.simps [of n r "map Inr (c # cs)"] vr by simp
    with IH od show ?thesis by (simp split: prod.splits)
  qed
qed


text \<open>A command other than continue stays until the frame it announced ends the padded part.\<close>

definition in_frames :: "DirectionState \<Rightarrow> bool" where
  "in_frames d \<longleftrightarrow> \<not> block_complete d \<and> remaining_command d \<le> 5
     \<and> (remaining_command d = 5 \<longrightarrow> current_command d = 0)"

lemma byte_step_in_frames:
  "byte_step d b = (d', out, False) \<Longrightarrow> in_frames d \<Longrightarrow> in_frames d'"
  by (auto simp: byte_step_def in_frames_def block_complete_def header_byte_def Let_def
      split: if_splits prod.splits)

lemma byte_step_command:
  "byte_step d b = (d', out, e) \<Longrightarrow> in_frames d \<Longrightarrow> current_command d \<noteq> 0 \<or> e \<Longrightarrow> current_command d' \<noteq> 0"
  by (auto simp: byte_step_def in_frames_def block_complete_def header_byte_def reset_dir_def Let_def
      split: if_splits prod.splits)

lemma command_persists:
  "in_frames d \<Longrightarrow> current_command d \<noteq> 0 \<Longrightarrow> current_command (snd (unpad_bytes d bs)) \<noteq> 0"
proof (induction bs arbitrary: d)
  case (Cons b bs)
  obtain d' out e where s: "byte_step d b = (d', out, e)" by (cases "byte_step d b")
  show ?case
    using byte_step_command [OF s Cons.prems(1)] byte_step_in_frames [of d b d' out] Cons s
    by (auto simp: case_prod_beta)
qed simp

lemma byte_step_ended: "byte_step d b = (d', out, True) \<Longrightarrow> block_complete d'"
  by (auto simp: byte_step_def Let_def block_complete_def reset_dir_def split: prod.splits if_splits)

lemma in_frames_prefix:
  "in_frames d \<Longrightarrow> in_frames (snd (unpad_bytes d bs)) \<or>
     (block_complete (snd (unpad_bytes d bs)) \<and> current_command (snd (unpad_bytes d bs)) \<noteq> 0)"
proof (induction bs arbitrary: d)
  case (Cons b bs)
  obtain d' out e where s: "byte_step d b = (d', out, e)" by (cases "byte_step d b")
  show ?case
    using byte_step_ended [of d b d' out] byte_step_command [OF s Cons.prems(1)] byte_step_in_frames [of d b d' out] Cons s
    by (auto simp: case_prod_beta)
qed simp

lemma byte_step_output: "byte_step d b = (d', out, e) \<Longrightarrow> length out \<le> 1"
  by (auto simp: byte_step_def Let_def split: if_splits)

lemma unpad_bytes_length: "length (fst (unpad_bytes d bs)) \<le> length bs"
proof (induction bs arbitrary: d)
  case (Cons b bs)
  obtain d' out e where s: "byte_step d b = (d', out, e)" by (cases "byte_step d b")
  show ?case using byte_step_output [OF s] Cons [of d'] s by (simp add: case_prod_beta)
qed simp

text \<open>Header bytes are not output.\<close>

lemma unpad_bytes_length_header:
  "remaining_command d = int k \<Longrightarrow> length (fst (unpad_bytes d bs)) \<le> length bs - k"
proof (induction bs arbitrary: d k)
  case (Cons b bs)
  obtain d' out e where s: "byte_step d b = (d', out, e)" by (cases "byte_step d b")
  show ?case
  proof (cases k)
    case 0
    then show ?thesis using unpad_bytes_length [of d "b # bs"] by simp
  next
    case (Suc j)
    then have "out = []" and "(e \<longrightarrow> j = 0) \<and> (\<not> e \<longrightarrow> remaining_command d' = int j \<or> j = 0)"
      using s Cons.prems
      by (auto simp: byte_step_def header_byte_def block_complete_def Let_def split: if_splits)
    then show ?thesis
      using s Suc Cons.IH [of d' j] unpad_bytes_length [of d' bs] by (auto simp: case_prod_beta)
  qed
qed simp


lemma quiet_active:
  assumes "in_frames d" and "current_command (snd (unpad_bytes d (concat cs))) = 0"
    and "\<forall>c \<in> set cs. c \<noteq> [] \<and> length c \<le> n"
  shows "quiet n uuid d cs"
  using assms
proof (induction cs arbitrary: d)
  case (Cons c cs)
  obtain out d' where od: "unpad_bytes d c = (out, d')" by force
  have app: "snd (unpad_bytes d (concat (c # cs))) =
      (if c \<noteq> [] \<and> block_complete d' then d' else snd (unpad_bytes d' (concat cs)))"
    using unpad_bytes_append [of d c "concat cs"] od by (simp split: prod.splits)
  have inf: "in_frames d' \<or> (block_complete d' \<and> current_command d' \<noteq> 0)"
    using in_frames_prefix [OF Cons.prems(1), of c] od by simp
  have act: "in_frames d'"
    using inf app Cons.prems(2,3) by (auto split: if_splits)
  then have cc: "current_command (snd (unpad_bytes d' (concat cs))) = 0"
    using app Cons.prems(2) by (simp add: in_frames_def)
  have "current_command d' = 0" using command_persists act cc by blast
  moreover have "length out \<le> n"
    using unpad_bytes_length [of d c] od Cons.prems(3) by simp
  moreover have "quiet n uuid d' cs"
    using act cc Cons.prems(3) by (intro Cons.IH) auto
  ultimately show ?case
    using Cons.prems(1,3) od by (simp add: unpad_dir_active in_frames_def)
qed simp


lemma quiet_initial:
  assumes "dir_initial dir" and "length uuid = 16"
    and "initial_buffer dir @ concat cs = uuid @ rest"
    and "length (initial_buffer dir) < 21" and "current_command dir = 0"
    and "current_command (snd (unpad_bytes (dir\<lparr>initial_buffer := [], remaining_command := 5\<rparr>) rest)) = 0"
    and "\<forall>c \<in> set cs. c \<noteq> [] \<and> length c \<le> n"
  shows "quiet n uuid dir cs"
  using assms
proof (induction cs arbitrary: dir)
  case (Cons c cs)
  let ?ib = "initial_buffer dir @ c"
  let ?d = "dir\<lparr>initial_buffer := [], remaining_command := 5\<rparr>"
  have eq: "?ib @ concat cs = uuid @ rest" using Cons.prems(3) by simp
  note ui = unpad_dir_initial [OF Cons.prems(1,2) eq Cons.prems(4)]
  show ?case
  proof (cases "length ?ib < 21")
    case True
    have "quiet n uuid (dir\<lparr>initial_buffer := ?ib\<rparr>) cs"
      using Cons.prems True eq by (intro Cons.IH) (auto simp: dir_initial_def)
    then show ?thesis using True ui Cons.prems(5,7) by simp
  next
    case False
    have r: "rest = drop 16 ?ib @ concat cs"
      using arg_cong [OF eq, of "drop 16"] Cons.prems(2) False by simp
    define m where "m = max n (length (drop 16 ?ib))"
    have inf: "in_frames ?d" using Cons.prems(5) by (simp add: in_frames_def block_complete_def)
    have q: "quiet m uuid ?d (drop 16 ?ib # cs)"
      using Cons.prems(6,7) False by (intro quiet_active [OF inf]) (auto simp: r m_def le_max_iff_disj)
    obtain out d where od: "unpad_bytes ?d (drop 16 ?ib) = (out, d)" by force
    have ud: "unpad_dir uuid (drop 16 ?ib) ?d = (out, d)"
      using od inf by (simp add: unpad_dir_active in_frames_def)
    have cc: "current_command d = 0" using q ud by simp
    have "in_frames d" using in_frames_prefix [OF inf, of "drop 16 ?ib"] od cc by simp
    moreover have "current_command (snd (unpad_bytes d (concat cs))) = 0"
      using Cons.prems(6) \<open>in_frames d\<close> od unpad_bytes_append [of ?d "drop 16 ?ib" "concat cs"] r
      by (simp add: in_frames_def case_prod_beta)
    ultimately have "quiet n uuid d cs" using Cons.prems(7) by (intro quiet_active) auto
    moreover have "length out \<le> n"
    proof -
      have "length out \<le> length ?ib - 21"
        using unpad_bytes_length_header [of ?d 5 "drop 16 ?ib"] od by simp
      also have "\<dots> \<le> length c" using Cons.prems(4) by simp
      finally show ?thesis using Cons.prems(7) by (meson le_trans list.set_intros(1))
    qed
    ultimately show ?thesis using False ui od cc Cons.prems(7) by simp
  qed
qed simp

section \<open>What the writer sends\<close>

text \<open>
  The bounds under which a frame is well formed: \<open>gen_range(0..n)\<close> is below \<open>n\<close>, and the seeds are
  positive and small enough for the \<open>i32\<close> arithmetic.
\<close>

definition rng_ok :: "(u32 \<Rightarrow> u32) \<Rightarrow> bool" where
  "rng_ok rng \<longleftrightarrow> (\<forall>n. 0 < n \<longrightarrow> rng n < n)"

definition seeds_ok :: "u32 list \<Rightarrow> bool" where
  "seeds_ok ts \<longleftrightarrow> length ts \<ge> 4 \<longrightarrow> list_all (\<lambda>s. 0 < s \<and> s < 0x40000000) (take 4 ts)"

lemma sint_u32_nonneg: "(x::u32) < 0x40000000 \<Longrightarrow> 0 \<le> sint x"
  by (simp add: sint_uint word_less_def signed_take_bit_eq_if_positive bit_uint_iff bit_iff_odd)

lemma u16_be_of_nat: "n < 65536 \<Longrightarrow> u16_be (word_of_nat n) = be 2 n"
  by (simp add: u16_be_def unat_of_nat del: be_numeral)

lemma padding_length_nonneg:
  assumes "rng_ok rng" and "ts \<noteq> []" and "3 < length ts" and "0 < ts ! 3" and "ts ! 3 < 0x40000000"
  shows "0 \<le> padding_length rng n lp ts"
proof -
  have "rng (ts ! 3) < 0x40000000"
    using assms by (auto simp: rng_ok_def intro: order_less_trans)
  then show ?thesis by (simp add: padding_length_def sint_u32_nonneg)
qed

definition uuid_prefix :: "bytes option \<Rightarrow> bytes" where
  "uuid_prefix uu = (case uu of None \<Rightarrow> [] | Some uuid \<Rightarrow> uuid)"

lemma xtls_padding_frame:
  assumes "rng_ok rng" and "seeds_ok ts" and "length buf \<le> 65515"
  shows "\<exists>pad. xtls_padding rng fill buf cmd uu lp ts = (uuid_prefix uu @ enframe cmd buf pad, None)
    \<and> length buf + length pad \<le> 65515"
proof -
  define ts' where "ts' = (if length ts < 4 then [900, 500, 900, 256] else ts)"
  have "3 < length ts' \<and> 0 < ts' ! 3 \<and> ts' ! 3 < 0x40000000"
    using assms(2) by (auto simp: ts'_def seeds_ok_def list_all_length nth_append)
  then have nn: "0 \<le> padding_length rng (int (length buf)) lp ts'"
    using assms(1) by (intro padding_length_nonneg) auto
  define p where "p = nat (min (padding_length rng (int (length buf)) lp ts') (65515 - int (length buf)))"
  have p: "int p = min (padding_length rng (int (length buf)) lp ts') (65515 - int (length buf))"
    "length buf + p \<le> 65515"
    using nn assms(3) by (auto simp: p_def)
  have "xtls_padding rng fill buf cmd uu lp ts =
      (uuid_prefix uu @ enframe cmd buf (map fill [0..<p]), None)"
    using p assms(3) unfolding xtls_padding_def Let_def ts'_def [symmetric] enframe_def uuid_prefix_def
    by (simp add: p(1) [symmetric] u16_be_of_nat del: be_numeral)
  then show ?thesis using p(2) by force
qed


text \<open>A sequence of writes, each with the random choices it draws.\<close>

fun vision_writes ::
  "VisionWriter \<Rightarrow> ((u32 \<Rightarrow> u32) \<times> (nat \<Rightarrow> u8) \<times> bytes) list \<Rightarrow> VisionWriter \<times> bytes" where
  "vision_writes w [] = (w, [])"
| "vision_writes w ((rng, fill, buf) # ws) =
     (case vision_write rng fill w buf of (w1, sent, n) \<Rightarrow>
        case vision_writes w1 ws of (w2, sent') \<Rightarrow> (w2, sent @ sent'))"

text \<open>A writer that is still padding, and a write that keeps it so.\<close>

definition writer_padding :: "VisionWriter \<Rightarrow> bool" where
  "writer_padding w \<longleftrightarrow> \<not> vw_direct w \<and> is_padding (writer_dir w) \<and> seeds_ok (vw_testseed w)"

definition keeps_padding :: "(u32 \<Rightarrow> u32) \<times> (nat \<Rightarrow> u8) \<times> bytes \<Rightarrow> bool" where
  "keeps_padding x \<longleftrightarrow> (case x of (rng, fill, buf) \<Rightarrow>
     rng_ok rng \<and> buf \<noteq> [] \<and> length buf \<le> 65515
     \<and> \<not> (length buf \<ge> 6 \<and> take 3 buf = [0x17, 0x03, 0x03] \<and> is_complete_record buf))"

lemma writer_dir_filter [simp]:
  "writer_dir (w\<lparr>vw_state := xtls_filter_tls buf (vw_state w)\<rparr>) = writer_dir w"
  by (simp add: writer_dir_def)

lemma vision_write_padding:
  assumes "writer_padding w" and "keeps_padding (rng, fill, buf)"
  shows "\<exists>w' pad. vision_write rng fill w buf =
      (w', uuid_prefix (vw_user_uuid w) @ enframe CMD_PADDING_CONTINUE buf pad, length buf)
    \<and> writer_padding w' \<and> vw_user_uuid w' = None \<and> length buf + length pad \<le> 65515"
proof -
  define w1 where "w1 = (if number_of_packet_to_filter (vw_state w) > 0
    then w\<lparr>vw_state := xtls_filter_tls buf (vw_state w)\<rparr> else w)"
  have w1: "writer_dir w1 = writer_dir w" "vw_direct w1 = vw_direct w"
    "vw_testseed w1 = vw_testseed w" "vw_user_uuid w1 = vw_user_uuid w"
    by (simp_all add: w1_def)
  have wp: "\<not> vw_direct w" "is_padding (writer_dir w)" "seeds_ok (vw_testseed w)"
    using assms(1) by (simp_all add: writer_padding_def)
  have kp: "rng_ok rng" "buf \<noteq> []" "length buf \<le> 65515"
    "\<not> (is_tls (vw_state w1) \<and> length buf \<ge> 6 \<and> take 3 buf = [0x17, 0x03, 0x03]
        \<and> is_complete_record buf)"
    using assms(2) by (auto simp: keeps_padding_def)
  obtain pad where pad: "xtls_padding rng fill buf CMD_PADDING_CONTINUE (vw_user_uuid w)
      (is_tls (vw_state w1)) (vw_testseed w) =
      (uuid_prefix (vw_user_uuid w) @ enframe CMD_PADDING_CONTINUE buf pad, None)"
    "length buf + length pad \<le> 65515"
    using xtls_padding_frame [OF kp(1) wp(3) kp(3)] by blast
  have "vision_write rng fill w buf =
      (w1\<lparr>vw_user_uuid := None\<rparr>, uuid_prefix (vw_user_uuid w) @ enframe CMD_PADDING_CONTINUE buf pad, length buf)"
    unfolding vision_write_def Let_def w1_def [symmetric] if_not_P [OF kp(4)]
    using wp w1 kp(2) pad(1) by simp
  moreover have "writer_padding (w1\<lparr>vw_user_uuid := None\<rparr>)"
    using wp w1 by (simp add: writer_padding_def writer_dir_def)
  ultimately show ?thesis using pad(2) by force
qed

lemma vision_writes_padding:
  assumes "writer_padding w" and "list_all keeps_padding ws" and "ws \<noteq> []"
  shows "\<exists>w' fs. vision_writes w ws = (w', uuid_prefix (vw_user_uuid w) @ continue_frames fs)
    \<and> frames_fit fs \<and> map fst fs = map (snd \<circ> snd) ws \<and> writer_padding w'"
  using assms
proof (induction ws arbitrary: w)
  case (Cons x ws)
  obtain rng fill buf where x: "x = (rng, fill, buf)" by (cases x)
  obtain w1 pad where w1: "vision_write rng fill w buf =
      (w1, uuid_prefix (vw_user_uuid w) @ enframe CMD_PADDING_CONTINUE buf pad, length buf)"
      "writer_padding w1" "vw_user_uuid w1 = None" "length buf + length pad \<le> 65515"
    using vision_write_padding [OF Cons.prems(1), of rng fill buf] Cons.prems(2) x by auto
  show ?case
  proof (cases "ws = []")
    case True
    then show ?thesis
      using w1 by (intro exI [of _ w1] exI [of _ "[(buf, pad)]"])
        (simp add: x continue_frames_def frames_fit_def)
  next
    case False
    then obtain w2 fs where "vision_writes w1 ws = (w2, continue_frames fs)" "frames_fit fs"
        "map fst fs = map (snd \<circ> snd) ws" "writer_padding w2"
      using Cons.IH [OF w1(2)] Cons.prems(2) w1(3) by (auto simp: uuid_prefix_def)
    then show ?thesis
      using w1 by (intro exI [of _ w2] exI [of _ "(buf, pad) # fs"])
        (simp add: x continue_frames_def frames_fit_def)
  qed
qed simp

lemma reader_delivers:
  assumes "length uuid = 16" and "frames_fit fs" and "fs \<noteq> []"
    and "concat pieces = uuid @ continue_frames fs"
    and "\<forall>c \<in> set pieces. c \<noteq> [] \<and> length c \<le> buf_len" and "0 < buf_len"
  shows "read_to_end buf_len (VisionReader_new (TrafficState_new uuid) up) (map Inr pieces)
    = concat (map fst fs)"
proof -
  let ?d = "direction_new\<lparr>initial_buffer := [], remaining_command := 5\<rparr>"
  have init: "dir_initial direction_new" "initial_buffer direction_new = []"
    "current_command direction_new = 0" "within_padding_buffers direction_new"
    by (simp_all add: dir_initial_def direction_new_def)
  obtain d where d: "unpad_bytes ?d (continue_frames fs) = (concat (map fst fs), d)"
    "remaining_command d = 5" "current_command d = 0"
    using unpad_bytes_frames [of ?d fs] assms(2,3) by auto
  have len: "length (continue_frames fs) \<ge> 5"
    using assms(3) by (cases fs) (auto simp: continue_frames_def enframe_def)
  have q: "quiet buf_len uuid direction_new pieces"
    using assms d init by (intro quiet_initial [where rest = "continue_frames fs"]) simp_all
  have "feed_dir uuid direction_new pieces = unpad_bytes ?d (continue_frames fs)"
    using assms d init len by (intro feed_dir_initial) (simp_all add: block_complete_def)
  moreover have "get_dir (TrafficState_new uuid) up = direction_new"
    "ts_user_uuid (TrafficState_new uuid) = uuid"
    using assms(1) by (simp_all add: get_dir_def TrafficState_new_def Let_def)
  ultimately show ?thesis
    using read_to_end_feed [OF q assms(6), of "VisionReader_new (TrafficState_new uuid) up"] init d
    by (simp add: VisionReader_new_def)
qed


text \<open>
  C2: the Vision tunnel is transparent. Whatever a padding writer sends for a sequence of
  writes, none of which is a complete TLS application-data record, and however the transport cuts
  the bytes sent into reads of at most \<open>buf_len\<close> bytes, the reader of the same user delivers
  exactly the bytes that were written, in order.
\<close>

theorem vision_end_to_end:
  assumes "length uuid = 16" and "list_all keeps_padding ws" and "ws \<noteq> []" and "seeds_ok seeds"
    and "concat pieces = snd (vision_writes (VisionWriter_new (TrafficState_new uuid) up seeds) ws)"
    and "\<forall>c \<in> set pieces. c \<noteq> [] \<and> length c \<le> buf_len" and "0 < buf_len"
  shows "read_to_end buf_len (VisionReader_new (TrafficState_new uuid) up') (map Inr pieces)
    = concat (map (snd \<circ> snd) ws)"
proof -
  let ?w = "VisionWriter_new (TrafficState_new uuid) up seeds"
  have "writer_padding ?w" "vw_user_uuid ?w = Some uuid"
    using assms(1,4)
    by (simp_all add: writer_padding_def VisionWriter_new_def TrafficState_new_def writer_dir_def
        get_dir_def direction_new_def Let_def)
  then obtain w' fs where fs: "vision_writes ?w ws = (w', uuid @ continue_frames fs)"
      "frames_fit fs" "map fst fs = map (snd \<circ> snd) ws"
    using vision_writes_padding [of ?w ws] assms(2,3) by (auto simp: uuid_prefix_def)
  moreover have "fs \<noteq> []" using fs(3) assms(3) by auto
  ultimately have "read_to_end buf_len (VisionReader_new (TrafficState_new uuid) up') (map Inr pieces)
      = concat (map fst fs)"
    using assms by (intro reader_delivers) simp_all
  with fs(3) show ?thesis by simp
qed

theorem vision_end_to_end_witness:
  "read_to_end 4096 (VisionReader_new (TrafficState_new (replicate 16 7)) True)
     (map Inr [replicate 16 7, [0, 0, 1, 0], [0, 65]]) = [65]"
proof -
  let ?ws = "[(\<lambda>_. 0, \<lambda>_. 0, [65])] :: ((u32 \<Rightarrow> u32) \<times> (nat \<Rightarrow> u8) \<times> bytes) list"
  have s: "concat [replicate 16 7, [0, 0, 1, 0], [0, 65]] =
      snd (vision_writes (VisionWriter_new (TrafficState_new (replicate 16 7)) False []) ?ws)"
    by code_simp
  have k: "list_all keeps_padding ?ws" "seeds_ok []"
    by (simp_all add: keeps_padding_def rng_ok_def seeds_ok_def)
  show ?thesis
    using vision_end_to_end [OF _ k(1) _ k(2) s, of 4096 True] by simp
qed

text \<open>
  C11: a frame with the end or direct command closes the padded part of a direction: its content
  is delivered after that of the frames before it, every byte after it passes unchanged, and the
  direction is left in its reset state with the command recorded.
\<close>

theorem vision_end_frame:
  assumes "length uuid = 16" and "frames_fit fs" and "length content < 65536"
    and "length padding < 65536" and "cmd \<noteq> CMD_PADDING_CONTINUE"
    and "xtls_unpadding (uuid @ continue_frames fs @ enframe cmd content padding @ rest)
      (TrafficState_new uuid) up = (out, st)"
  shows "out = concat (map fst fs) @ content @ rest
    \<and> remaining_command (get_dir st up) = -1 \<and> current_command (get_dir st up) = uint cmd"
proof -
  let ?d = "direction_new\<lparr>initial_buffer := [], remaining_command := 5\<rparr>"
  let ?bs = "continue_frames fs @ enframe cmd content padding @ rest"
  obtain d where d: "unpad_bytes ?d (continue_frames fs) = (concat (map fst fs), d)"
      "remaining_command d = 5"
    using unpad_bytes_frames [of ?d fs] assms(2) by auto
  have "unpad_bytes ?d ?bs = (concat (map fst fs) @ content @ rest, reset_dir (d\<lparr>current_command := uint cmd\<rparr>))"
    using d unpad_bytes_append [of ?d "continue_frames fs"] assms(3,4,5)
    by (simp add: block_complete_def unpad_bytes_frame after_frame_def CMD_PADDING_CONTINUE_def uint_0_iff)
  moreover have "unpad_dir uuid (uuid @ ?bs) direction_new = unpad_bytes ?d ?bs"
    using assms(1) by (subst unpad_dir_initial [where zs = "[]" and rest = ?bs])
      (simp_all add: dir_initial_def direction_new_def enframe_def)
  moreover have "get_dir (TrafficState_new uuid) up = direction_new"
    "ts_user_uuid (TrafficState_new uuid) = uuid"
    using assms(1) by (simp_all add: get_dir_def TrafficState_new_def Let_def)
  ultimately show ?thesis
    using assms(6) by (auto simp: xtls_unpadding_def reset_dir_def)
qed


theorem vision_end_frame_witness:
  "\<exists>st. xtls_unpadding (replicate 16 7 @ continue_frames [([65], [0])] @ enframe 1 [66] [] @ [67])
       (TrafficState_new (replicate 16 7)) True = ([65, 66, 67], st)
     \<and> remaining_command (get_dir st True) = -1 \<and> current_command (get_dir st True) = 1"
proof -
  obtain out st where x: "xtls_unpadding (replicate 16 7 @ continue_frames [([65], [0])] @ enframe 1 [66] [] @ [67])
      (TrafficState_new (replicate 16 7)) True = (out, st)"
    by force
  show ?thesis
    using vision_end_frame [OF _ _ _ _ _ x] x by (simp add: frames_fit_def CMD_PADDING_CONTINUE_def)
qed

text \<open>
  The switch out of padding depends on how the stream was cut. When a read ends right after
  the command byte of an end frame, the reader takes the padded part for finished before the
  frame's lengths and content have arrived, and hands the raw header bytes to the relay; the same
  bytes in one read give the contents alone.
\<close>

theorem vision_reader_header_split:
  "let uuid = replicate 16 7; r = VisionReader_new (TrafficState_new uuid) True;
       a = uuid @ enframe CMD_PADDING_CONTINUE [65] []; b = enframe CMD_PADDING_DIRECT [66] []
   in read_to_end 4096 r [Inr (a @ b)] = [65, 66]
    \<and> read_to_end 4096 r [Inr (a @ take 1 b), Inr (drop 1 b)] = [65] @ drop 1 b"
  by code_simp


section \<open>TLS records\<close>

text \<open>An application-data record of the TLS record layer, and the buffers made of whole records.\<close>

definition app_data_record :: "bytes \<Rightarrow> bytes" where
  "app_data_record payload = [0x17, 0x03, 0x03] @ be 2 (length payload) @ payload"

definition record_payload_ok :: "bytes \<Rightarrow> bool" where
  "record_payload_ok p \<longleftrightarrow> 0 < length p \<and> length p < 65536"

lemma complete_record_header:
  "complete_record_loop 5 0 (a # b # c # h # l # rest) =
     (a = 0x17 \<and> b = 0x03 \<and> c = 0x03 \<and> complete_record_loop 0 (unat h * 256 + unat l) rest)"
  by (simp add: complete_record_loop.simps [of 5] complete_record_loop.simps [of 4]
      complete_record_loop.simps [of 3] complete_record_loop.simps [of 2]
      complete_record_loop.simps [of "Suc 0"] push_bit_or_byte_nat)

lemma complete_record_short:
  "length bs < k \<Longrightarrow> k \<le> 5 \<Longrightarrow> bs \<noteq> [] \<or> k \<noteq> 5 \<Longrightarrow> \<not> complete_record_loop k r bs"
proof (induction bs arbitrary: k r)
  case Nil
  then show ?case by (simp add: complete_record_loop.simps [of k r "[]"])
next
  case (Cons b bs)
  have "\<not> complete_record_loop (k - 1) r' bs" for r'
    using Cons.prems by (intro Cons.IH) auto
  with Cons.prems show ?case by (simp add: complete_record_loop.simps [of k r "b # bs"])
qed

lemma complete_record_body:
  "complete_record_loop 0 n bs \<longleftrightarrow> 0 < n \<and> n \<le> length bs \<and> complete_record_loop 5 0 (drop n bs)"
  by (auto simp: complete_record_loop.simps [of 0] split: list.split)

lemma be2_of_bytes: "be 2 (unat h * 256 + unat l) = [h, l]"
  using be_from_be [of "[h, l]" 2] by (simp add: from_be_def del: be_numeral of_nat_add of_nat_mult)

lemma complete_record_sound:
  "complete_record_loop 5 0 bs \<Longrightarrow>
     \<exists>ps. list_all record_payload_ok ps \<and> bs = concat (map app_data_record ps)"
proof (induction "length bs" arbitrary: bs rule: less_induct)
  case less
  show ?case
  proof (cases "bs = []")
    case True
    then show ?thesis by (intro exI [of _ "[]"]) simp
  next
    case False
    then have "5 \<le> length bs" using complete_record_short [of bs 5 0] less.prems by force
    then obtain a b c h l rest where bs: "bs = a # b # c # h # l # rest"
      by (auto simp: numeral_eq_Suc Suc_le_length_iff)
    define n where "n = unat h * 256 + unat l"
    have n: "a = 0x17" "b = 0x03" "c = 0x03" "0 < n" "n \<le> length rest"
      "complete_record_loop 5 0 (drop n rest)"
      using less.prems unfolding bs complete_record_header complete_record_body n_def [symmetric] by simp_all
    have "length (drop n rest) < length bs" using bs by simp
    from less.hyps [OF this n(6)]
    obtain ps where ps: "list_all record_payload_ok ps" "drop n rest = concat (map app_data_record ps)"
      by auto
    have "n < 65536"
      using unat_u8_less [of h] unat_u8_less [of l] unfolding n_def by linarith
    moreover have "bs = app_data_record (take n rest) @ drop n rest"
      using n be2_of_bytes [of h l] by (simp add: app_data_record_def bs n_def del: be_numeral)
    ultimately show ?thesis
      using n ps by (intro exI [of _ "take n rest # ps"]) (simp add: record_payload_ok_def)
  qed
qed


lemma complete_record_loop_records:
  "list_all record_payload_ok ps \<Longrightarrow> complete_record_loop 5 0 (concat (map app_data_record ps))"
proof (induction ps)
  case Nil
  then show ?case by (simp add: complete_record_loop.simps)
next
  case (Cons p ps)
  have len: "0 < length p" "length p < 65536" using Cons.prems by (simp_all add: record_payload_ok_def)
  obtain h l where hl: "be 2 (length p) = [h, l]" by simp
  have "unat h * 256 + unat l = length p"
    using from_be_be_small [of "length p" 2] len hl by (simp add: from_be_def del: be_numeral)
  then show ?case
    using Cons len by (simp add: app_data_record_def hl complete_record_header complete_record_body del: be_numeral)
qed

text \<open>
  The check \<open>is_complete_record\<close> accepts exactly the concatenations of whole TLS application-data
  records with a non-empty payload (the empty buffer included, as no record at all).
\<close>

theorem is_complete_record_iff:
  "is_complete_record buf \<longleftrightarrow>
     (\<exists>ps. list_all record_payload_ok ps \<and> buf = concat (map app_data_record ps))"
  using complete_record_sound complete_record_loop_records by (auto simp: is_complete_record_def)

end
