(* ===== verification/Utf8.thy ===== *)
theory Utf8
  imports Prelude
begin

text \<open>
  Rust strings. A \<open>String\<close> or \<open>&str\<close> is the list of its UTF-8 bytes; the functions of the
  standard library that turn bytes into strings are defined here: \<open>str::from_utf8\<close> and
  \<open>String::from_utf8_lossy\<close>.
\<close>

type_synonym rstr = bytes

definition str :: "string \<Rightarrow> rstr" where
  "str s = map of_char s"

lemma str_simps [simp]:
  "str [] = []"
  "str (c # cs) = of_char c # str cs"
  by (simp_all add: str_def)

section \<open>UTF-8\<close>

text \<open>
  The ranges that the bytes after a leading byte must lie in (the table of the Unicode standard,
  section 3.9), or \<open>None\<close> for a byte that starts no scalar value.
\<close>

definition utf8_tail :: "u8 \<Rightarrow> (u8 \<times> u8) list option" where
  "utf8_tail b =
     (if b < 0x80 then Some []
      else if 0xC2 \<le> b \<and> b \<le> 0xDF then Some [(0x80, 0xBF)]
      else if b = 0xE0 then Some [(0xA0, 0xBF), (0x80, 0xBF)]
      else if b = 0xED then Some [(0x80, 0x9F), (0x80, 0xBF)]
      else if 0xE1 \<le> b \<and> b \<le> 0xEF then Some [(0x80, 0xBF), (0x80, 0xBF)]
      else if b = 0xF0 then Some [(0x90, 0xBF), (0x80, 0xBF), (0x80, 0xBF)]
      else if b = 0xF4 then Some [(0x80, 0x8F), (0x80, 0xBF), (0x80, 0xBF)]
      else if 0xF1 \<le> b \<and> b \<le> 0xF3 then Some [(0x80, 0xBF), (0x80, 0xBF), (0x80, 0xBF)]
      else None)"

fun match_ranges :: "(u8 \<times> u8) list \<Rightarrow> bytes \<Rightarrow> nat \<times> bool" where
  "match_ranges [] bs = (0, True)"
| "match_ranges (r # rs) [] = (0, False)"
| "match_ranges ((lo, hi) # rs) (b # bs) =
     (if lo \<le> b \<and> b \<le> hi
      then (case match_ranges rs bs of (n, ok) \<Rightarrow> (Suc n, ok)) else (0, False))"

text \<open>
  One step of the decoder over a non-empty list: how many bytes it consumes and whether they are
  one well-formed scalar value. An ill-formed step covers the maximal subpart, which the lossy
  conversion replaces by one U+FFFD.
\<close>

definition utf8_step :: "bytes \<Rightarrow> nat \<times> bool" where
  "utf8_step bs =
     (case utf8_tail (hd bs) of
        None \<Rightarrow> (1, False)
      | Some rs \<Rightarrow> (case match_ranges rs (tl bs) of (n, ok) \<Rightarrow> (Suc n, ok)))"

lemma match_ranges_append:
  "snd (match_ranges rs bs) \<Longrightarrow> match_ranges rs (bs @ cs) = match_ranges rs bs"
  by (induction rs bs rule: match_ranges.induct) (auto split: prod.splits if_splits)

lemma match_ranges_le: "fst (match_ranges rs bs) \<le> length bs"
  by (induction rs bs rule: match_ranges.induct) (auto split: prod.splits if_splits)

lemma match_ranges_take:
  "snd (match_ranges rs bs) \<Longrightarrow>
     match_ranges rs (take (fst (match_ranges rs bs)) bs) = match_ranges rs bs"
  by (induction rs bs rule: match_ranges.induct) (auto split: prod.splits if_splits)

lemma utf8_step_pos: "0 < fst (utf8_step bs)"
  by (simp add: utf8_step_def split: option.splits prod.splits)

lemma utf8_step_less: "bs \<noteq> [] \<Longrightarrow> length bs - fst (utf8_step bs) < length bs"
  using utf8_step_pos [of bs] by (cases bs) auto

function utf8_valid :: "bytes \<Rightarrow> bool" where
  "utf8_valid bs =
     (if bs = [] then True
      else snd (utf8_step bs) \<and> utf8_valid (drop (fst (utf8_step bs)) bs))"
  by pat_completeness auto
termination
  by (relation "measure length") (simp_all add: utf8_step_less)

definition from_utf8 :: "bytes \<Rightarrow> rstr option" where
  "from_utf8 bs = (if utf8_valid bs then Some bs else None)"

definition replacement_char :: bytes where
  "replacement_char = [0xEF, 0xBF, 0xBD]"

function from_utf8_lossy :: "bytes \<Rightarrow> rstr" where
  "from_utf8_lossy bs =
     (if bs = [] then []
      else (if snd (utf8_step bs) then take (fst (utf8_step bs)) bs else replacement_char)
             @ from_utf8_lossy (drop (fst (utf8_step bs)) bs))"
  by pat_completeness auto
termination
  by (relation "measure length") (simp_all add: utf8_step_less)

declare utf8_valid.simps [simp del] from_utf8_lossy.simps [simp del]

lemma utf8_valid_Nil [simp]: "utf8_valid []"
  by (simp add: utf8_valid.simps)

lemma from_utf8_lossy_Nil [simp]: "from_utf8_lossy [] = []"
  by (simp add: from_utf8_lossy.simps)

text \<open>A well-formed step looks only at the bytes it consumes.\<close>

lemma utf8_step_Cons:
  "utf8_step (b # bs) =
     (case utf8_tail b of None \<Rightarrow> (1, False)
      | Some rs \<Rightarrow> (Suc (fst (match_ranges rs bs)), snd (match_ranges rs bs)))"
  by (simp add: utf8_step_def case_prod_unfold split: option.split)

lemma utf8_step_append:
  assumes "bs \<noteq> []" and "snd (utf8_step bs)"
  shows "utf8_step (bs @ cs) = utf8_step bs" and "fst (utf8_step bs) \<le> length bs"
proof -
  obtain b r where bs: "bs = b # r" using assms(1) by (cases bs) auto
  then show "utf8_step (bs @ cs) = utf8_step bs"
    using assms(2) by (auto simp: utf8_step_Cons match_ranges_append split: option.splits)
  show "fst (utf8_step bs) \<le> length bs"
    unfolding bs by (auto simp: utf8_step_Cons match_ranges_le split: option.splits)
qed

lemma utf8_valid_append [simp]: "utf8_valid xs \<Longrightarrow> utf8_valid ys \<Longrightarrow> utf8_valid (xs @ ys)"
proof (induction xs rule: utf8_valid.induct)
  case (1 xs)
  show ?case
  proof (cases "xs = []")
    case True
    with "1.prems" show ?thesis by simp
  next
    case False
    with "1.prems"(1) have s: "snd (utf8_step xs)" and v: "utf8_valid (drop (fst (utf8_step xs)) xs)"
      by (auto simp: utf8_valid.simps [of xs])
    have "utf8_valid (drop (fst (utf8_step xs)) xs @ ys)"
      using "1.IH" False s v "1.prems"(2) by blast
    then show ?thesis
      using False s utf8_step_append [OF False s]
      by (subst utf8_valid.simps) simp
  qed
qed

lemma utf8_step_ascii: "b < 0x80 \<Longrightarrow> utf8_step (b # r) = (1, True)"
  by (simp add: utf8_step_def utf8_tail_def)

lemma utf8_valid_ascii: "(\<forall>b \<in> set bs. b < 0x80) \<Longrightarrow> utf8_valid bs"
proof (induction bs)
  case Nil
  then show ?case by simp
next
  case (Cons b bs)
  then show ?case by (subst utf8_valid.simps) (simp add: utf8_step_ascii)
qed

text \<open>Lossy conversion leaves valid input unchanged, and always yields valid UTF-8.\<close>

lemma from_utf8_lossy_valid [simp]: "utf8_valid bs \<Longrightarrow> from_utf8_lossy bs = bs"
proof (induction bs rule: utf8_valid.induct)
  case (1 bs)
  then show ?case
    by (cases "bs = []")
      (auto simp: from_utf8_lossy.simps [of bs] utf8_valid.simps [of bs])
qed

lemma utf8_valid_step:
  assumes "bs \<noteq> []" and "snd (utf8_step bs)"
  shows "utf8_valid (take (fst (utf8_step bs)) bs)"
proof -
  have "utf8_step (take (fst (utf8_step bs)) bs) = utf8_step bs"
    using assms by (cases bs) (auto simp: utf8_step_Cons match_ranges_take split: option.splits)
  moreover have "drop (fst (utf8_step bs)) (take (fst (utf8_step bs)) bs) = []"
    by simp
  ultimately show ?thesis
    using assms(2) by (subst utf8_valid.simps) simp
qed

lemma utf8_valid_lossy [simp]: "utf8_valid (from_utf8_lossy bs)"
proof (induction bs rule: from_utf8_lossy.induct)
  case (1 bs)
  have r: "utf8_valid replacement_char"
    by (subst utf8_valid.simps) (simp add: replacement_char_def utf8_step_def utf8_tail_def)
  show ?case
    using 1 r utf8_valid_step [of bs] by (subst from_utf8_lossy.simps) simp
qed

end
