(* ===== verification/Codec.thy ===== *)
theory Codec
  imports Prelude
begin

text \<open>
  The contract between the two ends of a wire format. An encoder writes a value, a decoder reads
  one value off the front of a byte source and hands back the bytes that follow. Every framing
  layer of the program (addresses, length-prefixed packets, WebSocket frames, mux frames, KCP
  segments) is an instance, and what a peer relies on (unambiguous framing, a sequence of
  messages read back in order) is proved once here.
\<close>

text \<open>Reading \<open>n\<close> values in a row, as a receive loop does.\<close>

fun decode_n :: "(bytes \<Rightarrow> 'e + 'a \<times> bytes) \<Rightarrow> nat \<Rightarrow> bytes \<Rightarrow> 'e + 'a list \<times> bytes" where
  "decode_n dec 0 bs = Inr ([], bs)"
| "decode_n dec (Suc n) bs =
     bindr (dec bs) (\<lambda>(x, rest). bindr (decode_n dec n rest) (\<lambda>(xs, rest'). Inr (x # xs, rest')))"

locale prefix_codec =
  fixes enc :: "'a \<Rightarrow> bytes"
    and dec :: "bytes \<Rightarrow> 'e + 'a \<times> bytes"
    and wf :: "'a \<Rightarrow> bool"
  assumes dec_enc: "wf x \<Longrightarrow> dec (enc x @ rest) = Inr (x, rest)"
begin

lemma enc_prefix_free:
  assumes "wf x" and "wf y" and "enc x @ r = enc y @ s"
  shows "x = y \<and> r = s"
proof -
  have "dec (enc x @ r) = Inr (x, r)"
    using assms(1) by (rule dec_enc)
  moreover have "dec (enc x @ r) = Inr (y, s)"
    unfolding assms(3) using assms(2) by (rule dec_enc)
  ultimately show ?thesis by simp
qed

lemma enc_inject: "wf x \<Longrightarrow> wf y \<Longrightarrow> enc x = enc y \<longleftrightarrow> x = y"
  using enc_prefix_free [of x y "[]" "[]"] by auto

lemma decode_n_concat:
  "\<forall>x \<in> set xs. wf x \<Longrightarrow>
     decode_n dec (length xs) (concat (map enc xs) @ rest) = Inr (xs, rest)"
  by (induction xs) (auto simp: dec_enc)

end

text \<open>
  A codec without slack: whatever the decoder accepts is exactly the encoding of the value it
  returns, so the wire form is canonical.
\<close>

locale canonical_codec = prefix_codec +
  assumes dec_sound: "dec bs = Inr (x, rest) \<Longrightarrow> wf x \<and> bs = enc x @ rest"
begin

lemma dec_iff: "dec bs = Inr (x, rest) \<longleftrightarrow> wf x \<and> bs = enc x @ rest"
  using dec_enc dec_sound by blast

lemma dec_consumes: "dec bs = Inr (x, rest) \<Longrightarrow> length bs = length (enc x) + length rest"
  using dec_sound by fastforce

lemma decode_n_iff:
  "decode_n dec n bs = Inr (xs, rest) \<longleftrightarrow>
     length xs = n \<and> (\<forall>x \<in> set xs. wf x) \<and> bs = concat (map enc xs) @ rest"
proof (induction n arbitrary: bs xs)
  case 0
  then show ?case by auto
next
  case (Suc n)
  show ?case
    by (cases xs) (auto simp: bindr_eq_Inr_iff dec_iff Suc.IH)
qed

end

end
