(* ===== verification/Protocol.thy ===== *)
theory Protocol
  imports Utf8 Codec
begin

text \<open>
  The types shared by every inbound (\<open>crates/net-types\<close>, \<open>crates/protocol\<close>): addresses, ports,
  destinations, commands, accounts and users, and the port-first wire format of an address
  (\<open>address_parser.rs\<close>).
\<close>

section \<open>Addresses and destinations\<close>

datatype AddressFamily = FamIPv4 | FamIPv6 | FamDomain

text \<open>The fixed-size arrays are byte lists; \<open>wf_address\<close> states their lengths.\<close>

datatype Address = IPv4 bytes | IPv6 bytes | Domain rstr

fun family :: "Address \<Rightarrow> AddressFamily" where
  "family (IPv4 _) = FamIPv4"
| "family (IPv6 _) = FamIPv6"
| "family (Domain _) = FamDomain"

fun wf_address :: "Address \<Rightarrow> bool" where
  "wf_address (IPv4 ip) = (length ip = 4)"
| "wf_address (IPv6 ip) = (length ip = 16)"
| "wf_address (Domain d) = utf8_valid d"

datatype Port = Port u16

datatype Network = Tcp | Udp | Unix

fun network_as_str :: "Network \<Rightarrow> rstr" where
  "network_as_str Tcp = str ''tcp''"
| "network_as_str Udp = str ''udp''"
| "network_as_str Unix = str ''unix''"

record Destination =
  dest_address :: Address
  dest_port :: Port
  dest_network :: Network

section \<open>Commands, security types, users\<close>

datatype RequestCommand = CmdTcp | CmdUdp | CmdMux | CmdRvs

fun command_byte :: "RequestCommand \<Rightarrow> u8" where
  "command_byte CmdTcp = 1"
| "command_byte CmdUdp = 2"
| "command_byte CmdMux = 3"
| "command_byte CmdRvs = 4"

definition command_from_byte :: "u8 \<Rightarrow> RequestCommand option" where
  "command_from_byte b =
     (if b = 1 then Some CmdTcp else if b = 2 then Some CmdUdp
      else if b = 3 then Some CmdMux else if b = 4 then Some CmdRvs else None)"

datatype SecurityType =
  SecUnknown | SecLegacy | SecAuto | SecAes128Gcm | SecChaCha20Poly1305 | SecNone | SecZero

fun security_byte :: "SecurityType \<Rightarrow> u8" where
  "security_byte SecUnknown = 0"
| "security_byte SecLegacy = 1"
| "security_byte SecAuto = 2"
| "security_byte SecAes128Gcm = 3"
| "security_byte SecChaCha20Poly1305 = 4"
| "security_byte SecNone = 5"
| "security_byte SecZero = 6"

definition security_from_byte :: "u8 \<Rightarrow> SecurityType option" where
  "security_from_byte b =
     (if b = 0 then Some SecUnknown else if b = 1 then Some SecLegacy
      else if b = 2 then Some SecAuto else if b = 3 then Some SecAes128Gcm
      else if b = 4 then Some SecChaCha20Poly1305 else if b = 5 then Some SecNone
      else if b = 6 then Some SecZero else None)"

lemma command_from_byte_byte [simp]: "command_from_byte (command_byte c) = Some c"
  by (cases c) (simp_all add: command_from_byte_def)

lemma command_from_byte_Some_iff: "command_from_byte b = Some c \<longleftrightarrow> b = command_byte c"
  by (cases c) (auto simp: command_from_byte_def)

lemma security_from_byte_byte [simp]: "security_from_byte (security_byte s) = Some s"
  by (cases s) (simp_all add: security_from_byte_def)

lemma security_from_byte_Some_iff: "security_from_byte b = Some s \<longleftrightarrow> b = security_byte s"
  by (cases s) (auto simp: security_from_byte_def)

text \<open>
  An \<open>ID\<close> wraps the UUID with the command key derived from it by MD5, which is a parameter
  (crate \<open>md-5\<close>).
\<close>

record ID =
  id_uuid :: bytes
  id_cmd_key :: bytes

definition CMD_KEY_SALT :: bytes where
  "CMD_KEY_SALT = str ''c48619fe-8f02-49e0-b9e9-edf763e17e21''"

definition ID_new :: "(bytes \<Rightarrow> bytes) \<Rightarrow> bytes \<Rightarrow> ID" where
  "ID_new md5 uuid = \<lparr>id_uuid = uuid, id_cmd_key = take 16 (md5 (uuid @ CMD_KEY_SALT))\<rparr>"

definition id_bytes :: "ID \<Rightarrow> bytes" where
  "id_bytes i = id_uuid i"

definition id_equals :: "ID \<Rightarrow> ID \<Rightarrow> bool" where
  "id_equals i j \<longleftrightarrow> id_uuid i = id_uuid j"

record MemoryAccount =
  acc_id :: ID
  acc_flow :: rstr
  acc_encryption :: rstr
  acc_udp :: bool
  acc_xor_mode :: u32
  acc_seconds :: u32
  acc_padding :: rstr
  acc_testpre :: u32
  acc_testseed :: "u32 list"

record MemoryUser =
  account :: MemoryAccount
  email :: rstr
  level :: u32

record RequestHeader =
  version :: u8
  command :: RequestCommand
  address :: Address
  port :: Port
  user :: MemoryUser

text \<open>Two IDs built from UUIDs are equal exactly when \<open>equals\<close> says so.\<close>

lemma id_equals_iff: "id_equals (ID_new md5 u) (ID_new md5 v) \<longleftrightarrow> ID_new md5 u = ID_new md5 v"
  by (auto simp: id_equals_def ID_new_def)

section \<open>The port-first address format\<close>

datatype AddressParseError = InvalidType u8 | DomainTooLong nat | AddrIo io_error

text \<open>\<open>AddressParser\<close> with its single field.\<close>

record AddressParser =
  port_first :: bool

definition AddressParser_new :: AddressParser where
  "AddressParser_new = \<lparr>port_first = True\<rparr>"

definition rd :: "nat \<Rightarrow> bytes \<Rightarrow> AddressParseError + bytes \<times> bytes" where
  "rd n bs = map_err AddrIo (read_exact n bs)"

definition read_port :: "bytes \<Rightarrow> AddressParseError + Port \<times> bytes" where
  "read_port bs = bindr (rd 2 bs) (\<lambda>(pb, rest). Inr (Port (u16_of_be pb), rest))"

definition read_address_body :: "u8 \<Rightarrow> bytes \<Rightarrow> AddressParseError + Address \<times> bytes" where
  "read_address_body addr_type bs =
     (if addr_type = 1 then bindr (rd 4 bs) (\<lambda>(ip, rest). Inr (IPv4 ip, rest))
      else if addr_type = 2 then
        bindr (rd 1 bs) (\<lambda>(lb, rest).
          let domain_len = unat (hd lb) in
          if domain_len > 256 then Inl (DomainTooLong domain_len)
          else bindr (rd domain_len rest) (\<lambda>(d, rest').
            case from_utf8 d of None \<Rightarrow> Inl (InvalidType 2) | Some s \<Rightarrow> Inr (Domain s, rest')))
      else if addr_type = 3 then bindr (rd 16 bs) (\<lambda>(ip, rest). Inr (IPv6 ip, rest))
      else Inl (InvalidType addr_type))"

definition read_address_port ::
  "AddressParser \<Rightarrow> bytes \<Rightarrow> AddressParseError + (Address \<times> Port) \<times> bytes" where
  "read_address_port self bs =
     bindr (if port_first self then read_port bs else Inr (Port 0, bs)) (\<lambda>(p, bs1).
     bindr (rd 1 bs1) (\<lambda>(tb, bs2).
     bindr (read_address_body (hd tb) bs2) (\<lambda>(a, bs3).
     bindr (if port_first self then Inr (p, bs3) else read_port bs3) (\<lambda>(p', bs4).
     Inr ((a, p'), bs4)))))"

text \<open>
  The writer always puts the port first. The length byte of a domain is truncated by \<open>as u8\<close>.
\<close>

fun write_address :: "Address \<Rightarrow> bytes" where
  "write_address (IPv4 octets) = 1 # octets"
| "write_address (Domain d) = 2 # word_of_nat (length d) # d"
| "write_address (IPv6 octets) = 3 # octets"

definition write_address_port :: "AddressParser \<Rightarrow> Address \<times> Port \<Rightarrow> bytes" where
  "write_address_port self ap = (case ap of (a, Port p) \<Rightarrow> u16_be p @ write_address a)"

text \<open>What fits the format: array lengths, valid UTF-8, and a domain of at most 255 bytes.\<close>

definition wire_address :: "Address \<Rightarrow> bool" where
  "wire_address a \<longleftrightarrow> wf_address a \<and> (case a of Domain d \<Rightarrow> length d < 256 | _ \<Rightarrow> True)"

definition wire_address_port :: "Address \<times> Port \<Rightarrow> bool" where
  "wire_address_port ap = wire_address (fst ap)"

lemma rd_append [simp]: "length xs = n \<Longrightarrow> rd n (xs @ ys) = Inr (xs, ys)"
  by (simp add: rd_def)

lemma rd_Cons [simp]: "rd (Suc 0) (x # xs) = Inr ([x], xs)"
  by (simp add: rd_def)

lemma rd_Inr_iff: "rd n bs = Inr (xs, ys) \<longleftrightarrow> bs = xs @ ys \<and> length xs = n"
  by (simp add: rd_def read_exact_Inr_iff)

lemma read_port_u16_be [simp]: "read_port (u16_be p @ bs) = Inr (Port p, bs)"
  by (simp add: read_port_def)

lemma read_address_body_write:
  assumes "wire_address a"
  shows "\<exists>t body. write_address a = t # body \<and> read_address_body t (body @ rest) = Inr (a, rest)"
  using assms
  by (cases a)
    (auto simp: wire_address_def read_address_body_def from_utf8_def unat_of_nat_u8 Let_def)

lemma read_address_body_sound:
  assumes "read_address_body t bs = Inr (a, rest)"
  shows "wire_address a \<and> t # bs = write_address a @ rest"
  using assms
  by (auto simp: read_address_body_def wire_address_def bindr_eq_Inr_iff rd_Inr_iff from_utf8_def
      Let_def length_Suc_conv split: if_splits option.splits)

text \<open>The address format is a canonical codec.\<close>

interpretation addr: canonical_codec
  "write_address_port AddressParser_new" "read_address_port AddressParser_new" wire_address_port
proof
  fix x rest
  assume w: "wire_address_port x"
  obtain a p where x: "x = (a, Port p)" by (metis Port.exhaust surj_pair)
  from w have "wire_address a" by (simp add: x wire_address_port_def)
  then obtain t body where "write_address a = t # body"
    and "read_address_body t (body @ rest) = Inr (a, rest)"
    using read_address_body_write by blast
  then show "read_address_port AddressParser_new (write_address_port AddressParser_new x @ rest)
      = Inr (x, rest)"
    by (simp add: x read_address_port_def write_address_port_def AddressParser_new_def)
next
  fix bs x rest
  assume r: "read_address_port AddressParser_new bs = Inr (x, rest)"
  obtain a p where x: "x = (a, p)" by force
  from r obtain pb t bs2 where bs: "bs = pb @ t # bs2" and pb: "length pb = 2"
    and p: "p = Port (u16_of_be pb)" and b: "read_address_body t bs2 = Inr (a, rest)"
    by (auto simp: x read_address_port_def read_port_def AddressParser_new_def bindr_eq_Inr_iff
        rd_Inr_iff length_Suc_conv)
  from read_address_body_sound [OF b] show "wire_address_port x \<and>
      bs = write_address_port AddressParser_new x @ rest"
    by (simp add: x bs p wire_address_port_def write_address_port_def u16_be_of_be [OF pb])
qed

text \<open>
  C4: the address format is canonical. The parser used by VLESS accepts a byte string exactly
  when it starts with what the writer produces for some address and port that fit the format, and
  returns that address, that port and the bytes after them.
\<close>

theorem read_address_port_iff:
  "read_address_port AddressParser_new bs = Inr ((a, p), rest) \<longleftrightarrow>
     wire_address a \<and> bs = write_address_port AddressParser_new (a, p) @ rest"
  using addr.dec_iff [of bs "(a, p)" rest] by (simp add: wire_address_port_def)

text \<open>
  A domain of 256 bytes or more does not survive the writer. Its length byte is the length
  modulo 256, so whatever the parser makes of the output, it is not the address written.
\<close>

theorem write_address_port_truncates:
  assumes "256 \<le> length d" and "read_address_port AddressParser_new
      (write_address_port AddressParser_new (Domain d, p) @ rest) = Inr ((a, q), rest')"
  shows "a \<noteq> Domain d"
  using assms addr.dec_sound [OF assms(2)] by (auto simp: wire_address_port_def wire_address_def)

theorem write_address_port_truncates_witness:
  "\<exists>a q rest'. read_address_port AddressParser_new
      (write_address_port AddressParser_new (Domain (replicate 256 0x61), Port 80)) = Inr ((a, q), rest')
    \<and> a \<noteq> Domain (replicate 256 0x61)"
proof -
  have "read_address_port AddressParser_new
      (write_address_port AddressParser_new (Domain (replicate 256 0x61), Port 80) @ [])
      = Inr ((Domain [], Port 80), replicate 256 0x61)"
    by code_simp
  then show ?thesis using write_address_port_truncates [of "replicate 256 0x61" "Port 80" "[]"] by fastforce
qed

end
