(* ===== verification/Uuid.thy ===== *)
theory Uuid
  imports Utf8
begin

unbundle bit_operations_syntax

text \<open>
  User identifiers (\<open>crates/uuid/src/types.rs\<close>). A UUID is a list of 16 bytes. The crates
  \<open>hex\<close>, \<open>sha2\<close> and \<open>rand\<close> are parameters: \<open>hexd\<close> decodes a string of hexadecimal digits,
  \<open>sha256\<close> hashes, and the random bytes of \<open>new_v4\<close> are an argument.
\<close>

datatype ParseUuidError = InvalidLength nat | InvalidFormat rstr

definition wf_uuid :: "bytes \<Rightarrow> bool" where
  "wf_uuid u \<longleftrightarrow> length u = 16"

definition stamp_version :: "u8 \<Rightarrow> bytes \<Rightarrow> bytes" where
  "stamp_version v bs = bs[6 := (bs ! 6 AND 0x0f) OR v, 8 := (bs ! 8 AND 0x3f) OR 0x80]"

definition new_v4 :: "bytes \<Rightarrow> bytes" where
  "new_v4 random = stamp_version 0x40 random"

definition parse_bytes :: "bytes \<Rightarrow> ParseUuidError + bytes" where
  "parse_bytes b = (if length b \<noteq> 16 then Inl (InvalidLength (length b)) else Inr b)"

definition from_short_name :: "(bytes \<Rightarrow> bytes) \<Rightarrow> rstr \<Rightarrow> bytes" where
  "from_short_name sha256 name = stamp_version 0x50 (take 16 (sha256 (replicate 16 0 @ name)))"

text \<open>\<open>dst[pos..pos + len].copy_from_slice(src)\<close>.\<close>

definition copy_slice :: "nat \<Rightarrow> nat \<Rightarrow> bytes \<Rightarrow> bytes \<Rightarrow> bytes" where
  "copy_slice pos len src dst = take pos dst @ src @ drop (pos + len) dst"

text \<open>The loop over the groups 8-4-4-4-12; \<open>None\<close> is the error return.\<close>

fun parse_groups ::
  "(bytes \<Rightarrow> bytes option) \<Rightarrow> (nat \<times> nat) list \<Rightarrow> nat \<Rightarrow> bytes \<Rightarrow> bytes \<Rightarrow> bytes option" where
  "parse_groups hexd [] pos out text = Some out"
| "parse_groups hexd ((hex_len, byte_len) # gs) pos out text =
     (let text = (if text \<noteq> [] \<and> hd text = 0x2d then tl text else text) in
      if length text < hex_len then None
      else case from_utf8 (take hex_len text) of
        None \<Rightarrow> None
      | Some hex_str \<Rightarrow> (case hexd hex_str of
          None \<Rightarrow> None
        | Some decoded \<Rightarrow>
            parse_groups hexd gs (pos + byte_len) (copy_slice pos byte_len decoded out)
              (drop hex_len text)))"

definition uuid_groups :: "(nat \<times> nat) list" where
  "uuid_groups = [(8, 4), (4, 2), (4, 2), (4, 2), (12, 6)]"

definition parse_string ::
  "(bytes \<Rightarrow> bytes option) \<Rightarrow> (bytes \<Rightarrow> bytes) \<Rightarrow> rstr \<Rightarrow> ParseUuidError + bytes" where
  "parse_string hexd sha256 s =
     (if length s < 32 \<or> length s > 36 then
        (if s \<noteq> [] \<and> length s \<le> 30 then Inr (from_short_name sha256 s)
         else Inl (InvalidFormat s))
      else ok_or (InvalidFormat s) (parse_groups hexd uuid_groups 0 (replicate 16 0) s))"

definition process_uuid :: "bytes \<Rightarrow> bytes" where
  "process_uuid uid = uid[6 := 0, 7 := 0]"

text \<open>The format specification \<open>{:02x}\<close> and \<open>Display\<close>.\<close>

definition hex_digit :: "nat \<Rightarrow> u8" where
  "hex_digit n = (if n < 10 then word_of_nat (48 + n) else word_of_nat (87 + n))"

definition hex_byte :: "u8 \<Rightarrow> bytes" where
  "hex_byte b = [hex_digit (unat b div 16), hex_digit (unat b mod 16)]"

definition lower_hex :: "bytes \<Rightarrow> rstr" where
  "lower_hex bs = concat (map hex_byte bs)"

definition uuid_display :: "bytes \<Rightarrow> rstr" where
  "uuid_display u =
     lower_hex (take 4 u) @ [0x2d] @ lower_hex (take 2 (drop 4 u)) @ [0x2d]
     @ lower_hex (take 2 (drop 6 u)) @ [0x2d] @ lower_hex (take 2 (drop 8 u)) @ [0x2d]
     @ lower_hex (take 6 (drop 10 u))"

text \<open>
  What the program relies on of \<open>hex::decode\<close>: it inverts the lower-case hexadecimal form.
\<close>

definition hex_inverts :: "(bytes \<Rightarrow> bytes option) \<Rightarrow> bool" where
  "hex_inverts hexd \<longleftrightarrow> (\<forall>bs. hexd (lower_hex bs) = Some bs)"

section \<open>Hexadecimal text\<close>

lemma length_hex_byte [simp]: "length (hex_byte b) = 2"
  by (simp add: hex_byte_def)

lemma lower_hex_Nil [simp]: "lower_hex [] = []"
  and lower_hex_Cons [simp]: "lower_hex (b # bs) = hex_byte b @ lower_hex bs"
  by (simp_all add: lower_hex_def)

lemma length_lower_hex [simp]: "length (lower_hex bs) = 2 * length bs"
  by (induction bs) auto

lemma unat_hex_digit: "n < 16 \<Longrightarrow> unat (hex_digit n) = (if n < 10 then 48 + n else 87 + n)"
  by (simp add: hex_digit_def unat_of_nat del: of_nat_add)

lemma hex_digit_ascii: "n < 16 \<Longrightarrow> hex_digit n < 0x80 \<and> hex_digit n \<noteq> 0x2d"
  by (simp add: word_less_nat_alt word_unat_eq_iff unat_hex_digit)

lemma hex_byte_ascii: "x \<in> set (hex_byte b) \<Longrightarrow> x < 0x80 \<and> x \<noteq> 0x2d"
proof -
  have "unat b div 16 < 16" using unat_u8_less [of b] by linarith
  then show "x \<in> set (hex_byte b) \<Longrightarrow> ?thesis"
    using hex_digit_ascii by (auto simp: hex_byte_def)
qed

lemma lower_hex_ascii: "x \<in> set (lower_hex bs) \<Longrightarrow> x < 0x80 \<and> x \<noteq> 0x2d"
  using hex_byte_ascii by (induction bs) auto

lemma from_utf8_lower_hex [simp]: "from_utf8 (lower_hex bs) = Some (lower_hex bs)"
  using lower_hex_ascii by (auto simp: from_utf8_def intro!: utf8_valid_ascii)

text \<open>One group of digits, with or without the dash in front of it.\<close>

lemma parse_groups_step:
  assumes "hex_inverts hexd" and "g \<noteq> []" and "text = lower_hex g @ rest \<or> text = 0x2d # lower_hex g @ rest"
  shows "parse_groups hexd ((2 * length g, length g) # gs) pos out text
    = parse_groups hexd gs (pos + length g) (copy_slice pos (length g) g out) rest"
proof -
  obtain b r where "g = b # r" using assms(2) by (cases g) auto
  then obtain c cs where c: "lower_hex g = c # cs" and "c \<noteq> 0x2d"
    using lower_hex_ascii [of "hd (lower_hex g)" g] by (cases "lower_hex g") (auto simp: hex_byte_def)
  have strip: "(if text \<noteq> [] \<and> hd text = 0x2d then tl text else text) = lower_hex g @ rest"
    using assms(3) c \<open>c \<noteq> 0x2d\<close> by auto
  have "hexd (lower_hex g) = Some g" using assms(1) by (simp add: hex_inverts_def)
  then show ?thesis
    by (simp only: parse_groups.simps strip Let_def) (simp del: lower_hex_Cons)
qed

lemma copy_slice_next:
  "length done = pos \<Longrightarrow> copy_slice pos n src (done @ out) = (done @ src) @ drop n out"
  by (simp add: copy_slice_def)

text \<open>The last group may be followed by anything that the length check lets through.\<close>

lemma parse_groups_parts:
  assumes h: "hex_inverts hexd" and l: "length ga = 4" "length gb = 2" "length gc = 2" "length gd = 2" "length ge = 6"
    and t: "inp = lower_hex ga @ db @ lower_hex gb @ dc @ lower_hex gc @ dd @ lower_hex gd @ de @ lower_hex ge @ junk"
    and d: "\<forall>x \<in> {db, dc, dd, de}. x = [] \<or> x = [0x2d]"
  shows "parse_groups hexd uuid_groups 0 (replicate 16 0) inp = Some (ga @ gb @ gc @ gd @ ge)"
proof -
  have ne: "ga \<noteq> []" "gb \<noteq> []" "gc \<noteq> []" "gd \<noteq> []" "ge \<noteq> []"
    using l by auto
  note step = parse_groups_step [OF h]
  define r4 where "r4 = de @ lower_hex ge @ junk"
  define r3 where "r3 = dd @ lower_hex gd @ r4"
  define r2 where "r2 = dc @ lower_hex gc @ r3"
  define r1 where "r1 = db @ lower_hex gb @ r2"
  have t': "inp = lower_hex ga @ r1"
    by (simp add: t r1_def r2_def r3_def r4_def)
  have s1: "parse_groups hexd ((8, 4) # gs) pos out inp
      = parse_groups hexd gs (pos + 4) (copy_slice pos 4 ga out) r1" for gs pos out
    using step [OF ne(1), of inp r1] t' l by simp
  have s2: "parse_groups hexd ((4, 2) # gs) pos out r1
      = parse_groups hexd gs (pos + 2) (copy_slice pos 2 gb out) r2" for gs pos out
    using step [OF ne(2), of r1 r2] d l by (auto simp: r1_def)
  have s3: "parse_groups hexd ((4, 2) # gs) pos out r2
      = parse_groups hexd gs (pos + 2) (copy_slice pos 2 gc out) r3" for gs pos out
    using step [OF ne(3), of r2 r3] d l by (auto simp: r2_def)
  have s4: "parse_groups hexd ((4, 2) # gs) pos out r3
      = parse_groups hexd gs (pos + 2) (copy_slice pos 2 gd out) r4" for gs pos out
    using step [OF ne(4), of r3 r4] d l by (auto simp: r3_def)
  have s5: "parse_groups hexd ((12, 6) # gs) pos out r4
      = parse_groups hexd gs (pos + 6) (copy_slice pos 6 ge out) junk" for gs pos out
    using step [OF ne(5), of r4 junk] d l by (auto simp: r4_def)
  show ?thesis
    unfolding uuid_groups_def s1 s2 s3 s4 s5 using l by (simp add: copy_slice_def)
qed

section \<open>Parsing and printing\<close>

text \<open>A decoder of hexadecimal text, the concrete instance used where the parameter is needed.\<close>

definition hex_value :: "u8 \<Rightarrow> nat option" where
  "hex_value c =
     (if 0x30 \<le> c \<and> c \<le> 0x39 then Some (unat c - 0x30)
      else if 0x61 \<le> c \<and> c \<le> 0x66 then Some (unat c - 0x61 + 10)
      else if 0x41 \<le> c \<and> c \<le> 0x46 then Some (unat c - 0x41 + 10) else None)"

fun hex_ref :: "bytes \<Rightarrow> bytes option" where
  "hex_ref [] = Some []"
| "hex_ref [x] = None"
| "hex_ref (x # y # r) =
     (case (hex_value x, hex_value y, hex_ref r) of
        (Some h, Some l, Some bs) \<Rightarrow> Some (word_of_nat (16 * h + l) # bs)
      | _ \<Rightarrow> None)"

lemma hex_value_digit: "n < 16 \<Longrightarrow> hex_value (hex_digit n) = Some n"
  by (auto simp: hex_value_def word_le_nat_alt unat_hex_digit)

lemma hex_ref_hex_byte: "hex_ref (hex_byte b @ r) = map_option ((#) b) (hex_ref r)"
proof -
  have "unat b div 16 < 16" using unat_u8_less [of b] by linarith
  moreover have "(word_of_nat (16 * (unat b div 16) + unat b mod 16) :: u8) = b"
    by (simp only: mult_div_mod_eq) simp
  ultimately show ?thesis
    by (simp add: hex_byte_def hex_value_digit split: option.splits)
qed

lemma hex_inverts_ref: "hex_inverts hex_ref"
proof -
  have "hex_ref (lower_hex bs) = Some bs" for bs
    by (induction bs) (simp_all add: hex_ref_hex_byte)
  then show ?thesis by (simp add: hex_inverts_def)
qed

lemma uuid_parts:
  "wf_uuid u \<Longrightarrow> take 4 u @ take 2 (drop 4 u) @ take 2 (drop 6 u) @ take 2 (drop 8 u) @ take 6 (drop 10 u) = u"
  by (rule nth_equalityI) (auto simp: wf_uuid_def nth_append)

lemma length_uuid_display: "wf_uuid u \<Longrightarrow> length (uuid_display u) = 36"
  by (simp add: wf_uuid_def uuid_display_def)

text \<open>
  Up to four bytes may follow the 32 digits of an undashed identifier: the loop never looks at
  them.
\<close>

lemma parse_string_undashed:
  assumes h: "hex_inverts hexd" and w: "wf_uuid u" and j: "length junk \<le> 4"
  shows "parse_string hexd sha256 (lower_hex u @ junk) = Inr u"
proof -
  have "lower_hex u = lower_hex (take 4 u) @ lower_hex (take 2 (drop 4 u))
      @ lower_hex (take 2 (drop 6 u)) @ lower_hex (take 2 (drop 8 u)) @ lower_hex (take 6 (drop 10 u))"
    by (subst (1) uuid_parts [OF w, symmetric]) (simp add: lower_hex_def)
  then have "parse_groups hexd uuid_groups 0 (replicate 16 0) (lower_hex u @ junk) = Some u"
    using w uuid_parts [OF w] by (subst parse_groups_parts [OF h, where db = "[]" and dc = "[]" and dd = "[]" and de = "[]"])
      (auto simp: wf_uuid_def)
  then show ?thesis
    using w j by (simp add: parse_string_def wf_uuid_def)
qed

lemma parse_string_display:
  assumes h: "hex_inverts hexd" and w: "wf_uuid u"
  shows "parse_string hexd sha256 (uuid_display u) = Inr u"
proof -
  have "parse_groups hexd uuid_groups 0 (replicate 16 0) (uuid_display u) = Some u"
    using w uuid_parts [OF w]
    by (subst parse_groups_parts [OF h, where junk = "[]" and db = "[0x2d]" and dc = "[0x2d]"
          and dd = "[0x2d]" and de = "[0x2d]" and ga = "take 4 u" and gb = "take 2 (drop 4 u)"
          and gc = "take 2 (drop 6 u)" and gd = "take 2 (drop 8 u)" and ge = "take 6 (drop 10 u)"])
      (auto simp: wf_uuid_def uuid_display_def)
  then show ?thesis
    using length_uuid_display [OF w] by (simp add: parse_string_def)
qed

text \<open>
  Every accepted text gives sixteen bytes, when the decoder yields one byte per two digits and the
  hash at least sixteen bytes.
\<close>

definition hex_halves :: "(bytes \<Rightarrow> bytes option) \<Rightarrow> bool" where
  "hex_halves hexd \<longleftrightarrow> (\<forall>s bs. hexd s = Some bs \<longrightarrow> 2 * length bs = length s)"

lemma hex_halvesD: "hex_halves hexd \<Longrightarrow> hexd s = Some bs \<Longrightarrow> 2 * length bs = length s"
  by (simp add: hex_halves_def)

definition hash_len :: "nat \<Rightarrow> (bytes \<Rightarrow> bytes) \<Rightarrow> bool" where
  "hash_len n h \<longleftrightarrow> (\<forall>bs. length (h bs) = n)"

lemma parse_groups_length:
  assumes "hex_halves hexd" and "\<forall>(h, b) \<in> set gs. h = 2 * b"
    and "pos + sum_list (map snd gs) \<le> length out" and "parse_groups hexd gs pos out inp = Some u"
  shows "length u = length out"
  using assms
proof (induction gs arbitrary: pos out inp)
  case Nil
  then show ?case by simp
next
  case (Cons g gs)
  obtain h b where g: "g = (h, b)" by force
  define txt' where "txt' = (if inp \<noteq> [] \<and> hd inp = 0x2d then tl inp else inp)"
  from Cons.prems(4) obtain s d where "h \<le> length txt'" "from_utf8 (take h txt') = Some s"
    "hexd s = Some d" "parse_groups hexd gs (pos + b) (copy_slice pos b d out) (drop h txt') = Some u"
    unfolding g parse_groups.simps txt'_def [symmetric] Let_def by (auto split: if_splits option.splits)
  moreover from this have "length d = b"
    using hex_halvesD [OF Cons.prems(1)] Cons.prems(2) g by (fastforce simp: from_utf8_def split: if_splits)
  then have "length (copy_slice pos b d out) = length out"
    using Cons.prems(3) g by (simp add: copy_slice_def)
  ultimately show ?case
    using Cons.IH [of "pos + b" "copy_slice pos b d out" "drop h txt'"] Cons.prems g by simp
qed

lemma parse_string_wf:
  assumes "hex_halves hexd" and "hash_len 32 sha256" and "parse_string hexd sha256 s = Inr u"
  shows "wf_uuid u"
proof (cases "length s < 32 \<or> length s > 36")
  case True
  then show ?thesis
    using assms(2,3) by (auto simp: parse_string_def from_short_name_def stamp_version_def
        hash_len_def wf_uuid_def split: if_splits)
next
  case False
  then have "parse_groups hexd uuid_groups 0 (replicate 16 0) s = Some u"
    using assms(3) by (auto simp: parse_string_def ok_or_def split: option.splits)
  then show ?thesis
    using parse_groups_length [OF assms(1), of uuid_groups 0 "replicate 16 0" s u]
    by (simp add: uuid_groups_def wf_uuid_def)
qed

text \<open>The routing key forgets exactly bytes 6 and 7.\<close>

lemma length_process_uuid [simp]: "length (process_uuid u) = length u"
  by (simp add: process_uuid_def)

lemma process_uuid_idem [simp]: "process_uuid (process_uuid u) = process_uuid u"
  by (simp add: process_uuid_def list_update_swap)

lemma process_uuid_eq_iff:
  "wf_uuid a \<Longrightarrow> wf_uuid b \<Longrightarrow>
     process_uuid a = process_uuid b \<longleftrightarrow> (\<forall>i < 16. i \<noteq> 6 \<longrightarrow> i \<noteq> 7 \<longrightarrow> a ! i = b ! i)"
  by (auto simp: wf_uuid_def process_uuid_def list_eq_iff_nth_eq nth_list_update)

text \<open>
  C13: printing and parsing are inverse. The 36-character form that \<open>Display\<close> prints is parsed
  back to the same sixteen bytes, whatever hexadecimal decoder and hash the program links, as long
  as the decoder inverts lower-case hexadecimal.
\<close>

theorem uuid_roundtrip:
  assumes "hex_inverts hexd" and "wf_uuid u"
  shows "length (uuid_display u) = 36 \<and> parse_string hexd sha256 (uuid_display u) = Inr u"
  using parse_string_display [OF assms] length_uuid_display [OF assms(2)] by simp

theorem uuid_roundtrip_witness:
  "parse_string hex_ref (\<lambda>_. []) (uuid_display (replicate 16 0xab)) = Inr (replicate 16 0xab)"
  using uuid_roundtrip [OF hex_inverts_ref, of "replicate 16 0xab"] by (simp add: wf_uuid_def)

text \<open>
  The parser accepts text that is no UUID. Thirty-two hexadecimal digits followed by up to
  four arbitrary bytes are accepted as the identifier the digits denote.
\<close>

theorem uuid_trailing_junk:
  assumes "hex_inverts hexd" and "wf_uuid u" and "length junk \<le> 4"
  shows "parse_string hexd sha256 (lower_hex u @ junk) = Inr u"
  using parse_string_undashed [OF assms] .

theorem uuid_trailing_junk_witness:
  "parse_string hex_ref (\<lambda>_. []) (lower_hex (replicate 16 0xab) @ str ''zzzz'') = Inr (replicate 16 0xab)"
  using uuid_trailing_junk [OF hex_inverts_ref, of "replicate 16 0xab" "str ''zzzz''"]
  by (simp add: wf_uuid_def str_def)

end
