(* ===== verification/Validator.thy ===== *)
theory Validator
  imports Protocol Uuid
begin

text \<open>
  The in-memory user registry (\<open>crates/vless/src/validator.rs\<close>) and the loop of
  \<open>InboundServer::new\<close> (\<open>crates/server/src/handler/mod.rs\<close>) that fills it. The two hash maps are
  partial functions; a poisoned lock is entered anyway, so the locks leave no trace. The Unicode
  table behind \<open>str::to_lowercase\<close> is the argument \<open>lower\<close>, of which nothing is assumed.
\<close>

datatype ValidatorError = DuplicateEmail rstr | NotFound rstr

record MemoryValidator =
  users :: "bytes \<rightharpoonup> MemoryUser"
  emails :: "rstr \<rightharpoonup> MemoryUser"

definition validator_new :: MemoryValidator where
  "validator_new = \<lparr>users = Map.empty, emails = Map.empty\<rparr>"

definition user_uuid :: "MemoryUser \<Rightarrow> bytes" where
  "user_uuid u = id_uuid (acc_id (account u))"

definition validator_get :: "MemoryValidator \<Rightarrow> bytes \<Rightarrow> MemoryUser option" where
  "validator_get v uid = users v (process_uuid uid)"

definition validator_add ::
  "(rstr \<Rightarrow> rstr) \<Rightarrow> MemoryValidator \<Rightarrow> MemoryUser \<Rightarrow> ValidatorError + MemoryValidator" where
  "validator_add lower v u =
     bindr
       (if email u \<noteq> [] then
          (let key = lower (email u) in
           if emails v key \<noteq> None then Inl (DuplicateEmail (email u))
           else Inr (v\<lparr>emails := (emails v)(key \<mapsto> u)\<rparr>))
        else Inr v)
       (\<lambda>v'. Inr (v'\<lparr>users := (users v')(process_uuid (user_uuid u) \<mapsto> u)\<rparr>))"

definition validator_del ::
  "(rstr \<Rightarrow> rstr) \<Rightarrow> MemoryValidator \<Rightarrow> rstr \<Rightarrow> ValidatorError + MemoryValidator" where
  "validator_del lower v em =
     (let key = lower em in
      case emails v key of
        Some u \<Rightarrow>
          Inr (v\<lparr>emails := (emails v)(key := None),
                 users := (users v)(process_uuid (user_uuid u) := None)\<rparr>)
      | None \<Rightarrow> Inl (NotFound (str ''user '' @ em @ str '' not found'')))"

definition get_by_email :: "(rstr \<Rightarrow> rstr) \<Rightarrow> MemoryValidator \<Rightarrow> rstr \<Rightarrow> MemoryUser option" where
  "get_by_email lower v em = emails v (lower em)"

text \<open>\<open>get_all\<close> collects the values in an unspecified order: the set of them.\<close>

definition get_all :: "MemoryValidator \<Rightarrow> MemoryUser set" where
  "get_all v = ran (emails v)"

definition get_count :: "MemoryValidator \<Rightarrow> nat" where
  "get_count v = card (dom (emails v))"

text \<open>
  The registry's invariant: both maps are keyed by what their values say, and only users with an
  e-mail address are indexed by one.
\<close>

definition validator_inv :: "(rstr \<Rightarrow> rstr) \<Rightarrow> MemoryValidator \<Rightarrow> bool" where
  "validator_inv lower v \<longleftrightarrow>
     (\<forall>k u. users v k = Some u \<longrightarrow> k = process_uuid (user_uuid u)) \<and>
     (\<forall>k u. emails v k = Some u \<longrightarrow> k = lower (email u) \<and> email u \<noteq> []) \<and>
     finite (dom (users v)) \<and> finite (dom (emails v))"

section \<open>Loading the configured users\<close>

fun add_all :: "('r \<Rightarrow> MemoryUser \<Rightarrow> 'e + 'r) \<Rightarrow> 'r \<Rightarrow> MemoryUser list \<Rightarrow> 'e + 'r" where
  "add_all add r [] = Inr r"
| "add_all add r (u # us) = bindr (add r u) (\<lambda>r'. add_all add r' us)"

record ConfigUser =
  cu_id :: rstr
  cu_email :: rstr
  cu_flow :: rstr
  cu_encryption :: rstr
  cu_udp :: bool

datatype LoadError = BadUuid ParseUuidError | BadUser ValidatorError

definition build_user ::
  "(bytes \<Rightarrow> bytes option) \<Rightarrow> (bytes \<Rightarrow> bytes) \<Rightarrow> (bytes \<Rightarrow> bytes) \<Rightarrow> rstr option \<Rightarrow> ConfigUser
     \<Rightarrow> LoadError + MemoryUser" where
  "build_user hexd sha256 md5 config_flow cu =
     bindr (map_err BadUuid (parse_string hexd sha256 (cu_id cu))) (\<lambda>uuid.
       let flow = (if cu_flow cu = [] then (case config_flow of None \<Rightarrow> [] | Some f \<Rightarrow> f)
                   else cu_flow cu)
       in Inr \<lparr>account = \<lparr>acc_id = ID_new md5 uuid, acc_flow = flow,
                 acc_encryption = cu_encryption cu, acc_udp = cu_udp cu, acc_xor_mode = 0,
                 acc_seconds = 0, acc_padding = [], acc_testpre = 0, acc_testseed = []\<rparr>,
               email = cu_email cu, level = 0\<rparr>)"

fun load_users ::
  "(bytes \<Rightarrow> bytes option) \<Rightarrow> (bytes \<Rightarrow> bytes) \<Rightarrow> (bytes \<Rightarrow> bytes) \<Rightarrow> (rstr \<Rightarrow> rstr) \<Rightarrow> rstr option
     \<Rightarrow> MemoryValidator \<Rightarrow> ConfigUser list \<Rightarrow> LoadError + MemoryValidator" where
  "load_users hexd sha256 md5 lower config_flow v [] = Inr v"
| "load_users hexd sha256 md5 lower config_flow v (cu # cus) =
     bindr (build_user hexd sha256 md5 config_flow cu) (\<lambda>mu.
     bindr (map_err BadUser (validator_add lower v mu)) (\<lambda>v'.
       load_users hexd sha256 md5 lower config_flow v' cus))"

section \<open>The contract of a user registry\<close>

text \<open>
  What the protocol handlers rely on of the trait \<open>Validator\<close>: a successful \<open>add\<close> makes the user
  the answer for every identifier with its routing key and changes no other answer; whatever
  \<open>get\<close> returns carries the key it was asked for.
\<close>

locale user_registry =
  fixes get :: "'r \<Rightarrow> bytes \<Rightarrow> MemoryUser option"
    and add :: "'r \<Rightarrow> MemoryUser \<Rightarrow> 'e + 'r"
    and key :: "bytes \<Rightarrow> bytes"
    and invar :: "'r \<Rightarrow> bool"
  assumes get_add: "invar r \<Longrightarrow> add r u = Inr r' \<Longrightarrow>
      get r' i = (if key i = key (user_uuid u) then Some u else get r i)"
    and invar_add: "invar r \<Longrightarrow> add r u = Inr r' \<Longrightarrow> invar r'"
    and get_key: "invar r \<Longrightarrow> get r i = Some u \<Longrightarrow> key (user_uuid u) = key i"
begin

lemma invar_add_all: "invar r \<Longrightarrow> add_all add r us = Inr r' \<Longrightarrow> invar r'"
  by (induction us arbitrary: r) (auto simp: bindr_eq_Inr_iff dest: invar_add)

text \<open>After loading, the last user with a matching key answers.\<close>

lemma get_add_all:
  assumes "invar r" and "add_all add r us = Inr r'"
  shows "get r' i = (case find (\<lambda>u. key (user_uuid u) = key i) (rev us) of
      None \<Rightarrow> get r i | Some u \<Rightarrow> Some u)"
  using assms
proof (induction us arbitrary: r)
  case Nil
  then show ?case by simp
next
  case (Cons u us)
  then obtain r1 where a: "add r u = Inr r1" and l: "add_all add r1 us = Inr r'"
    by (auto simp: bindr_eq_Inr_iff)
  have "invar r1" using Cons.prems(1) a by (rule invar_add)
  from Cons.IH [OF this l] show ?case
    using get_add [OF Cons.prems(1) a, of i]
    by (auto simp: find_append split: option.splits)
qed

lemma get_add_all_in:
  assumes "invar r" and "add_all add r us = Inr r'" and "get r' i = Some u"
  shows "u \<in> set us \<or> get r i = Some u"
  using get_add_all [OF assms(1,2), of i] assms(3)
  by (auto split: option.splits dest: find_SomeD)

end

section \<open>The validator meets the contract\<close>

lemma validator_add_Inr:
  "validator_add lower v u = Inr v' \<longleftrightarrow>
     (email u \<noteq> [] \<longrightarrow> emails v (lower (email u)) = None) \<and>
     v' = v\<lparr>users := (users v)(process_uuid (user_uuid u) \<mapsto> u),
            emails := (if email u = [] then emails v else (emails v)(lower (email u) \<mapsto> u))\<rparr>"
  by (auto simp: validator_add_def Let_def)

lemma validator_del_Inr:
  "validator_del lower v em = Inr v' \<longleftrightarrow>
     (\<exists>u. emails v (lower em) = Some u \<and>
        v' = v\<lparr>emails := (emails v)(lower em := None),
               users := (users v)(process_uuid (user_uuid u) := None)\<rparr>)"
  by (auto simp: validator_del_def Let_def split: option.splits)

lemma validator_inv_new [simp]: "validator_inv lower validator_new"
  by (simp add: validator_inv_def validator_new_def)

lemma validator_inv_add:
  "validator_inv lower v \<Longrightarrow> validator_add lower v u = Inr v' \<Longrightarrow> validator_inv lower v'"
  by (auto simp: validator_add_Inr validator_inv_def split: if_splits)

lemma validator_inv_del:
  "validator_inv lower v \<Longrightarrow> validator_del lower v em = Inr v' \<Longrightarrow> validator_inv lower v'"
  by (auto simp: validator_del_Inr validator_inv_def split: if_splits)

interpretation vreg: user_registry validator_get "validator_add lower" process_uuid "validator_inv lower"
  for lower
proof
  fix r u r' i
  assume "validator_inv lower r" "validator_add lower r u = Inr r'"
  then show "validator_get r' i =
      (if process_uuid i = process_uuid (user_uuid u) then Some u else validator_get r i)"
    by (auto simp: validator_add_Inr validator_get_def)
next
  fix r u r'
  assume "validator_inv lower r" "validator_add lower r u = Inr r'"
  then show "validator_inv lower r'" by (rule validator_inv_add)
next
  fix r i u
  assume "validator_inv lower r" "validator_get r i = Some u"
  then show "process_uuid (user_uuid u) = process_uuid i"
    by (auto simp: validator_get_def validator_inv_def)
qed

lemma build_user_wf:
  "hex_halves hexd \<Longrightarrow> hash_len 32 sha256 \<Longrightarrow> build_user hexd sha256 md5 cf cu = Inr u \<Longrightarrow>
     wf_uuid (user_uuid u)"
  using parse_string_wf by (auto simp: build_user_def bindr_eq_Inr_iff map_err_eq_Inr_iff user_uuid_def ID_new_def Let_def)

lemma load_users_add_all:
  "load_users hexd sha256 md5 lower cf v cus = Inr v' \<Longrightarrow>
     \<exists>mus. list_all2 (\<lambda>cu mu. build_user hexd sha256 md5 cf cu = Inr mu) cus mus \<and>
       add_all (validator_add lower) v mus = Inr v'"
proof (induction cus arbitrary: v)
  case Nil
  then show ?case by simp
next
  case (Cons cu cus)
  then obtain mu v1 where b: "build_user hexd sha256 md5 cf cu = Inr mu"
    and a: "validator_add lower v mu = Inr v1"
    and l: "load_users hexd sha256 md5 lower cf v1 cus = Inr v'"
    by (auto simp: bindr_eq_Inr_iff)
  from Cons.IH [OF l] obtain mus where
    "list_all2 (\<lambda>cu mu. build_user hexd sha256 md5 cf cu = Inr mu) cus mus"
    and "add_all (validator_add lower) v1 mus = Inr v'" by blast
  with a b show ?case
    by (intro exI [of _ "mu # mus"]) simp
qed

lemma validator_inv_load:
  "load_users hexd sha256 md5 lower cf validator_new cus = Inr v \<Longrightarrow> validator_inv lower v"
  by (auto dest!: load_users_add_all intro: vreg.invar_add_all [OF validator_inv_new])

lemma loaded_user_configured:
  assumes l: "load_users hexd sha256 md5 lower cf validator_new cus = Inr v"
    and g: "validator_get v i = Some u"
  shows "(\<exists>cu \<in> set cus. build_user hexd sha256 md5 cf cu = Inr u) \<and>
    process_uuid (user_uuid u) = process_uuid i"
proof -
  from load_users_add_all [OF l] obtain mus where
    m: "list_all2 (\<lambda>cu mu. build_user hexd sha256 md5 cf cu = Inr mu) cus mus"
    and a: "add_all (validator_add lower) validator_new mus = Inr v" by blast
  have "u \<in> set mus"
    using vreg.get_add_all_in [OF validator_inv_new a g]
    by (simp add: validator_get_def validator_new_def)
  with m have "\<exists>cu \<in> set cus. build_user hexd sha256 md5 cf cu = Inr u"
    by (rule list_all2_in_right)
  moreover have "process_uuid (user_uuid u) = process_uuid i"
    using vreg.get_key [OF validator_inv_load [OF l] g] .
  ultimately show ?thesis ..
qed

text \<open>The set of users and their number agree.\<close>

lemma inj_on_emails: "validator_inv lower v \<Longrightarrow> inj_on (\<lambda>k. the (emails v k)) (dom (emails v))"
proof (rule inj_onI)
  fix x y
  assume i: "validator_inv lower v" and "x \<in> dom (emails v)" "y \<in> dom (emails v)"
    and e: "the (emails v x) = the (emails v y)"
  then obtain u where "emails v x = Some u" "emails v y = Some u" by auto
  then have "x = lower (email u)" and "y = lower (email u)"
    using i unfolding validator_inv_def by blast+
  then show "x = y" by simp
qed

lemma get_all_eq: "get_all v = (\<lambda>k. the (emails v k)) ` dom (emails v)"
  by (force simp: get_all_def ran_def image_def)

lemma get_count_card: "validator_inv lower v \<Longrightarrow> get_count v = card (get_all v)"
  by (simp add: get_all_eq get_count_def card_image [OF inj_on_emails])

text \<open>The registries that any sequence of successful operations reaches.\<close>

inductive registry_reachable :: "(rstr \<Rightarrow> rstr) \<Rightarrow> MemoryValidator \<Rightarrow> bool" for lower where
  reach_new: "registry_reachable lower validator_new"
| reach_add: "registry_reachable lower v \<Longrightarrow> validator_add lower v u = Inr v' \<Longrightarrow> registry_reachable lower v'"
| reach_del: "registry_reachable lower v \<Longrightarrow> validator_del lower v em = Inr v' \<Longrightarrow> registry_reachable lower v'"

lemma reachable_inv: "registry_reachable lower v \<Longrightarrow> validator_inv lower v"
  by (induction rule: registry_reachable.induct)
    (auto intro: validator_inv_add validator_inv_del)

lemma load_users_reachable:
  "registry_reachable lower v \<Longrightarrow> load_users hexd sha256 md5 lower cf v cus = Inr v' \<Longrightarrow>
     registry_reachable lower v'"
  by (induction cus arbitrary: v) (auto simp: bindr_eq_Inr_iff intro: reach_add)

text \<open>
  C12: the registry keeps its invariant. After any sequence of successful additions and deletions
  both maps are keyed by what their values say, a lookup by identifier returns a user with that
  routing key, a lookup by e-mail address returns a user with that address up to case, and the
  number of users reported is the number of users listed.
\<close>

theorem registry_invariant:
  assumes "registry_reachable lower v"
  shows "(validator_get v i = Some u \<longrightarrow> process_uuid (user_uuid u) = process_uuid i)
    \<and> (get_by_email lower v em = Some w \<longrightarrow> lower (email w) = lower em \<and> email w \<noteq> [])
    \<and> get_count v = card (get_all v)"
  using reachable_inv [OF assms] vreg.get_key [OF reachable_inv [OF assms], of i u]
    get_count_card [OF reachable_inv [OF assms]]
  by (auto simp: get_by_email_def validator_inv_def)

definition sample_user :: "bytes \<Rightarrow> rstr \<Rightarrow> MemoryUser" where
  "sample_user uuid em =
     \<lparr>account = \<lparr>acc_id = ID_new (\<lambda>_. replicate 16 0) uuid, acc_flow = [], acc_encryption = [],
        acc_udp = True, acc_xor_mode = 0, acc_seconds = 0, acc_padding = [], acc_testpre = 0,
        acc_testseed = []\<rparr>, email = em, level = 0\<rparr>"

theorem registry_invariant_witness:
  "\<exists>v. validator_add (\<lambda>e. e) validator_new (sample_user (replicate 16 7) (str ''a@b'')) = Inr v
     \<and> validator_get v (replicate 16 7) = Some (sample_user (replicate 16 7) (str ''a@b''))
     \<and> get_count v = card (get_all v)"
proof -
  obtain v where v: "validator_add (\<lambda>e. e) validator_new (sample_user (replicate 16 7) (str ''a@b'')) = Inr v"
    by (simp add: validator_add_Inr validator_new_def)
  have "user_uuid (sample_user (replicate 16 7) (str ''a@b'')) = replicate 16 7"
    by (simp add: user_uuid_def sample_user_def ID_new_def)
  then have "validator_get v (replicate 16 7) = Some (sample_user (replicate 16 7) (str ''a@b''))"
    using v by (auto simp: validator_add_Inr validator_get_def)
  then show ?thesis
    using v registry_invariant [OF reach_add [OF reach_new v]] by blast
qed

text \<open>
  Deleting by e-mail address can lock out another user. Two users whose identifiers differ
  only in the bytes the routing key ignores share one entry; deleting either address removes it,
  although the other user stays listed.
\<close>

theorem validator_del_collision:
  assumes "validator_inv lower v" and "emails v (lower a) = Some ua" and "emails v (lower b) = Some ub"
    and "lower a \<noteq> lower b" and "process_uuid (user_uuid ua) = process_uuid (user_uuid ub)"
    and "validator_del lower v a = Inr v'"
  shows "ub \<in> get_all v' \<and> validator_get v' (user_uuid ub) = None"
  using assms by (auto simp: validator_del_Inr get_all_def validator_get_def intro!: ranI [of _ "lower b"])

theorem validator_del_collision_witness:
  "\<exists>v v'. add_all (validator_add (\<lambda>e. e)) validator_new
       [sample_user (replicate 16 7) [97], sample_user ((replicate 16 7)[6 := 8]) [98]] = Inr v
     \<and> validator_del (\<lambda>e. e) v [97] = Inr v'
     \<and> sample_user ((replicate 16 7)[6 := 8]) [98] \<in> get_all v'
     \<and> validator_get v' ((replicate 16 7)[6 := 8]) = None"
proof -
  let ?a = "sample_user (replicate 16 7) [97]" and ?b = "sample_user ((replicate 16 7)[6 := 8]) [98]"
  have u: "user_uuid ?a = replicate 16 7" "user_uuid ?b = (replicate 16 7)[6 := 8]"
    "email ?a = [97]" "email ?b = [98]"
    by (simp_all add: user_uuid_def sample_user_def ID_new_def)
  obtain va where a: "validator_add (\<lambda>e. e) validator_new ?a = Inr va"
    by (simp add: validator_add_Inr validator_new_def)
  then obtain v where b: "validator_add (\<lambda>e. e) va ?b = Inr v"
    by (simp add: validator_add_Inr validator_new_def u)
  have e: "emails v [97] = Some ?a" "emails v [98] = Some ?b"
    using a b by (auto simp: validator_add_Inr validator_new_def u)
  then obtain v' where d: "validator_del (\<lambda>e. e) v [97] = Inr v'"
    by (simp add: validator_del_Inr)
  have k: "process_uuid (user_uuid ?a) = process_uuid (user_uuid ?b)"
    by (simp add: u process_uuid_def)
  have "validator_inv (\<lambda>e. e) v"
    using reachable_inv [OF reach_add [OF reach_add [OF reach_new a] b]] .
  from validator_del_collision [OF this _ _ _ k d] e u
  have "?b \<in> get_all v' \<and> validator_get v' ((replicate 16 7)[6 := 8]) = None" by simp
  moreover have "add_all (validator_add (\<lambda>e. e)) validator_new [?a, ?b] = Inr v"
    by (simp only: add_all.simps a b bindr_simps)
  ultimately show ?thesis using d by blast
qed

end
