(* ===== verification/Vless_Encoding.thy ===== *)
theory Vless_Encoding
  imports Protocol Validator
begin

text \<open>
  The VLESS codec (\<open>crates/vless-encoding\<close>): the addons block, request and response headers, and
  the length-prefixed packets that carry UDP. The protobuf messages are generated at build time by
  \<open>prost\<close>: encoding and decoding an \<open>Addons\<close> message are the parameters \<open>pb_enc\<close> and
  \<open>pb_dec\<close>.
\<close>

section \<open>Addons\<close>

record Addons =
  flow :: rstr

definition addons_default :: Addons where
  "addons_default = \<lparr>flow = []\<rparr>"

datatype AddonsError = Unmarshal | TooLarge nat | AddonsIo io_error

definition encode_header_addons :: "(Addons \<Rightarrow> bytes) \<Rightarrow> Addons \<Rightarrow> AddonsError + bytes" where
  "encode_header_addons pb_enc a =
     (if flow a = [] then Inr [0]
      else let b = pb_enc a in
        if length b > 255 then Inl (TooLarge (length b))
        else Inr (word_of_nat (length b) # b))"

definition decode_header_addons ::
  "(bytes \<Rightarrow> Addons option) \<Rightarrow> bytes \<Rightarrow> AddonsError + Addons \<times> bytes" where
  "decode_header_addons pb_dec bs =
     bindr (map_err AddonsIo (read_exact 1 bs)) (\<lambda>(lb, bs1).
       let length = unat (hd lb) in
       if length = 0 then Inr (addons_default, bs1)
       else bindr (map_err AddonsIo (read_exact length bs1)) (\<lambda>(pb, bs2).
         bindr (ok_or Unmarshal (pb_dec pb)) (\<lambda>a. Inr (a, bs2))))"

text \<open>
  What the program relies on of the generated code: a decoded message is the encoded one, and a
  message with a field set is not encoded to the empty string.
\<close>

definition pb_inverts :: "(Addons \<Rightarrow> bytes) \<Rightarrow> (bytes \<Rightarrow> Addons option) \<Rightarrow> bool" where
  "pb_inverts pb_enc pb_dec \<longleftrightarrow>
     (\<forall>a. pb_dec (pb_enc a) = Some a) \<and> (\<forall>a. flow a \<noteq> [] \<longrightarrow> pb_enc a \<noteq> [])"

section \<open>Request and response headers\<close>

datatype DecodeError =
  DecIo io_error | DecAddons AddonsError | InvalidVersion u8 | UserNotFound rstr
  | InvalidCommand u8 | AddressParse AddressParseError

record DecodedRequest =
  user_sent_id :: bytes
  header :: RequestHeader
  addons :: Addons

definition encode_request_header ::
  "(Addons \<Rightarrow> bytes) \<Rightarrow> RequestHeader \<Rightarrow> Addons \<Rightarrow> AddonsError + bytes" where
  "encode_request_header pb_enc request a =
     bindr (encode_header_addons pb_enc a) (\<lambda>ab.
       Inr ([version request] @ id_bytes (acc_id (account (user request))) @ ab
            @ [command_byte (command request)]
            @ (if command request \<noteq> CmdMux \<and> command request \<noteq> CmdRvs
               then write_address_port AddressParser_new (address request, port request)
               else [])))"

definition decode_destination ::
  "RequestCommand \<Rightarrow> bytes \<Rightarrow> AddressParseError + (Address \<times> Port) \<times> bytes" where
  "decode_destination c bs =
     (case c of
        CmdMux \<Rightarrow> Inr ((Domain (str ''v1.mux.cool''), Port 0), bs)
      | CmdRvs \<Rightarrow> Inr ((Domain (str ''v1.rvs.cool''), Port 0), bs)
      | CmdTcp \<Rightarrow> read_address_port AddressParser_new bs
      | CmdUdp \<Rightarrow> read_address_port AddressParser_new bs)"

definition decode_request_header ::
  "(bytes \<Rightarrow> Addons option) \<Rightarrow> (bytes \<Rightarrow> MemoryUser option) \<Rightarrow> bytes
     \<Rightarrow> DecodeError + DecodedRequest \<times> bytes" where
  "decode_request_header pb_dec lookup_user bs =
     bindr (map_err DecIo (read_exact 1 bs)) (\<lambda>(vb, bs1).
     if hd vb \<noteq> 0 then Inl (InvalidVersion (hd vb))
     else bindr (map_err DecIo (read_exact 16 bs1)) (\<lambda>(id_bytes, bs2).
     bindr (ok_or (UserNotFound (lower_hex id_bytes)) (lookup_user id_bytes)) (\<lambda>u.
     bindr (map_err DecAddons (decode_header_addons pb_dec bs2)) (\<lambda>(a, bs3).
     bindr (map_err DecIo (read_exact 1 bs3)) (\<lambda>(cb, bs4).
     bindr (ok_or (InvalidCommand (hd cb)) (command_from_byte (hd cb))) (\<lambda>c.
     bindr (map_err AddressParse (decode_destination c bs4)) (\<lambda>((ad, po), bs5).
     Inr (\<lparr>user_sent_id = id_bytes,
           header = \<lparr>version = hd vb, command = c, address = ad, port = po, user = u\<rparr>,
           addons = a\<rparr>, bs5))))))))"

definition encode_response_header ::
  "(Addons \<Rightarrow> bytes) \<Rightarrow> RequestHeader \<Rightarrow> Addons \<Rightarrow> AddonsError + bytes" where
  "encode_response_header pb_enc request a =
     bindr (encode_header_addons pb_enc a) (\<lambda>ab. Inr ([version request] @ ab))"

definition decode_response_header ::
  "(bytes \<Rightarrow> Addons option) \<Rightarrow> RequestHeader \<Rightarrow> bytes \<Rightarrow> DecodeError + Addons \<times> bytes" where
  "decode_response_header pb_dec request bs =
     bindr (map_err DecIo (read_exact 1 bs)) (\<lambda>(vb, bs1).
       if hd vb \<noteq> version request then Inl (InvalidVersion (hd vb))
       else map_err DecAddons (decode_header_addons pb_dec bs1))"

section \<open>Length-prefixed packets\<close>

datatype PacketReadError = PacketIo io_error | PacketTooLarge nat

definition MAX_PACKET_SIZE :: nat where
  "MAX_PACKET_SIZE = 65535"

definition write_packet :: "bytes \<Rightarrow> bytes" where
  "write_packet buf = be 2 (length buf) @ buf"

fun write_buffers :: "bytes list \<Rightarrow> bytes" where
  "write_buffers [] = []"
| "write_buffers (buf # bufs) =
     (let len = length buf in
      if len = 0 \<or> len + 2 > 65536 then write_buffers bufs
      else be 2 len @ buf @ write_buffers bufs)"

definition read_packet :: "bytes \<Rightarrow> PacketReadError + bytes \<times> bytes" where
  "read_packet bs =
     bindr (map_err PacketIo (read_exact 2 bs)) (\<lambda>(lb, bs1).
       let length = from_be lb in
       if length > MAX_PACKET_SIZE then Inl (PacketTooLarge length)
       else map_err PacketIo (read_exact length bs1))"

section \<open>The codec laws\<close>

lemma decode_encode_addons:
  assumes pb: "pb_inverts pb_enc pb_dec" and e: "encode_header_addons pb_enc a = Inr bs"
  shows "decode_header_addons pb_dec (bs @ rest) = Inr (a, rest)"
proof (cases "flow a = []")
  case True
  with e have "bs = [0]" and "a = addons_default"
    by (simp_all add: encode_header_addons_def addons_default_def)
  then show ?thesis by (simp add: decode_header_addons_def)
next
  case False
  with e have bs: "bs = word_of_nat (length (pb_enc a)) # pb_enc a" and l: "length (pb_enc a) < 256"
    by (auto simp: encode_header_addons_def Let_def split: if_splits)
  have "unat (word_of_nat (length (pb_enc a)) :: u8) = length (pb_enc a)"
    using l by (simp add: unat_of_nat_u8)
  moreover have "length (pb_enc a) \<noteq> 0" and "pb_dec (pb_enc a) = Some a"
    using pb False by (auto simp: pb_inverts_def)
  ultimately show ?thesis
    by (simp add: bs decode_header_addons_def)
qed

text \<open>What a decoded header looks like: the destination of a mux or reverse request is fixed.\<close>

definition decoded_address :: "RequestHeader \<Rightarrow> Address \<times> Port" where
  "decoded_address h =
     (case command h of
        CmdMux \<Rightarrow> (Domain (str ''v1.mux.cool''), Port 0)
      | CmdRvs \<Rightarrow> (Domain (str ''v1.rvs.cool''), Port 0)
      | _ \<Rightarrow> (address h, port h))"

lemma decode_destination_write:
  assumes "command h \<in> {CmdTcp, CmdUdp} \<longrightarrow> wire_address (address h)"
  shows "decode_destination (command h)
      ((if command h \<noteq> CmdMux \<and> command h \<noteq> CmdRvs
        then write_address_port AddressParser_new (address h, port h) else []) @ rest)
    = Inr (decoded_address h, rest)"
  using assms addr.dec_enc [of "(address h, port h)" rest]
  by (cases "command h") (auto simp: decode_destination_def decoded_address_def wire_address_port_def)

lemma decode_encode_request:
  assumes pb: "pb_inverts pb_enc pb_dec"
    and e: "encode_request_header pb_enc h a = Inr bs"
    and v: "version h = 0" and uid: "wf_uuid (user_uuid (user h))"
    and wa: "command h \<in> {CmdTcp, CmdUdp} \<longrightarrow> wire_address (address h)"
    and lk: "lookup (user_uuid (user h)) = Some u"
  shows "decode_request_header pb_dec lookup (bs @ rest) =
    Inr (\<lparr>user_sent_id = user_uuid (user h),
          header = \<lparr>version = 0, command = command h, address = fst (decoded_address h),
                    port = snd (decoded_address h), user = u\<rparr>,
          addons = a\<rparr>, rest)"
proof -
  obtain ab where ab: "encode_header_addons pb_enc a = Inr ab"
    and bs: "bs = [0] @ user_uuid (user h) @ ab @ [command_byte (command h)]
      @ (if command h \<noteq> CmdMux \<and> command h \<noteq> CmdRvs
         then write_address_port AddressParser_new (address h, port h) else [])"
    using e v by (auto simp: encode_request_header_def bindr_eq_Inr_iff id_bytes_def user_uuid_def)
  have r: "read_exact 16 (user_uuid (user h) @ xs) = Inr (user_uuid (user h), xs)" for xs
    using uid by (simp add: wf_uuid_def)
  show ?thesis
    unfolding bs decode_request_header_def
    using lk decode_destination_write [OF wa, of rest]
    by (simp add: r decode_encode_addons [OF pb ab] case_prod_unfold del: if_split)
qed

lemma decode_encode_response:
  assumes "pb_inverts pb_enc pb_dec" and "encode_response_header pb_enc h a = Inr bs"
  shows "decode_response_header pb_dec h (bs @ rest) = Inr (a, rest)"
proof -
  obtain ab where "encode_header_addons pb_enc a = Inr ab" and "bs = version h # ab"
    using assms(2) by (auto simp: encode_response_header_def bindr_eq_Inr_iff)
  then show ?thesis
    using decode_encode_addons [OF assms(1)] by (simp add: decode_response_header_def)
qed

text \<open>Acceptance requires the user: the lookup is consulted before anything else is parsed.\<close>

lemma decode_request_accepts:
  assumes "decode_request_header pb_dec lookup bs = Inr (d, rest)"
  shows "lookup (user_sent_id d) = Some (user (header d)) \<and> length (user_sent_id d) = 16
    \<and> version (header d) = 0 \<and> (\<exists>tl. bs = 0 # user_sent_id d @ tl)"
  using assms
  by (auto simp: decode_request_header_def bindr_eq_Inr_iff read_exact_Inr_iff length_Suc_conv
      split: if_splits)

lemma decode_request_unknown:
  assumes "length uid = 16" and "lookup uid = None"
  shows "decode_request_header pb_dec lookup (0 # uid @ rest) = Inl (UserNotFound (lower_hex uid))"
  using assms by (simp add: decode_request_header_def)

lemma decode_request_version:
  assumes "v \<noteq> 0"
  shows "decode_request_header pb_dec lookup (v # rest) = Inl (InvalidVersion v)"
  using assms by (simp add: decode_request_header_def)

section \<open>Packets form a codec\<close>

lemma from_be_be2: "length buf < 65536 \<Longrightarrow> from_be (be 2 (length buf)) = length buf"
  by (intro from_be_be_small) simp

interpretation packet: canonical_codec write_packet read_packet "\<lambda>buf. length buf < 65536"
proof
  fix x rest :: bytes
  assume "length x < 65536"
  then show "read_packet (write_packet x @ rest) = Inr (x, rest)"
    by (simp add: read_packet_def write_packet_def from_be_be2 MAX_PACKET_SIZE_def del: be_numeral)
next
  fix bs x rest
  assume "read_packet bs = Inr (x, rest)"
  then obtain lb where bs: "bs = lb @ x @ rest" and l: "length lb = 2" and x: "length x = from_be lb"
    by (auto simp: read_packet_def bindr_eq_Inr_iff read_exact_Inr_iff Let_def split: if_splits)
  have "from_be lb < 65536"
    using from_be_less [of lb] l by simp
  then show "length x < 65536 \<and> bs = write_packet x @ rest"
    using be_from_be [OF l] by (simp add: bs x write_packet_def del: be_numeral)
qed

lemma write_buffers_packets:
  "write_buffers bufs = concat (map write_packet (filter (\<lambda>b. b \<noteq> [] \<and> length b < 65535) bufs))"
  by (induction bufs) (auto simp: Let_def write_packet_def simp del: be_numeral)

text \<open>A concrete message format: the field as one tagged string, the form \<open>prost\<close> gives short strings.\<close>

definition pb_enc_ref :: "Addons \<Rightarrow> bytes" where
  "pb_enc_ref a = (if flow a = [] then [] else 0x0a # flow a)"

fun pb_dec_ref :: "bytes \<Rightarrow> Addons option" where
  "pb_dec_ref [] = Some \<lparr>flow = []\<rparr>"
| "pb_dec_ref (t # f) = Some \<lparr>flow = f\<rparr>"

lemma pb_inverts_ref: "pb_inverts pb_enc_ref pb_dec_ref"
  by (simp add: pb_inverts_def pb_enc_ref_def)

text \<open>
  C3: a request header decodes to what was encoded. The decoder returns the identifier, the
  command, the destination and the addons that the encoder wrote, the user its lookup gives for that
  identifier, and leaves the bytes after the header unread. A multiplexed or reverse request carries
  no destination and decodes to the reserved one of its command.
\<close>

theorem vless_request_roundtrip:
  assumes "pb_inverts pb_enc pb_dec" and "encode_request_header pb_enc h a = Inr bs"
    and "version h = 0" and "wf_uuid (user_uuid (user h))"
    and "command h \<in> {CmdTcp, CmdUdp} \<longrightarrow> wire_address (address h)"
    and "lookup (user_uuid (user h)) = Some u"
  shows "decode_request_header pb_dec lookup (bs @ rest) =
    Inr (\<lparr>user_sent_id = user_uuid (user h),
          header = \<lparr>version = 0, command = command h, address = fst (decoded_address h),
                    port = snd (decoded_address h), user = u\<rparr>,
          addons = a\<rparr>, rest)"
  by (rule decode_encode_request [where lookup = lookup and u = u, OF assms])

theorem vless_request_roundtrip_witness:
  "\<exists>bs. encode_request_header pb_enc_ref
       \<lparr>version = 0, command = CmdTcp, address = IPv4 [1, 2, 3, 4], port = Port 443,
        user = sample_user (replicate 16 7) []\<rparr> \<lparr>flow = [120]\<rparr> = Inr bs
     \<and> (\<exists>d. decode_request_header pb_dec_ref (\<lambda>_. Some (sample_user (replicate 16 7) [])) (bs @ [9])
           = Inr (d, [9]) \<and> address (header d) = IPv4 [1, 2, 3, 4] \<and> addons d = \<lparr>flow = [120]\<rparr>)"
proof -
  let ?h = "\<lparr>version = 0, command = CmdTcp, address = IPv4 [1, 2, 3, 4], port = Port 443,
    user = sample_user (replicate 16 7) []\<rparr>"
  have u: "wf_uuid (user_uuid (user ?h))"
    by (simp add: wf_uuid_def user_uuid_def sample_user_def ID_new_def)
  have w: "command ?h \<in> {CmdTcp, CmdUdp} \<longrightarrow> wire_address (address ?h)"
    by (simp add: wire_address_def)
  obtain bs where b: "encode_request_header pb_enc_ref ?h \<lparr>flow = [120]\<rparr> = Inr bs"
    by (simp add: encode_request_header_def encode_header_addons_def pb_enc_ref_def)
  have l: "(\<lambda>_. Some (sample_user (replicate 16 7) [])) (user_uuid (user ?h)) = Some (user ?h)"
    by simp
  show ?thesis
    using b vless_request_roundtrip [where rest = "[9]" and lookup = "\<lambda>_. Some (sample_user (replicate 16 7) [])", OF pb_inverts_ref b _ u w l]
    by (simp add: decoded_address_def)
qed

text \<open>
  C14: length-prefixed packets delimit themselves. A reader recovers, packet by packet, what the
  buffered writer sent: the buffers in order, except the empty ones and those of 65535 bytes or
  more, which the writer drops.
\<close>

theorem packets_roundtrip:
  "decode_n read_packet (length (filter (\<lambda>b. b \<noteq> [] \<and> length b < 65535) bufs)) (write_buffers bufs @ rest)
     = Inr (filter (\<lambda>b. b \<noteq> [] \<and> length b < 65535) bufs, rest)"
  unfolding write_buffers_packets
  by (intro packet.decode_n_concat) (auto simp: list_all_iff)

end
