(* ===== verification/Tape.thy ===== *)
theory Tape
  imports Prelude
begin

text \<open>
  Blocking reads that can fail part-way. A \<open>tape\<close> is everything an input stream will ever give:
  bytes, and the errors its \<open>read\<close> calls will return in between (a timeout, a would-block). The
  empty tape is end of file. A reading computation takes the tape and returns a result and the
  tape after it: what it consumed is gone, also when it fails.
\<close>

type_synonym tape = "(io_error + u8) list"
type_synonym ('e, 'a) reads = "tape \<Rightarrow> ('e + 'a) \<times> tape"

definition retT :: "'a \<Rightarrow> ('e, 'a) reads" where
  "retT x t = (Inr x, t)"

definition errT :: "'e \<Rightarrow> ('e, 'a) reads" where
  "errT e t = (Inl e, t)"

definition bindT :: "('e, 'a) reads \<Rightarrow> ('a \<Rightarrow> ('e, 'b) reads) \<Rightarrow> ('e, 'b) reads" where
  "bindT m f t = (case m t of (Inl e, t') \<Rightarrow> (Inl e, t') | (Inr x, t') \<Rightarrow> f x t')"

definition liftT :: "'e + 'a \<Rightarrow> ('e, 'a) reads" where
  "liftT r t = (r, t)"

text \<open>
  The loop of \<open>read_exact\<close>: \<open>read\<close> until \<open>n\<close> bytes are there. How the bytes are cut into reads does
  not show; \<open>Interrupted\<close> is retried; any other error ends it and drops the bytes read so far.
\<close>

fun read_exactT :: "(io_error \<Rightarrow> 'e) \<Rightarrow> nat \<Rightarrow> ('e, bytes) reads" where
  "read_exactT io 0 t = (Inr [], t)"
| "read_exactT io (Suc n) [] = (Inl (io UnexpectedEof), [])"
| "read_exactT io (Suc n) (Inr b # t) =
     (case read_exactT io n t of (Inl e, t') \<Rightarrow> (Inl e, t') | (Inr bs, t') \<Rightarrow> (Inr (b # bs), t'))"
| "read_exactT io (Suc n) (Inl e # t) =
     (if e = Interrupted then read_exactT io (Suc n) t else (Inl (io e), t))"

text \<open>A tape with bytes only.\<close>

abbreviation bytesT :: "bytes \<Rightarrow> tape" where
  "bytesT bs \<equiv> map Inr bs"

lemma retT_run [simp]: "retT x t = (Inr x, t)" by (simp add: retT_def)

lemma errT_run [simp]: "errT e t = (Inl e, t)" by (simp add: errT_def)

lemma liftT_run [simp]: "liftT r t = (r, t)" by (simp add: liftT_def)

lemma bindT_Inr: "m t = (Inr x, t') \<Longrightarrow> bindT m f t = f x t'"
  by (simp add: bindT_def)

lemma bindT_Inl: "m t = (Inl e, t') \<Longrightarrow> bindT m f t = (Inl e, t')"
  by (simp add: bindT_def)

lemma bindT_eq_Inr_iff:
  "bindT m f t = (Inr y, t'') \<longleftrightarrow> (\<exists>x t'. m t = (Inr x, t') \<and> f x t' = (Inr y, t''))"
  by (auto simp: bindT_def split: sum.splits prod.splits)

lemma read_exactT_bytes [simp]:
  "length xs = n \<Longrightarrow> read_exactT io n (bytesT xs @ t) = (Inr xs, t)"
  by (induction xs arbitrary: n) auto

lemma read_exactT_bytes_all [simp]:
  "length xs = n \<Longrightarrow> read_exactT io n (bytesT xs) = (Inr xs, [])"
  using read_exactT_bytes [of xs n io "[]"] by simp

lemma read_exactT_short:
  "length xs < n \<Longrightarrow> read_exactT io n (bytesT xs) = (Inl (io UnexpectedEof), [])"
proof (induction xs arbitrary: n)
  case Nil
  then show ?case by (cases n) auto
next
  case (Cons x xs)
  then show ?case by (cases n) auto
qed

lemma read_exactT_shrinks:
  "read_exactT io n t = (Inr bs, t') \<Longrightarrow> length bs = n \<and> length t' + n \<le> length t"
  by (induction io n t arbitrary: bs rule: read_exactT.induct)
    (fastforce split: sum.splits prod.splits if_splits)+

lemma read_exactT_bytes_iff:
  "read_exactT io n (bytesT bs) = (Inr xs, t) \<longleftrightarrow> length xs = n \<and> (\<exists>ys. bs = xs @ ys \<and> t = bytesT ys)"
proof (cases "n \<le> length bs")
  case True
  then have "read_exactT io n (bytesT (take n bs) @ bytesT (drop n bs)) = (Inr (take n bs), bytesT (drop n bs))"
    by (intro read_exactT_bytes) simp
  then have "read_exactT io n (bytesT bs) = (Inr (take n bs), bytesT (drop n bs))"
    by (simp flip: map_append)
  with True show ?thesis by (auto simp: append_eq_conv_conj)
next
  case False
  then show ?thesis by (auto simp: read_exactT_short)
qed

lemma read_exactT_length: "read_exactT io n t = (r, t') \<Longrightarrow> length t' \<le> length t"
  by (induction io n t arbitrary: r rule: read_exactT.induct)
    (fastforce split: sum.splits prod.splits if_splits)+

text \<open>Reading never lengthens the tape; the rules follow the shape of the computation.\<close>

definition nongrowing :: "('e, 'a) reads \<Rightarrow> bool" where
  "nongrowing m \<longleftrightarrow> (\<forall>t r t'. m t = (r, t') \<longrightarrow> length t' \<le> length t)"

named_theorems tape_intros

lemma nongrowing_ret [tape_intros]: "nongrowing (retT x)"
  and nongrowing_err [tape_intros]: "nongrowing (errT e)"
  and nongrowing_lift [tape_intros]: "nongrowing (liftT r)"
  by (simp_all add: nongrowing_def)

lemma nongrowing_read [tape_intros]: "nongrowing (read_exactT io n)"
  using read_exactT_length by (auto simp: nongrowing_def)

lemma nongrowing_bind [tape_intros]:
  assumes "nongrowing m" and "\<And>x. nongrowing (f x)"
  shows "nongrowing (bindT m f)"
  using assms by (fastforce simp: nongrowing_def bindT_def split: sum.splits prod.splits intro: order_trans)

lemma nongrowing_if [tape_intros]:
  "nongrowing a \<Longrightarrow> nongrowing b \<Longrightarrow> nongrowing (if c then a else b)"
  by simp

lemma nongrowing_let [tape_intros]: "(\<And>x. nongrowing (f x)) \<Longrightarrow> nongrowing (Let v f)"
  by simp

lemma bind_read_shrinks:
  assumes "bindT (read_exactT io (Suc n)) f t = (Inr x, t')" and "\<And>h. nongrowing (f h)"
  shows "length t' < length t"
  using assms by (fastforce simp: bindT_eq_Inr_iff nongrowing_def dest!: read_exactT_shrinks)

end
