(* ===== verification/Rust_Str.thy ===== *)
theory Rust_Str
  imports Utf8
begin

text \<open>
  The functions of \<open>str\<close> that the text parsers use, on UTF-8 byte lists: Unicode white space,
  \<open>trim\<close>, \<open>split_whitespace\<close>, \<open>lines\<close>, \<open>split_once\<close>, \<open>contains\<close>, ASCII case mapping, and
  \<open>parse\<close> and \<open>to_string\<close> of unsigned integers. UTF-8 is self-synchronising, so searching for an
  encoded character is searching for its bytes.
\<close>

section \<open>White space\<close>

text \<open>The encodings of the characters of which \<open>char::is_whitespace\<close> holds.\<close>

definition ws_encodings :: "bytes list" where
  "ws_encodings =
     [[0x09], [0x0a], [0x0b], [0x0c], [0x0d], [0x20], [0xc2, 0x85], [0xc2, 0xa0], [0xe1, 0x9a, 0x80],
      [0xe2, 0x80, 0x80], [0xe2, 0x80, 0x81], [0xe2, 0x80, 0x82], [0xe2, 0x80, 0x83],
      [0xe2, 0x80, 0x84], [0xe2, 0x80, 0x85], [0xe2, 0x80, 0x86], [0xe2, 0x80, 0x87],
      [0xe2, 0x80, 0x88], [0xe2, 0x80, 0x89], [0xe2, 0x80, 0x8a], [0xe2, 0x80, 0xa8],
      [0xe2, 0x80, 0xa9], [0xe2, 0x80, 0xaf], [0xe2, 0x81, 0x9f], [0xe3, 0x80, 0x80]]"

definition starts_with :: "bytes \<Rightarrow> bytes \<Rightarrow> bool" where
  "starts_with s p \<longleftrightarrow> take (length p) s = p"

text \<open>The length of the white-space character at the front, 0 if there is none.\<close>

definition ws_len :: "bytes list \<Rightarrow> bytes \<Rightarrow> nat" where
  "ws_len encs s = (case find (starts_with s) encs of None \<Rightarrow> 0 | Some e \<Rightarrow> length e)"

function strip_front :: "bytes list \<Rightarrow> bytes \<Rightarrow> bytes" where
  "strip_front encs s =
     (let n = ws_len encs s in if n = 0 \<or> s = [] then s else strip_front encs (drop n s))"
  by pat_completeness auto
termination
  by (relation "measure (\<lambda>(e, s). length s)") auto

declare strip_front.simps [simp del]

definition trim_start :: "rstr \<Rightarrow> rstr" where
  "trim_start s = strip_front ws_encodings s"

definition trim_end :: "rstr \<Rightarrow> rstr" where
  "trim_end s = rev (strip_front (map rev ws_encodings) (rev s))"

definition trim :: "rstr \<Rightarrow> rstr" where
  "trim s = trim_end (trim_start s)"

text \<open>\<open>split_whitespace\<close>: the maximal non-empty runs without white space.\<close>

function split_ws :: "bytes \<Rightarrow> rstr \<Rightarrow> rstr list" where
  "split_ws acc s =
     (if s = [] then (if acc = [] then [] else [rev acc])
      else let n = ws_len ws_encodings s in
        if n = 0 then split_ws (hd s # acc) (tl s)
        else (if acc = [] then [] else [rev acc]) @ split_ws [] (drop n s))"
  by pat_completeness auto
termination
  by (relation "measure (\<lambda>(a, s). length s)") auto

declare split_ws.simps [simp del]

definition split_whitespace :: "rstr \<Rightarrow> rstr list" where
  "split_whitespace s = split_ws [] s"

section \<open>Searching and splitting\<close>

text \<open>The first position of a pattern, as \<open>find\<close> and \<open>windows(n).position\<close> give it.\<close>

fun find_sub :: "bytes \<Rightarrow> bytes \<Rightarrow> nat option" where
  "find_sub p [] = (if p = [] then Some 0 else None)"
| "find_sub p (b # bs) =
     (if starts_with (b # bs) p then Some 0 else map_option Suc (find_sub p bs))"

definition str_contains :: "rstr \<Rightarrow> rstr \<Rightarrow> bool" where
  "str_contains s p \<longleftrightarrow> find_sub p s \<noteq> None"

definition split_once :: "u8 \<Rightarrow> rstr \<Rightarrow> (rstr \<times> rstr) option" where
  "split_once c s =
     (if c \<in> set s then Some (takeWhile (\<lambda>b. b \<noteq> c) s, tl (dropWhile (\<lambda>b. b \<noteq> c) s)) else None)"

text \<open>\<open>split(c)\<close> on one character: at least one piece.\<close>

fun split_on :: "u8 \<Rightarrow> rstr \<Rightarrow> rstr list" where
  "split_on c [] = [[]]"
| "split_on c (b # bs) =
     (if b = c then [] # split_on c bs
      else case split_on c bs of [] \<Rightarrow> [[b]] | p # ps \<Rightarrow> (b # p) # ps)"

text \<open>\<open>lines\<close>: ends at a line feed, with a carriage return before it removed; no last empty line.\<close>

definition strip_cr :: "rstr \<Rightarrow> rstr" where
  "strip_cr l = (if l \<noteq> [] \<and> last l = 0x0d then butlast l else l)"

definition lines :: "rstr \<Rightarrow> rstr list" where
  "lines s =
     (let ps = split_on 0x0a s; body = butlast ps; rest = last ps
      in map strip_cr body @ (if rest = [] then [] else [rest]))"

section \<open>ASCII case\<close>

definition ascii_lower :: "u8 \<Rightarrow> u8" where
  "ascii_lower b = (if 0x41 \<le> b \<and> b \<le> 0x5a then b + 0x20 else b)"

definition to_ascii_lowercase :: "rstr \<Rightarrow> rstr" where
  "to_ascii_lowercase s = map ascii_lower s"

definition eq_ignore_ascii_case :: "rstr \<Rightarrow> rstr \<Rightarrow> bool" where
  "eq_ignore_ascii_case a b \<longleftrightarrow> to_ascii_lowercase a = to_ascii_lowercase b"

lemma ascii_lower_idem [simp]: "ascii_lower (ascii_lower b) = ascii_lower b"
proof (cases "0x41 \<le> b \<and> b \<le> 0x5a")
  case True
  then have "unat (b + 0x20) = unat b + 32" and "65 \<le> unat b"
    by (simp_all add: word_le_nat_alt unat_word_ariths)
  then show ?thesis using True by (simp add: ascii_lower_def word_le_nat_alt)
next
  case False
  then show ?thesis by (simp add: ascii_lower_def)
qed

section \<open>Unsigned integers\<close>

definition digit_value :: "u8 \<Rightarrow> nat option" where
  "digit_value c = (if 0x30 \<le> c \<and> c \<le> 0x39 then Some (unat c - 48) else None)"

fun parse_digits :: "int \<Rightarrow> int \<Rightarrow> bytes \<Rightarrow> int option" where
  "parse_digits bound acc [] = Some acc"
| "parse_digits bound acc (c # cs) =
     (case digit_value c of None \<Rightarrow> None
      | Some d \<Rightarrow> let v = acc * 10 + int d in if v < bound then parse_digits bound v cs else None)"

text \<open>
  \<open>str::parse\<close> at an unsigned type with values below \<open>bound\<close>: one optional plus sign, at least one
  digit, and no overflow.
\<close>

definition parse_uint :: "int \<Rightarrow> rstr \<Rightarrow> nat option" where
  "parse_uint bound s =
     (let ds = (if s \<noteq> [] \<and> hd s = 0x2b then tl s else s)
      in if ds = [] then None else map_option nat (parse_digits bound 0 ds))"

fun show_nat :: "nat \<Rightarrow> rstr" where
  "show_nat n = (if n < 10 then [word_of_nat (48 + n)] else show_nat (n div 10) @ [word_of_nat (48 + n mod 10)])"

declare show_nat.simps [simp del]

lemma digit_value_digit: "d < 10 \<Longrightarrow> digit_value (word_of_nat (48 + d)) = Some d"
  by (simp add: digit_value_def word_le_nat_alt unat_of_nat del: of_nat_add)

lemma parse_digits_append:
  "parse_digits bound acc (xs @ ys) =
     (case parse_digits bound acc xs of None \<Rightarrow> None | Some v \<Rightarrow> parse_digits bound v ys)"
  by (induction xs arbitrary: acc) (auto simp: Let_def split: option.splits)

lemma parse_digits_show: "int n < bound \<Longrightarrow> parse_digits bound 0 (show_nat n) = Some (int n)"
proof (induction n rule: show_nat.induct)
  case (1 n)
  show ?case
  proof (cases "n < 10")
    case True
    then show ?thesis
      using 1 digit_value_digit [OF True]
      by (subst show_nat.simps) (simp add: Let_def del: of_nat_add)
  next
    case False
    have "int (n div 10) * 10 + int (n mod 10) = int n"
      by (metis div_mult_mod_eq of_nat_add of_nat_mult of_nat_numeral)
    moreover have "parse_digits bound 0 (show_nat (n div 10)) = Some (int (n div 10))"
      using 1 False by (simp add: zdiv_int)
    ultimately show ?thesis
      using 1(2) False digit_value_digit [of "n mod 10"]
      by (subst show_nat.simps) (simp add: parse_digits_append Let_def del: of_nat_add)
  qed
qed

lemma show_nat_not_Nil [simp]: "show_nat n \<noteq> []"
  by (subst show_nat.simps) simp

lemma show_nat_digits: "c \<in> set (show_nat n) \<Longrightarrow> 0x30 \<le> c \<and> c \<le> 0x39"
proof (induction n rule: show_nat.induct)
  case (1 n)
  have d: "0x30 \<le> (word_of_nat (48 + d) :: u8) \<and> (word_of_nat (48 + d) :: u8) \<le> 0x39" if "d < 10" for d
    using that by (simp add: word_le_nat_alt unat_of_nat del: of_nat_add)
  from 1 d show ?case
    by (subst (asm) show_nat.simps) (auto split: if_splits simp del: of_nat_add)
qed

lemma parse_uint_show: "int n < bound \<Longrightarrow> parse_uint bound (show_nat n) = Some n"
proof -
  assume n: "int n < bound"
  have "hd (show_nat n) \<noteq> 0x2b"
    using show_nat_digits [of "hd (show_nat n)" n] hd_in_set [of "show_nat n"]
    by (auto simp: word_le_nat_alt)
  then show ?thesis using n by (simp add: parse_uint_def parse_digits_show Let_def)
qed

section \<open>Where a pattern is found\<close>

lemma starts_with_iff: "starts_with s p \<longleftrightarrow> (\<exists>r. s = p @ r)"
  by (auto simp: starts_with_def) (metis append_take_drop_id)

lemma find_sub_Some:
  "find_sub p s = Some i \<Longrightarrow>
     s = take i s @ p @ drop (i + length p) s \<and> (\<forall>j < i. \<not> starts_with (drop j s) p)"
proof (induction s arbitrary: i)
  case Nil
  then show ?case by (simp split: if_splits)
next
  case (Cons b s)
  show ?case
  proof (cases "starts_with (b # s) p")
    case True
    then show ?thesis using Cons.prems by (auto simp: starts_with_iff)
  next
    case False
    then obtain k where k: "find_sub p s = Some k" "i = Suc k" using Cons.prems by auto
    from Cons.IH [OF k(1)] False show ?thesis
      by (auto simp: k(2) less_Suc_eq_0_disj)
  qed
qed

lemma find_sub_None: "find_sub p s = None \<longleftrightarrow> (\<nexists>a b. s = a @ p @ b)"
proof (induction s)
  case Nil
  then show ?case by simp
next
  case (Cons b s)
  have "(\<exists>a c. b # s = a @ p @ c) \<longleftrightarrow> starts_with (b # s) p \<or> (\<exists>a c. s = a @ p @ c)"
    by (auto simp: starts_with_iff Cons_eq_append_conv)
  with Cons.IH show ?case by auto
qed

end
