(* ===== verification/Websocket.thy ===== *)
theory Websocket
  imports Tape Rust_Str Codec
begin

unbundle bit_operations_syntax

text \<open>
  WebSocket (\<open>crates/websocket\<close>): the frame codec (\<open>frame.rs\<close>), the stream that hides the frames
  (\<open>stream.rs\<close>) and the HTTP upgrade (\<open>upgrade.rs\<close>). The random mask key is an argument, and so are
  SHA-1 and Base64. The stream's input is a tape; its output is the list of bytes written, and
  writing does not fail.
\<close>

section \<open>Frames\<close>

definition MAX_FRAME_SIZE :: nat where "MAX_FRAME_SIZE = 256 * 1024"

definition MAX_CTRL_PAYLOAD :: nat where "MAX_CTRL_PAYLOAD = 125"

datatype Opcode = OpText | OpBinary | OpClose | OpPing | OpPong

fun opcode_byte :: "Opcode \<Rightarrow> u8" where
  "opcode_byte OpText = 0x01"
| "opcode_byte OpBinary = 0x02"
| "opcode_byte OpClose = 0x08"
| "opcode_byte OpPing = 0x09"
| "opcode_byte OpPong = 0x0A"

definition opcode_from_u8 :: "u8 \<Rightarrow> Opcode option" where
  "opcode_from_u8 v =
     (if v = 0x01 then Some OpText else if v = 0x02 then Some OpBinary
      else if v = 0x08 then Some OpClose else if v = 0x09 then Some OpPing
      else if v = 0x0A then Some OpPong else None)"

record Frame =
  fin :: bool
  opcode :: Opcode
  payload :: bytes

datatype FrameError =
  FrameIo io_error | InvalidOpcode u8 | PayloadTooLarge nat | ControlPayloadTooLarge nat | NotMasked

text \<open>Byte \<open>i\<close> is combined with byte \<open>i mod 4\<close> of the key.\<close>

definition apply_mask :: "bytes \<Rightarrow> bytes \<Rightarrow> bytes" where
  "apply_mask mk bs = map (\<lambda>(i, b). b XOR mk ! (i mod 4)) (enumerate 0 bs)"

definition read_payload_len :: "nat \<Rightarrow> (FrameError, nat) reads" where
  "read_payload_len n =
     (if n = 126 then bindT (read_exactT FrameIo 2) (\<lambda>ext. retT (unat (u16_of_be ext)))
      else if n = 127 then bindT (read_exactT FrameIo 8) (\<lambda>ext. retT (unat (u64_of_be ext)))
      else retT n)"

definition read_frame :: "bool \<Rightarrow> (FrameError, Frame) reads" where
  "read_frame require_masked =
     bindT (read_exactT FrameIo 2) (\<lambda>head.
     let b0 = head ! 0; b1 = head ! 1 in
     bindT (liftT (ok_or (InvalidOpcode (b0 AND 0x0F)) (opcode_from_u8 (b0 AND 0x0F)))) (\<lambda>op.
     let masked = (b1 AND 0x80 \<noteq> 0) in
     bindT (read_payload_len (unat (b1 AND 0x7F))) (\<lambda>payload_len.
     if payload_len > MAX_FRAME_SIZE then errT (PayloadTooLarge payload_len)
     else if op \<noteq> OpBinary \<and> op \<noteq> OpText \<and> payload_len > MAX_CTRL_PAYLOAD
     then errT (ControlPayloadTooLarge payload_len)
     else if require_masked \<and> \<not> masked then errT NotMasked
     else
       bindT (if masked then bindT (read_exactT FrameIo 4) (\<lambda>mk. retT (Some mk)) else retT None) (\<lambda>mask_key.
       bindT (read_exactT FrameIo payload_len) (\<lambda>body.
       retT \<lparr>fin = (b0 AND 0x80 \<noteq> 0), opcode = op,
             payload = (case mask_key of None \<Rightarrow> body | Some mk \<Rightarrow> apply_mask mk body)\<rparr>)))))"

definition frame_head :: "bool \<Rightarrow> Frame \<Rightarrow> bytes" where
  "frame_head masked f =
     (let len = length (payload f); mask_byte = (if masked then 0x80 else 0) :: u8 in
      ((if fin f then 0x80 else 0) OR opcode_byte (opcode f))
      # (if len < 126 then [mask_byte OR word_of_nat len]
         else if len \<le> 65535 then (mask_byte OR 126) # u16_be (word_of_nat len)
         else (mask_byte OR 127) # u64_be (word_of_nat len)))"

text \<open>\<open>write_frame\<close>: the key is \<open>Some\<close> random bytes when \<open>masked\<close> is set.\<close>

definition write_frame :: "bytes option \<Rightarrow> Frame \<Rightarrow> bytes" where
  "write_frame mask_key f =
     (case mask_key of
        None \<Rightarrow> frame_head False f @ payload f
      | Some mk \<Rightarrow> frame_head True f @ mk @ apply_mask mk (payload f))"

definition write_binary :: "bytes \<Rightarrow> bytes" where
  "write_binary data = write_frame None \<lparr>fin = True, opcode = OpBinary, payload = data\<rparr>"

definition write_ping :: "bytes \<Rightarrow> FrameError + bytes" where
  "write_ping data =
     (if length data > MAX_CTRL_PAYLOAD then Inl (ControlPayloadTooLarge (length data))
      else Inr (write_frame None \<lparr>fin = True, opcode = OpPing, payload = data\<rparr>))"

definition write_pong :: "bytes \<Rightarrow> FrameError + bytes" where
  "write_pong data =
     (if length data > MAX_CTRL_PAYLOAD then Inl (ControlPayloadTooLarge (length data))
      else Inr (write_frame None \<lparr>fin = True, opcode = OpPong, payload = data\<rparr>))"

definition write_close :: "u16 \<Rightarrow> bytes" where
  "write_close code = write_frame None \<lparr>fin = True, opcode = OpClose, payload = u16_be code\<rparr>"

lemma read_payload_len_nongrowing [tape_intros]: "nongrowing (read_payload_len n)"
  unfolding read_payload_len_def by (intro tape_intros)

lemma read_frame_shrinks: "read_frame rm t = (Inr f, t') \<Longrightarrow> length t' < length t"
  unfolding read_frame_def numeral_2_eq_2
  by (erule bind_read_shrinks) (intro tape_intros)

section \<open>The stream\<close>

record WebSocketStream =
  ws_in :: tape
  ws_out :: bytes
  read_buf :: bytes
  read_pos :: nat
  closed :: bool

definition websocket_new :: "tape \<Rightarrow> bytes \<Rightarrow> WebSocketStream" where
  "websocket_new inner initial =
     \<lparr>ws_in = inner, ws_out = [], read_buf = initial, read_pos = 0, closed = False\<rparr>"

definition buf_remaining :: "WebSocketStream \<Rightarrow> nat" where
  "buf_remaining s = length (read_buf s) - read_pos s"

text \<open>\<open>fill_buffer\<close>: pings are answered and pongs skipped until a frame decides.\<close>

definition fill_error :: "FrameError \<Rightarrow> io_error" where
  "fill_error e =
     (case e of FrameIo i \<Rightarrow> if i = WouldBlock \<or> i = TimedOut then i else OtherIo | _ \<Rightarrow> OtherIo)"

definition pong_reply :: "bytes \<Rightarrow> bytes" where
  "pong_reply p = (case write_pong p of Inl _ \<Rightarrow> [] | Inr bs \<Rightarrow> bs)"

function fill_buffer :: "WebSocketStream \<Rightarrow> (io_error + bool) \<times> WebSocketStream" where
  "fill_buffer s =
     (case read_frame True (ws_in s) of
        (Inl e, t) \<Rightarrow> (Inl (fill_error e), s\<lparr>ws_in := t\<rparr>)
      | (Inr f, t) \<Rightarrow>
          (case opcode f of
             OpBinary \<Rightarrow> (Inr True, s\<lparr>ws_in := t, read_buf := payload f, read_pos := 0\<rparr>)
           | OpText \<Rightarrow> (Inl OtherIo, s\<lparr>ws_in := t\<rparr>)
           | OpPing \<Rightarrow> fill_buffer (s\<lparr>ws_in := t, ws_out := ws_out s @ pong_reply (payload f)\<rparr>)
           | OpPong \<Rightarrow> fill_buffer (s\<lparr>ws_in := t\<rparr>)
           | OpClose \<Rightarrow> (Inr False, s\<lparr>ws_in := t, ws_out := ws_out s @ write_close 1000,
                                     closed := True, read_buf := [], read_pos := 0\<rparr>)))"
  by pat_completeness auto
termination
  by (relation "measure (\<lambda>s. length (ws_in s))") (auto dest: read_frame_shrinks [OF sym])

declare fill_buffer.simps [simp del]

definition serve :: "nat \<Rightarrow> WebSocketStream \<Rightarrow> bytes \<times> WebSocketStream" where
  "serve buf_len s =
     (let n = min (buf_remaining s) buf_len
      in (take n (drop (read_pos s) (read_buf s)), s\<lparr>read_pos := read_pos s + n\<rparr>))"

definition ws_read :: "nat \<Rightarrow> WebSocketStream \<Rightarrow> (io_error + bytes) \<times> WebSocketStream" where
  "ws_read buf_len s =
     (if closed s then (Inr [], s)
      else if buf_remaining s > 0 then (case serve buf_len s of (d, s') \<Rightarrow> (Inr d, s'))
      else case fill_buffer s of
        (Inr True, s') \<Rightarrow> (case serve buf_len s' of (d, s'') \<Rightarrow> (Inr d, s''))
      | (Inr False, s') \<Rightarrow> (Inr [], s')
      | (Inl e, s') \<Rightarrow> (Inl e, s'))"

definition ws_write :: "bytes \<Rightarrow> WebSocketStream \<Rightarrow> nat \<times> WebSocketStream" where
  "ws_write buf s = (length buf, s\<lparr>ws_out := ws_out s @ write_binary buf\<rparr>)"

definition ws_write_close :: "u16 \<Rightarrow> WebSocketStream \<Rightarrow> WebSocketStream" where
  "ws_write_close code s = s\<lparr>ws_out := ws_out s @ write_close code\<rparr>"


section \<open>Frames are a codec\<close>

lemma length_apply_mask [simp]: "length (apply_mask mk bs) = length bs"
  by (simp add: apply_mask_def)

lemma nth_apply_mask: "i < length bs \<Longrightarrow> apply_mask mk bs ! i = bs ! i XOR mk ! (i mod 4)"
  by (simp add: apply_mask_def nth_enumerate_eq)

lemma apply_mask_twice [simp]: "apply_mask mk (apply_mask mk bs) = bs"
  by (rule nth_equalityI) (simp_all add: nth_apply_mask xor.assoc)

lemma low_bits:
  "list_all (\<lambda>n. let x = word_of_nat n :: u8 in
     (0x80 OR x) AND 0x7F = x \<and> (0x80 OR x) AND 0x80 \<noteq> 0 \<and> x AND 0x7F = x \<and> x AND 0x80 = 0) [0..<128]"
  by code_simp

lemma low_bits_nat:
  assumes "n < 128"
  shows "(0x80 OR word_of_nat n :: u8) AND 0x7F = word_of_nat n"
    and "(0x80 OR word_of_nat n :: u8) AND 0x80 \<noteq> 0"
    and "(word_of_nat n :: u8) AND 0x7F = word_of_nat n" and "(word_of_nat n :: u8) AND 0x80 = 0"
  using low_bits assms unfolding list_all_iff by (auto simp: Let_def)

lemma head_byte:
  "((if f then 0x80 else 0) OR opcode_byte op) AND 0x0F = opcode_byte op"
  "((if f then 0x80 else 0) OR opcode_byte op) AND 0x80 \<noteq> 0 \<longleftrightarrow> f"
  by (cases op; simp)+

lemma opcode_from_byte [simp]: "opcode_from_u8 (opcode_byte op) = Some op"
  by (cases op) (simp_all add: opcode_from_u8_def)

definition wf_frame :: "Frame \<Rightarrow> bool" where
  "wf_frame f \<longleftrightarrow> length (payload f) \<le> MAX_FRAME_SIZE
     \<and> (opcode f \<noteq> OpBinary \<and> opcode f \<noteq> OpText \<longrightarrow> length (payload f) \<le> MAX_CTRL_PAYLOAD)"

definition wf_mask :: "bool \<Rightarrow> bytes option \<Rightarrow> bool" where
  "wf_mask require mk \<longleftrightarrow> (case mk of None \<Rightarrow> \<not> require | Some k \<Rightarrow> length k = 4)"

text \<open>The three forms of the length field, read back.\<close>

lemma mask_len_byte:
  assumes "n < 128"
  shows "unat (((if masked then 0x80 else 0) OR word_of_nat n :: u8) AND 0x7F) = n"
    and "((if masked then 0x80 else 0) OR word_of_nat n :: u8) AND 0x80 \<noteq> 0 \<longleftrightarrow> masked"
  using low_bits_nat [OF assms] assms by (simp_all add: unat_of_nat)

lemma frame_head_read:
  assumes "length (payload f) \<le> MAX_FRAME_SIZE"
  shows "\<exists>b1 ext. frame_head masked f =
      ((if fin f then 0x80 else 0) OR opcode_byte (opcode f)) # b1 # ext
    \<and> (b1 AND 0x80 \<noteq> 0 \<longleftrightarrow> masked)
    \<and> (\<forall>t. read_payload_len (unat (b1 AND 0x7F)) (bytesT ext @ t) = (Inr (length (payload f)), t))"
proof -
  let ?n = "length (payload f)"
  let ?m = "if masked then 0x80 else 0 :: u8"
  consider "?n < 126" | "126 \<le> ?n" "?n \<le> 65535" | "65535 < ?n" by linarith
  then show ?thesis
  proof cases
    case 1
    then show ?thesis
      using mask_len_byte [of ?n masked]
      by (intro exI [of _ "?m OR word_of_nat ?n"] exI [of _ "[]"])
        (simp add: frame_head_def read_payload_len_def)
  next
    case 2
    then show ?thesis
      using mask_len_byte [of 126 masked]
      by (intro exI [of _ "?m OR 126"] exI [of _ "u16_be (word_of_nat ?n)"])
        (simp add: frame_head_def read_payload_len_def bindT_Inr unat_of_nat)
  next
    case 3
    then show ?thesis
      using mask_len_byte [of 127 masked] assms
      by (intro exI [of _ "?m OR 127"] exI [of _ "u64_be (word_of_nat ?n)"])
        (simp add: frame_head_def read_payload_len_def bindT_Inr unat_of_nat MAX_FRAME_SIZE_def)
  qed
qed

lemma read_write_frame:
  assumes "wf_frame f" and "wf_mask require mk"
  shows "read_frame require (bytesT (write_frame mk f) @ t) = (Inr f, t)"
proof -
  have len: "length (payload f) \<le> MAX_FRAME_SIZE" using assms(1) by (simp add: wf_frame_def)
  let ?b0 = "(if fin f then 0x80 else 0) OR opcode_byte (opcode f)"
  obtain b1 ext where h: "frame_head (mk \<noteq> None) f = ?b0 # b1 # ext"
    and m: "b1 AND 0x80 \<noteq> 0 \<longleftrightarrow> mk \<noteq> None"
    and l: "\<And>t. read_payload_len (unat (b1 AND 0x7F)) (bytesT ext @ t) = (Inr (length (payload f)), t)"
    using frame_head_read [OF len, of "mk \<noteq> None"] by blast
  let ?tail = "(case mk of None \<Rightarrow> [] | Some k \<Rightarrow> k) @
    (case mk of None \<Rightarrow> payload f | Some k \<Rightarrow> apply_mask k (payload f))"
  have w: "write_frame mk f = [?b0, b1] @ ext @ ?tail"
    using h by (cases mk) (auto simp: write_frame_def)
  have r2: "read_exactT FrameIo 2 (bytesT (write_frame mk f) @ t) = (Inr [?b0, b1], bytesT ext @ bytesT ?tail @ t)"
    unfolding w map_append append_assoc by (rule read_exactT_bytes) simp
  have "read_frame require (bytesT (write_frame mk f) @ t) =
      bindT (if b1 AND 0x80 \<noteq> 0 then bindT (read_exactT FrameIo 4) (\<lambda>mk. retT (Some mk)) else retT None) (\<lambda>mask_key.
       bindT (read_exactT FrameIo (length (payload f))) (\<lambda>body.
       retT \<lparr>fin = fin f, opcode = opcode f,
             payload = (case mask_key of None \<Rightarrow> body | Some mk \<Rightarrow> apply_mask mk body)\<rparr>)) (bytesT ?tail @ t)"
    unfolding read_frame_def using assms len m
    by (subst bindT_Inr [where m = "read_exactT FrameIo 2", OF r2])
      (auto simp: Let_def head_byte bindT_def [of "read_payload_len _"] l bindT_def [of "liftT _"] wf_frame_def
        wf_mask_def split: option.splits)
  also have "\<dots> = (Inr f, t)"
    using assms(2) m by (cases mk) (simp_all add: wf_mask_def bindT_Inr)
  finally show ?thesis .
qed


section \<open>What the stream delivers\<close>

lemma fill_buffer_shrinks:
  "fill_buffer s = (Inr True, s') \<Longrightarrow> length (ws_in s') < length (ws_in s)"
proof (induction "length (ws_in s)" arbitrary: s rule: less_induct)
  case less
  have IH: "length (ws_in s') < length (ws_in s)"
    if "fill_buffer r = (Inr True, s')" "length (ws_in r) < length (ws_in s)" for r
    using less.hyps [OF that(2,1)] that(2) by simp
  from less.prems show ?case
    by (subst (asm) fill_buffer.simps)
      (auto split: sum.splits prod.splits Opcode.splits dest!: read_frame_shrinks dest: IH)
qed

lemma serve_measure:
  "serve n s = (d, s') \<Longrightarrow> ws_in s' = ws_in s \<and> (d \<noteq> [] \<longrightarrow> buf_remaining s' < buf_remaining s)"
  by (auto simp: serve_def Let_def buf_remaining_def)

lemma ws_read_measure:
  "ws_read n s = (Inr d, s') \<Longrightarrow> d \<noteq> [] \<Longrightarrow>
     length (ws_in s') < length (ws_in s) \<or> (ws_in s' = ws_in s \<and> buf_remaining s' < buf_remaining s)"
  by (auto simp: ws_read_def split: if_splits prod.splits sum.splits bool.splits
      dest!: serve_measure fill_buffer_shrinks)

text \<open>Reading until the stream reports end of file or an error.\<close>

function ws_read_all :: "nat \<Rightarrow> WebSocketStream \<Rightarrow> bytes \<times> WebSocketStream" where
  "ws_read_all n s =
     (case ws_read n s of
        (Inl e, s') \<Rightarrow> ([], s')
      | (Inr d, s') \<Rightarrow>
          if d = [] then ([], s') else (case ws_read_all n s' of (d', s'') \<Rightarrow> (d @ d', s'')))"
  by pat_completeness auto
termination
  by (relation "measures [\<lambda>(n, s). length (ws_in s), \<lambda>(n, s). buf_remaining s]")
    (auto dest: ws_read_measure [OF sym])

declare ws_read_all.simps [simp del]

lemma ws_read_all_cong: "ws_read n s = ws_read n s' \<Longrightarrow> ws_read_all n s = ws_read_all n s'"
  by (simp add: ws_read_all.simps [of n s] ws_read_all.simps [of n s'])

text \<open>The buffered bytes come first.\<close>

lemma ws_read_all_buffered:
  assumes "\<not> closed s" and "0 < n" and "read_pos s \<le> length (read_buf s)"
  shows "ws_read_all n s =
    (case ws_read_all n (s\<lparr>read_pos := length (read_buf s)\<rparr>) of
       (d, s') \<Rightarrow> (drop (read_pos s) (read_buf s) @ d, s'))"
  using assms
proof (induction "buf_remaining s" arbitrary: s rule: less_induct)
  case less
  show ?case
  proof (cases "buf_remaining s = 0")
    case True
    then have "s\<lparr>read_pos := length (read_buf s)\<rparr> = s"
      using less.prems(3) by (cases s) (simp add: buf_remaining_def)
    with True show ?thesis by (simp add: buf_remaining_def)
  next
    case False
    define k where "k = min (buf_remaining s) n"
    define s1 where "s1 = s\<lparr>read_pos := read_pos s + k\<rparr>"
    have k: "0 < k" "k \<le> length (read_buf s) - read_pos s"
      using False less.prems(2) by (simp_all add: k_def buf_remaining_def)
    have r: "ws_read n s = (Inr (take k (drop (read_pos s) (read_buf s))), s1)"
      using False less.prems(1) by (simp add: ws_read_def serve_def k_def s1_def Let_def)
    have ne: "take k (drop (read_pos s) (read_buf s)) \<noteq> []" using k by simp
    have "ws_read_all n s1 =
      (case ws_read_all n (s1\<lparr>read_pos := length (read_buf s1)\<rparr>) of
         (d, s') \<Rightarrow> (drop (read_pos s1) (read_buf s1) @ d, s'))"
      using k less.prems by (intro less.hyps) (auto simp: s1_def buf_remaining_def)
    moreover have "take k (drop (read_pos s) (read_buf s)) @ drop (read_pos s1) (read_buf s1)
        = drop (read_pos s) (read_buf s)"
      by (simp add: s1_def add.commute flip: drop_drop)
    ultimately show ?thesis
      using ne by (subst ws_read_all.simps) (simp add: r s1_def split: prod.splits)
  qed
qed

lemma ws_read_fill:
  assumes "\<not> closed s" and "buf_remaining s = 0"
  shows "fill_buffer s = (Inr True, s1) \<Longrightarrow> \<not> closed s1 \<Longrightarrow> 0 < buf_remaining s1 \<Longrightarrow> ws_read n s = ws_read n s1"
    and "fill_buffer s = fill_buffer s2 \<Longrightarrow> \<not> closed s2 \<Longrightarrow> buf_remaining s2 = 0 \<Longrightarrow> ws_read n s = ws_read n s2"
    and "fill_buffer s = (Inr False, s3) \<Longrightarrow> ws_read n s = (Inr [], s3)"
  using assms by (simp_all add: ws_read_def)


text \<open>Frames a client may send: masked data, pings and pongs, then a close.\<close>

definition client_frame :: "bytes \<times> Frame \<Rightarrow> bool" where
  "client_frame x \<longleftrightarrow> (case x of (mk, f) \<Rightarrow> length mk = 4 \<and> wf_frame f
     \<and> opcode f \<in> {OpBinary, OpPing, OpPong} \<and> (opcode f = OpBinary \<longrightarrow> payload f \<noteq> []))"

definition client_bytes :: "(bytes \<times> Frame) list \<Rightarrow> bytes" where
  "client_bytes fs = concat (map (\<lambda>(mk, f). write_frame (Some mk) f) fs)"

definition frame_data :: "Frame \<Rightarrow> bytes" where
  "frame_data f = (if opcode f = OpBinary then payload f else [])"

definition frame_reply :: "Frame \<Rightarrow> bytes" where
  "frame_reply f = (if opcode f = OpPing then pong_reply (payload f) else [])"

lemma fill_buffer_frame:
  assumes "wf_frame f" and "length mk = 4" and "ws_in s = bytesT (write_frame (Some mk) f) @ t"
  shows "opcode f = OpBinary \<Longrightarrow> fill_buffer s = (Inr True, s\<lparr>ws_in := t, read_buf := payload f, read_pos := 0\<rparr>)"
    and "opcode f = OpPing \<Longrightarrow> fill_buffer s = fill_buffer (s\<lparr>ws_in := t, ws_out := ws_out s @ pong_reply (payload f)\<rparr>)"
    and "opcode f = OpPong \<Longrightarrow> fill_buffer s = fill_buffer (s\<lparr>ws_in := t\<rparr>)"
    and "opcode f = OpClose \<Longrightarrow> fill_buffer s = (Inr False, s\<lparr>ws_in := t, ws_out := ws_out s @ write_close 1000,
           closed := True, read_buf := [], read_pos := 0\<rparr>)"
  using read_write_frame [OF assms(1), of True "Some mk" t] assms(2,3)
  by (simp_all add: fill_buffer.simps [of s] wf_mask_def)

lemma ws_read_all_frames:
  assumes "list_all client_frame fs" and "wf_frame cf" and "opcode cf = OpClose" and "length ck = 4"
    and "0 < n" and "\<not> closed s" and "buf_remaining s = 0"
    and "ws_in s = bytesT (client_bytes fs) @ bytesT (write_frame (Some ck) cf) @ t"
  shows "\<exists>s'. ws_read_all n s = (concat (map (frame_data \<circ> snd) fs), s')
    \<and> ws_out s' = ws_out s @ concat (map (frame_reply \<circ> snd) fs) @ write_close 1000
    \<and> closed s' \<and> ws_in s' = t"
  using assms
proof (induction fs arbitrary: s)
  case Nil
  have "ws_read n s = (Inr [], s\<lparr>ws_in := t, ws_out := ws_out s @ write_close 1000,
      closed := True, read_buf := [], read_pos := 0\<rparr>)"
    using ws_read_fill(3) [OF Nil.prems(6,7)] fill_buffer_frame(4) [OF Nil.prems(2,4) _ Nil.prems(3)]
      Nil.prems(8) by (simp add: client_bytes_def)
  then show ?case by (subst ws_read_all.simps) simp
next
  case (Cons x fs)
  obtain mk f where x: "x = (mk, f)" by force
  let ?t = "bytesT (client_bytes fs) @ bytesT (write_frame (Some ck) cf) @ t"
  have f: "wf_frame f" "length mk = 4" "opcode f \<in> {OpBinary, OpPing, OpPong}"
    "opcode f = OpBinary \<longrightarrow> payload f \<noteq> []"
    using Cons.prems(1) x by (auto simp: client_frame_def)
  have inp: "ws_in s = bytesT (write_frame (Some mk) f) @ ?t"
    using Cons.prems(8) x by (simp add: client_bytes_def)
  note fill = fill_buffer_frame [OF f(1,2) inp] and rd = ws_read_fill [OF Cons.prems(6,7), of _ n]
  define s1 where "s1 = s\<lparr>ws_in := ?t, ws_out := ws_out s @ frame_reply f\<rparr>"
  define s2 where "s2 = (if opcode f = OpBinary
    then s1\<lparr>read_buf := payload f, read_pos := length (payload f)\<rparr> else s1)"
  have "ws_read_all n s = (case ws_read_all n s2 of (d, s') \<Rightarrow> (frame_data f @ d, s'))"
  proof (cases "opcode f = OpBinary")
    case True
    let ?b = "s1\<lparr>read_buf := payload f, read_pos := 0\<rparr>"
    have "ws_read_all n s = ws_read_all n ?b"
      using True fill(1) f(4) Cons.prems(6)
      by (intro ws_read_all_cong rd(1)) (simp_all add: s1_def buf_remaining_def frame_reply_def)
    also have "\<dots> = (case ws_read_all n s2 of (d, s') \<Rightarrow> (frame_data f @ d, s'))"
      using ws_read_all_buffered [of ?b n] Cons.prems(5,6) True
      by (simp add: s2_def s1_def frame_data_def)
    finally show ?thesis .
  next
    case False
    have "fill_buffer s = fill_buffer s1"
      using f(3) False fill(2,3) by (cases s) (auto simp: s1_def frame_reply_def)
    then have "ws_read_all n s = ws_read_all n s1"
      using Cons.prems(6,7) by (intro ws_read_all_cong rd(2)) (simp_all add: s1_def buf_remaining_def)
    with False show ?thesis by (simp add: s2_def frame_data_def)
  qed
  moreover have "\<not> closed s2" "buf_remaining s2 = 0" "ws_in s2 = ?t"
    using Cons.prems(6,7) by (simp_all add: s2_def s1_def buf_remaining_def)
  then obtain s' where "ws_read_all n s2 = (concat (map (frame_data \<circ> snd) fs), s')"
      "ws_out s' = ws_out s2 @ concat (map (frame_reply \<circ> snd) fs) @ write_close 1000"
      "closed s'" "ws_in s' = t"
    using Cons.IH [of s2] Cons.prems(1-5) by (auto simp: comp_def)
  ultimately show ?case by (simp add: x s2_def s1_def comp_def)
qed


text \<open>
  WebSocket frames round-trip. The reader recovers from what the writer produced the frame
  itself and leaves the rest of the stream untouched, in all three length encodings and with or
  without a mask; on the server side the mask must be there.
\<close>

theorem websocket_frame_roundtrip:
  assumes "wf_frame f" and "wf_mask require mk"
  shows "read_frame require (bytesT (write_frame mk f @ rest)) = (Inr f, bytesT rest)"
  using read_write_frame [OF assms, of "bytesT rest"] by simp

theorem websocket_frame_roundtrip_witness:
  "read_frame True (bytesT (write_frame (Some [1, 2, 3, 4]) \<lparr>fin = True, opcode = OpBinary, payload = replicate 300 5\<rparr> @ [9]))
     = (Inr \<lparr>fin = True, opcode = OpBinary, payload = replicate 300 5\<rparr>, bytesT [9])"
  by (rule websocket_frame_roundtrip) (simp_all add: wf_frame_def wf_mask_def MAX_FRAME_SIZE_def)



text \<open>
  An empty data frame is taken for the end of the stream: a read returns no bytes although
  the stream is open and a data frame follows, and reading to the end stops there.
\<close>

theorem websocket_empty_frame_is_eof:
  assumes "length mk = 4" and "wf_frame f" and "opcode f = OpBinary" and "payload f = []" and "0 < n"
  shows "\<exists>s'. ws_read_all n (websocket_new (bytesT (write_frame (Some mk) f @ later)) []) = ([], s')
    \<and> \<not> closed s' \<and> ws_in s' = bytesT later"
proof -
  let ?s = "websocket_new (bytesT (write_frame (Some mk) f @ later)) []"
  have "fill_buffer ?s = (Inr True, ?s\<lparr>ws_in := bytesT later, read_buf := [], read_pos := 0\<rparr>)"
    using fill_buffer_frame(1) [OF assms(2,1) _ assms(3), of ?s "bytesT later"] assms(4)
    by (simp add: websocket_new_def)
  then have "ws_read n ?s = (Inr [], ?s\<lparr>ws_in := bytesT later, read_buf := [], read_pos := 0\<rparr>)"
    by (simp add: ws_read_def websocket_new_def buf_remaining_def serve_def Let_def)
  then show ?thesis by (subst ws_read_all.simps) (simp add: websocket_new_def)
qed

theorem websocket_empty_frame_is_eof_witness:
  "\<exists>s'. ws_read_all 100 (websocket_new (bytesT (write_frame (Some [1, 2, 3, 4])
       \<lparr>fin = True, opcode = OpBinary, payload = []\<rparr> @ [7])) []) = ([], s') \<and> ws_in s' = [Inr 7]"
  using websocket_empty_frame_is_eof [of "[1, 2, 3, 4]" "\<lparr>fin = True, opcode = OpBinary, payload = []\<rparr>" 100 "[7]"]
  by (auto simp: wf_frame_def)

text \<open>
  A timeout inside a frame desynchronises the stream. When the first header byte of a frame
  arrives before a would-block error and the rest after it, the byte is lost: the next read takes
  the second header byte for the first one.
\<close>

theorem websocket_wouldblock_desync:
  "let fr = write_frame (Some [0, 0, 0, 0]) \<lparr>fin = True, opcode = OpBinary, payload = [65]\<rparr>;
       s = websocket_new (Inr (hd fr) # Inl WouldBlock # bytesT (tl fr)) [];
       r1 = ws_read 10 s; r2 = ws_read 10 (snd r1)
   in fst r1 = Inl WouldBlock \<and> fst r2 = Inl OtherIo"
proof -
  let ?fr = "write_frame (Some [0, 0, 0, 0]) \<lparr>fin = True, opcode = OpBinary, payload = [65]\<rparr>"
  have fr: "?fr = [0x82, 0x81, 0, 0, 0, 0, 65]"
    by (simp add: write_frame_def frame_head_def apply_mask_def Let_def)
  have a: "read_frame True (Inr 0x82 # Inl WouldBlock # t) = (Inl (FrameIo WouldBlock), t)" for t
    by (simp add: read_frame_def bindT_def numeral_2_eq_2)
  have b: "read_frame True (bytesT [0x81, 0, 0, 0, 0, 65]) = (Inl NotMasked, bytesT [0, 0, 0, 65])"
    by (simp add: read_frame_def bindT_def numeral_2_eq_2 opcode_from_u8_def read_payload_len_def
        MAX_FRAME_SIZE_def MAX_CTRL_PAYLOAD_def)
  show ?thesis
    using a b by (simp add: fr Let_def ws_read_def websocket_new_def buf_remaining_def
        fill_buffer.simps fill_error_def)
qed

end
