(* ===== verification/Ws_Upgrade.thy ===== *)
theory Ws_Upgrade
  imports Rust_Str
begin

text \<open>
  The HTTP upgrade to WebSocket (\<open>crates/websocket/src/upgrade.rs\<close>). SHA-1 and the Base64 encoder
  are arguments.
\<close>

definition WS_GUID :: rstr where
  "WS_GUID = str ''258EAFA5-E914-47DA-95CA-C5AB0DC85B11''"

definition MAX_HEADER_SIZE :: nat where
  "MAX_HEADER_SIZE = 16384"

record UpgradeRequest =
  ur_path :: rstr
  ur_host :: "rstr option"
  ur_websocket_key :: rstr

datatype UpgradeError =
  NotGet | PathMismatch rstr rstr | HostMismatch rstr rstr | HeaderTooLarge | NotWebSocket
  | MissingKey | Incomplete | InvalidRequestLine | BadVersion rstr

definition compute_accept_key :: "(bytes \<Rightarrow> bytes) \<Rightarrow> (bytes \<Rightarrow> rstr) \<Rightarrow> rstr \<Rightarrow> rstr" where
  "compute_accept_key sha1 base64 key = base64 (sha1 (key @ WS_GUID))"

text \<open>The variables of the loop over the header lines.\<close>

record UpgradeHeaders =
  uh_upgrade :: bool
  uh_connection :: bool
  uh_key :: "rstr option"
  uh_version :: "rstr option"
  uh_host :: "rstr option"

definition upgrade_headers_init :: UpgradeHeaders where
  "upgrade_headers_init =
     \<lparr>uh_upgrade = False, uh_connection = False, uh_key = None, uh_version = None, uh_host = None\<rparr>"

definition upgrade_header :: "rstr \<Rightarrow> UpgradeHeaders \<Rightarrow> UpgradeHeaders" where
  "upgrade_header raw h =
     (let line = trim raw in
      if line = [] then h
      else case split_once 0x3a line of
        None \<Rightarrow> h
      | Some (k, v) \<Rightarrow>
          let key = to_ascii_lowercase (trim k); val = trim v in
          if key = str ''upgrade'' then
            (if eq_ignore_ascii_case val (str ''websocket'') then h\<lparr>uh_upgrade := True\<rparr> else h)
          else if key = str ''connection'' then
            (if str_contains (to_ascii_lowercase val) (str ''upgrade'') then h\<lparr>uh_connection := True\<rparr> else h)
          else if key = str ''sec-websocket-key'' then h\<lparr>uh_key := Some val\<rparr>
          else if key = str ''sec-websocket-version'' then h\<lparr>uh_version := Some val\<rparr>
          else if key = str ''host'' then
            h\<lparr>uh_host := Some (to_ascii_lowercase (hd (split_on 0x3a val)))\<rparr>
          else h)"

definition normalize_path :: "rstr \<Rightarrow> rstr" where
  "normalize_path raw =
     (let path = hd (split_on 0x3f raw) in if starts_with path [0x2f] then path else 0x2f # path)"

definition expected_ws_path :: "rstr \<Rightarrow> rstr" where
  "expected_ws_path p = (if p = [] \<or> p = [0x2f] then [0x2f] else p)"

definition parse_upgrade_headers ::
  "rstr \<Rightarrow> rstr option \<Rightarrow> rstr list \<Rightarrow> UpgradeError + UpgradeRequest" where
  "parse_upgrade_headers path expected_host ls =
     (let h = fold upgrade_header ls upgrade_headers_init in
      if \<not> uh_upgrade h \<or> \<not> uh_connection h then Inl NotWebSocket
      else bindr (ok_or MissingKey (uh_key h)) (\<lambda>key.
        if uh_version h \<noteq> None \<and> uh_version h \<noteq> Some (str ''13'') then Inl (BadVersion (the (uh_version h)))
        else
          (let got = (case uh_host h of None \<Rightarrow> [] | Some g \<Rightarrow> g);
               req = \<lparr>ur_path = path, ur_host = uh_host h, ur_websocket_key = key\<rparr>
           in case expected_host of
                Some e \<Rightarrow> if eq_ignore_ascii_case e got then Inr req else Inl (HostMismatch e got)
              | None \<Rightarrow> Inr req)))"

text \<open>What follows the size check.\<close>

definition parse_upgrade_block ::
  "bytes \<Rightarrow> rstr \<Rightarrow> rstr option \<Rightarrow> UpgradeError + UpgradeRequest \<times> bytes" where
  "parse_upgrade_block buf expected_path expected_host =
     (bindr (ok_or Incomplete (find_sub [0x0d, 0x0a, 0x0d, 0x0a] buf)) (\<lambda>header_end.
      bindr (ok_or InvalidRequestLine (from_utf8 (take header_end buf))) (\<lambda>headers.
      case lines headers of
        [] \<Rightarrow> Inl InvalidRequestLine
      | request_line # ls \<Rightarrow>
          (case split_whitespace request_line of
             [] \<Rightarrow> Inl InvalidRequestLine
           | verb # parts \<Rightarrow>
               if verb \<noteq> str ''GET'' then Inl NotGet
               else (case parts of
                  raw_path # ver # _ \<Rightarrow>
                    (let path = normalize_path raw_path; expected = expected_ws_path expected_path in
                     if path \<noteq> expected then Inl (PathMismatch expected path)
                     else bindr (parse_upgrade_headers path expected_host ls) (\<lambda>req.
                       Inr (req, drop (header_end + 4) buf)))
                | _ \<Rightarrow> Inl InvalidRequestLine)))))"

definition parse_upgrade ::
  "bytes \<Rightarrow> rstr \<Rightarrow> rstr option \<Rightarrow> UpgradeError + UpgradeRequest \<times> bytes" where
  "parse_upgrade buf expected_path expected_host =
     (if length buf > MAX_HEADER_SIZE then Inl HeaderTooLarge
      else parse_upgrade_block buf expected_path expected_host)"

definition build_upgrade_response :: "rstr \<Rightarrow> bytes" where
  "build_upgrade_response accept_key =
     str ''HTTP/1.1 101 Switching Protocols'' @ [0x0d, 0x0a]
     @ str ''Upgrade: websocket'' @ [0x0d, 0x0a]
     @ str ''Connection: Upgrade'' @ [0x0d, 0x0a]
     @ str ''Sec-WebSocket-Accept: '' @ accept_key @ [0x0d, 0x0a]
     @ [0x0d, 0x0a]"

text \<open>A header line that sets a field, and what the fold over the lines needs for each field.\<close>

definition header_line :: "rstr \<Rightarrow> rstr \<Rightarrow> rstr \<Rightarrow> bool" where
  "header_line name value raw \<longleftrightarrow>
     (\<exists>k v. split_once 0x3a (trim raw) = Some (k, v) \<and> to_ascii_lowercase (trim k) = name \<and> value = trim v)"

lemma header_step:
  "uh_upgrade (upgrade_header raw h) \<Longrightarrow> uh_upgrade h \<or> (\<exists>v. header_line (str ''upgrade'') v raw
      \<and> eq_ignore_ascii_case v (str ''websocket''))"
  "uh_connection (upgrade_header raw h) \<Longrightarrow> uh_connection h \<or> (\<exists>v. header_line (str ''connection'') v raw
      \<and> str_contains (to_ascii_lowercase v) (str ''upgrade''))"
  "uh_key (upgrade_header raw h) = Some key \<Longrightarrow> uh_key h = Some key
      \<or> header_line (str ''sec-websocket-key'') key raw"
  "uh_host (upgrade_header raw h) = Some g \<Longrightarrow> uh_host h = Some g
      \<or> (\<exists>v. header_line (str ''host'') v raw \<and> g = to_ascii_lowercase (hd (split_on 0x3a v)))"
  by (auto simp: upgrade_header_def header_line_def Let_def simp del: str_simps
      split: if_split_asm option.split_asm prod.split_asm)

lemma fold_origin:
  assumes "\<And>x h. P (f x h) \<Longrightarrow> P h \<or> Q x"
  shows "P (fold f xs h) \<Longrightarrow> P h \<or> (\<exists>x \<in> set xs. Q x)"
proof (induction xs arbitrary: h)
  case (Cons x xs)
  then have "P (f x h) \<or> (\<exists>x \<in> set xs. Q x)" by simp
  then show ?case using assms [of x h] by auto
qed simp

lemma header_origin:
  "uh_upgrade (fold upgrade_header ls h) \<Longrightarrow> uh_upgrade h \<or> (\<exists>raw \<in> set ls. \<exists>v. header_line (str ''upgrade'') v raw
      \<and> eq_ignore_ascii_case v (str ''websocket''))"
  "uh_connection (fold upgrade_header ls h) \<Longrightarrow> uh_connection h \<or> (\<exists>raw \<in> set ls. \<exists>v. header_line (str ''connection'') v raw
      \<and> str_contains (to_ascii_lowercase v) (str ''upgrade''))"
  "uh_key (fold upgrade_header ls h) = Some key \<Longrightarrow> uh_key h = Some key
      \<or> (\<exists>raw \<in> set ls. header_line (str ''sec-websocket-key'') key raw)"
  "uh_host (fold upgrade_header ls h) = Some g \<Longrightarrow> uh_host h = Some g
      \<or> (\<exists>raw \<in> set ls. \<exists>v. header_line (str ''host'') v raw \<and> g = to_ascii_lowercase (hd (split_on 0x3a v)))"
  by (rule fold_origin [where P = uh_upgrade], erule header_step, assumption)
    (rule fold_origin [where P = uh_connection], erule header_step, assumption,
     rule fold_origin [where P = "\<lambda>h. uh_key h = Some key"], erule header_step, assumption,
     rule fold_origin [where P = "\<lambda>h. uh_host h = Some g"], erule header_step, assumption)


definition sample_upgrade :: bytes where
  "sample_upgrade =
     str ''GET /w?e HTTP/1.1'' @ [0x0d, 0x0a] @ str ''Host: A:80'' @ [0x0d, 0x0a]
     @ str ''upgrade:WebSocket'' @ [0x0d, 0x0a] @ str ''connection: Upgrade'' @ [0x0d, 0x0a]
     @ str ''Sec-WebSocket-Key:k'' @ [0x0d, 0x0a, 0x0d, 0x0a]"


end
