(* ===== verification/Anytls_Codec.thy ===== *)
theory Anytls_Codec
  imports Tape Rust_Str Protocol
begin

unbundle bit_operations_syntax

text \<open>
  AnyTLS before the session: the password check (\<open>auth.rs\<close>), the authentication frame of
  \<open>accept_anytls\<close> (\<open>lib.rs\<close>), SOCKS addresses (\<open>socks.rs\<close>), padding schemes (\<open>padding.rs\<close>) and the
  client's settings (\<open>session.rs\<close>), all in \<open>crates/anytls/src\<close>. The TLS layer is rustls: the model
  starts at the decrypted bytes, a tape.
\<close>

section \<open>Password check\<close>

text \<open>The constant-time loop: \<open>acc |= received[i] ^ expected[i]\<close>.\<close>

fun hash_acc :: "u8 \<Rightarrow> bytes \<Rightarrow> bytes \<Rightarrow> u8" where
  "hash_acc acc (r # rs) (e # es) = hash_acc (acc OR (r XOR e)) rs es"
| "hash_acc acc _ _ = acc"

definition verify_password_hash :: "bytes \<Rightarrow> bytes \<Rightarrow> bool" where
  "verify_password_hash received expected \<longleftrightarrow> hash_acc 0 (take 32 received) (take 32 expected) = 0"

section \<open>The authentication frame\<close>

datatype AnyTlsError = AnyIo io_error | AnyTls rstr | AuthFailed

text \<open>
  The error carries what \<open>AnyTlsAcceptError\<close> calls \<open>buffered_data\<close>. A header that could not be
  read is reported with the buffer as it was filled so far, zeros after that.
\<close>

fun read_so_far :: "nat \<Rightarrow> tape \<Rightarrow> bytes" where
  "read_so_far 0 t = []"
| "read_so_far (Suc n) [] = []"
| "read_so_far (Suc n) (Inr b # t) = b # read_so_far n t"
| "read_so_far (Suc n) (Inl e # t) = (if e = WouldBlock then read_so_far (Suc n) t else [])"

text \<open>\<open>tls_read_exact\<close> waits out \<open>WouldBlock\<close> and keeps what it has.\<close>

fun tls_read_exact :: "nat \<Rightarrow> (AnyTlsError, bytes) reads" where
  "tls_read_exact 0 t = (Inr [], t)"
| "tls_read_exact (Suc n) [] = (Inl (AnyIo UnexpectedEof), [])"
| "tls_read_exact (Suc n) (Inr b # t) =
     (case tls_read_exact n t of (Inl e, t') \<Rightarrow> (Inl e, t') | (Inr bs, t') \<Rightarrow> (Inr (b # bs), t'))"
| "tls_read_exact (Suc n) (Inl e # t) =
     (if e = WouldBlock then tls_read_exact (Suc n) t else (Inl (AnyIo e), t))"

text \<open>The padding is read one byte at a time.\<close>

fun skip_padding :: "nat \<Rightarrow> (AnyTlsError, unit) reads" where
  "skip_padding 0 t = (Inr (), t)"
| "skip_padding (Suc n) t =
     (case tls_read_exact 1 t of (Inl e, t') \<Rightarrow> (Inl e, t') | (Inr _, t') \<Rightarrow> skip_padding n t')"

definition accept_auth :: "bytes \<Rightarrow> tape \<Rightarrow> (AnyTlsError \<times> bytes + unit) \<times> tape" where
  "accept_auth password_sha256 t =
     (case tls_read_exact 34 t of
        (Inl e, t1) \<Rightarrow>
          (let got = read_so_far 34 t in (Inl (e, got @ replicate (34 - length got) 0), t1))
      | (Inr hdr, t1) \<Rightarrow>
          if \<not> verify_password_hash (take 32 hdr) password_sha256 then (Inl (AuthFailed, hdr), t1)
          else (case skip_padding (unat (u16_of_be (drop 32 hdr))) t1 of
                  (Inl e, t2) \<Rightarrow> (Inl (e, []), t2)
                | (Inr _, t2) \<Rightarrow> (Inr (), t2)))"

datatype PostAuthProtocol = ProtoVless | ProtoSingAnyTls

definition detect_post_auth_protocol :: "(AnyTlsError, PostAuthProtocol \<times> u8) reads" where
  "detect_post_auth_protocol =
     bindT (tls_read_exact 1) (\<lambda>b. retT (if hd b = 4 then ProtoSingAnyTls else ProtoVless, hd b))"

section \<open>SOCKS addresses\<close>

definition parse_socks_addr :: "bytes \<Rightarrow> (Address \<times> Port \<times> nat) option" where
  "parse_socks_addr data =
     (if data = [] then None
      else if hd data = 0x01 then
        (if length data < 7 then None
         else Some (IPv4 (take 4 (drop 1 data)), Port (u16_of_be (take 2 (drop 5 data))), 7))
      else if hd data = 0x03 then
        (if length data < 4 then None
         else let domain_len = unat (data ! 1); total = 1 + 1 + domain_len + 2 in
           if length data < total then None
           else Some (Domain (from_utf8_lossy (take domain_len (drop 2 data))),
                      Port (u16_of_be (take 2 (drop (2 + domain_len) data))), total))
      else if hd data = 0x04 then
        (if length data < 19 then None
         else Some (IPv6 (take 16 (drop 1 data)), Port (u16_of_be (take 2 (drop 17 data))), 19))
      else None)"

section \<open>Padding schemes\<close>

datatype StageRule = Range int int | CheckMark

record PaddingScheme =
  ps_stop :: nat
  ps_raw :: bytes
  ps_stages :: "StageRule list list"

text \<open>\<open>str::parse::<i64>\<close>: an optional sign, at least one digit, the value in range.\<close>

definition parse_i64 :: "rstr \<Rightarrow> int option" where
  "parse_i64 s =
     (if s \<noteq> [] \<and> hd s = 0x2d
      then (if tl s = [] then None else map_option uminus (parse_digits (2 ^ 63 + 1) 0 (tl s)))
      else map_option int (parse_uint (2 ^ 63) s))"

fun parse_rule_parts :: "rstr list \<Rightarrow> StageRule list \<Rightarrow> StageRule list option" where
  "parse_rule_parts [] rules = Some rules"
| "parse_rule_parts (raw # parts) rules =
     (let part = trim raw in
      if part = [] then parse_rule_parts parts rules
      else if part = str ''c'' then parse_rule_parts parts (rules @ [CheckMark])
      else case split_once 0x2d part of
        None \<Rightarrow> parse_rule_parts parts rules
      | Some (min_str, max_str) \<Rightarrow>
          (case parse_i64 (trim min_str) of None \<Rightarrow> None | Some mn \<Rightarrow>
          (case parse_i64 (trim max_str) of None \<Rightarrow> None | Some mx \<Rightarrow>
             let lo = min mn mx; hi = max mn mx in
             if lo \<le> 0 \<or> hi \<le> 0 then parse_rule_parts parts rules
             else parse_rule_parts parts (rules @ [Range lo hi]))))"

definition parse_rules :: "rstr \<Rightarrow> StageRule list option" where
  "parse_rules value =
     (case parse_rule_parts (split_on 0x2c value) [] of
        None \<Rightarrow> None
      | Some rules \<Rightarrow> if rules = [] then None else Some rules)"

fun scheme_lines :: "rstr list \<Rightarrow> nat option \<Rightarrow> StageRule list option list
    \<Rightarrow> (nat option \<times> StageRule list option list) option" where
  "scheme_lines [] stop stage_rules = Some (stop, stage_rules)"
| "scheme_lines (raw # ls) stop stage_rules =
     (let line = trim raw in
      if line = [] then scheme_lines ls stop stage_rules
      else case split_once 0x3d line of
        None \<Rightarrow> None
      | Some (k, value) \<Rightarrow>
          let key = trim k in
          if key = str ''stop'' then
            (case parse_uint (2 ^ 32) (trim value) of
               None \<Rightarrow> None | Some n \<Rightarrow> scheme_lines ls (Some n) stage_rules)
          else case parse_uint (2 ^ 64) key of
            None \<Rightarrow> scheme_lines ls stop stage_rules
          | Some stage \<Rightarrow>
              if stage < 8 then
                (case parse_rules (trim value) of
                   None \<Rightarrow> None
                 | Some rules \<Rightarrow> scheme_lines ls stop (stage_rules[stage := Some rules]))
              else scheme_lines ls stop stage_rules)"

definition padding_parse :: "bytes \<Rightarrow> PaddingScheme option" where
  "padding_parse raw =
     (case from_utf8 raw of None \<Rightarrow> None | Some txt' \<Rightarrow>
     (case scheme_lines (lines txt') None (replicate 8 None) of
        None \<Rightarrow> None
      | Some (None, _) \<Rightarrow> None
      | Some (Some stop, stage_rules) \<Rightarrow>
          Some \<lparr>ps_stop = stop, ps_raw = raw,
                ps_stages = map (\<lambda>r. case r of None \<Rightarrow> [] | Some rules \<Rightarrow> rules) stage_rules\<rparr>))"

text \<open>\<open>rng lo hi\<close> is the result of \<open>gen_range(lo..hi)\<close>.\<close>

fun rule_size :: "(int \<Rightarrow> int \<Rightarrow> int) \<Rightarrow> StageRule \<Rightarrow> int" where
  "rule_size rng CheckMark = -1"
| "rule_size rng (Range lo hi) = (if lo = hi then lo else rng lo hi)"

definition generate_sizes :: "(int \<Rightarrow> int \<Rightarrow> int) \<Rightarrow> PaddingScheme \<Rightarrow> nat \<Rightarrow> int list" where
  "generate_sizes rng self pkt =
     (if pkt \<ge> ps_stop self then []
      else map (rule_size rng) (ps_stages self ! min pkt (length (ps_stages self) - 1)))"

section \<open>Settings\<close>

record ClientSettings =
  cs_version :: nat
  cs_client_name :: rstr
  cs_padding_md5 :: "rstr option"

definition settings_line :: "rstr \<Rightarrow> ClientSettings \<Rightarrow> ClientSettings" where
  "settings_line line cs =
     (case split_once 0x3d line of
        None \<Rightarrow> cs
      | Some (k, v) \<Rightarrow>
          if trim k = str ''v'' then
            cs\<lparr>cs_version := (case parse_uint (2 ^ 32) (trim v) of None \<Rightarrow> 0 | Some n \<Rightarrow> n)\<rparr>
          else if trim k = str ''client'' then cs\<lparr>cs_client_name := trim v\<rparr>
          else if trim k = str ''padding-md5'' then cs\<lparr>cs_padding_md5 := Some (trim v)\<rparr>
          else cs)"

definition parse_settings :: "bytes \<Rightarrow> ClientSettings" where
  "parse_settings body =
     fold settings_line (lines (from_utf8_lossy body))
       \<lparr>cs_version = 0, cs_client_name = str ''unknown'', cs_padding_md5 = None\<rparr>"


section \<open>Authentication\<close>

lemma or_eq_0_iff_u8: "(a OR b = 0) \<longleftrightarrow> a = 0 \<and> b = (0 :: u8)"
  by (auto simp: bit_eq_iff bit_or_iff)

lemma hash_acc_zero:
  "length rs = length es \<Longrightarrow> hash_acc acc rs es = 0 \<longleftrightarrow> acc = 0 \<and> rs = es"
proof (induction rs es arbitrary: acc rule: list_induct2)
  case Nil
  then show ?case by simp
next
  case (Cons r rs e es)
  have "r XOR e = 0 \<longleftrightarrow> r = e"
    by (auto simp: bit_eq_iff bit_xor_iff)
  then show ?case by (auto simp: Cons.IH or_eq_0_iff_u8)
qed

lemma verify_password_hash_iff:
  "length r = 32 \<Longrightarrow> length e = 32 \<Longrightarrow> verify_password_hash r e \<longleftrightarrow> r = e"
  by (simp add: verify_password_hash_def hash_acc_zero)

lemma tls_read_exact_bytes [simp]: "length xs = n \<Longrightarrow> tls_read_exact n (bytesT xs @ t) = (Inr xs, t)"
  by (induction xs arbitrary: n) auto

lemma tls_read_exact_bytesD:
  "tls_read_exact n (bytesT bs) = (Inr xs, t) \<Longrightarrow> length xs = n \<and> (\<exists>ys. bs = xs @ ys \<and> t = bytesT ys)"
proof (induction n arbitrary: bs xs)
  case 0
  then show ?case by simp
next
  case (Suc n)
  then show ?case by (cases bs) (auto split: prod.splits sum.splits)
qed

lemma skip_padding_bytes: "length xs = n \<Longrightarrow> skip_padding n (bytesT xs @ t) = (Inr (), t)"
  by (induction xs arbitrary: n) auto

lemma skip_padding_bytesD:
  "skip_padding n (bytesT bs) = (Inr u, t) \<Longrightarrow> \<exists>xs ys. bs = xs @ ys \<and> length xs = n \<and> t = bytesT ys"
proof (induction n arbitrary: bs)
  case 0
  then show ?case by simp
next
  case (Suc n)
  show ?case
  proof (cases bs)
    case Nil
    then show ?thesis using Suc.prems by simp
  next
    case (Cons b r)
    with Suc.prems have "skip_padding n (bytesT r) = (Inr u, t)" by simp
    from Suc.IH [OF this] obtain xs ys where "r = xs @ ys" "length xs = n" "t = bytesT ys" by blast
    with Cons show ?thesis by (intro exI [of _ "b # xs"] exI [of _ ys]) simp
  qed
qed

text \<open>
  C30: AnyTLS lets in exactly the clients that know the password. Given a 32-byte password hash,
  authentication succeeds on a byte stream if and only if the stream starts with that hash, a
  two-byte length and that many bytes of padding; what is left for the protocol behind it is exactly
  the rest of the stream.
\<close>

theorem anytls_auth_iff:
  assumes "length h = 32"
  shows "accept_auth h (bytesT bs) = (Inr (), bytesT rest) \<longleftrightarrow>
    (\<exists>pad. length pad < 65536 \<and> bs = h @ be 2 (length pad) @ pad @ rest)"
proof
  assume a: "accept_auth h (bytesT bs) = (Inr (), bytesT rest)"
  then obtain hdr t1 where r: "tls_read_exact 34 (bytesT bs) = (Inr hdr, t1)"
    and v: "verify_password_hash (take 32 hdr) h"
    and s: "skip_padding (unat (u16_of_be (drop 32 hdr))) t1 = (Inr (), bytesT rest)"
    by (auto simp: accept_auth_def Let_def split: prod.splits sum.splits if_splits)
  from tls_read_exact_bytesD [OF r] obtain ys where l: "length hdr = 34" and bs: "bs = hdr @ ys"
    and t1: "t1 = bytesT ys" by blast
  from skip_padding_bytesD [OF s [unfolded t1]] obtain pad zs where y: "ys = pad @ zs"
    and p: "length pad = unat (u16_of_be (drop 32 hdr))" and "bytesT rest = bytesT zs" by blast
  then have z: "zs = rest" by (simp add: inj_map_eq_map)
  have "take 32 hdr = h" using v l assms by (simp add: verify_password_hash_iff)
  moreover have "drop 32 hdr = be 2 (length pad)"
    using u16_be_of_be [of "drop 32 hdr"] l p by (simp add: u16_be_def del: be_numeral)
  ultimately have "hdr = h @ be 2 (length pad)"
    by (metis append_take_drop_id)
  moreover have "length pad < 65536" using p unsigned_less [of "u16_of_be (drop 32 hdr)"] by simp
  ultimately show "\<exists>pad. length pad < 65536 \<and> bs = h @ be 2 (length pad) @ pad @ rest"
    using bs y z by (intro exI [of _ pad]) (simp del: be_numeral)
next
  assume "\<exists>pad. length pad < 65536 \<and> bs = h @ be 2 (length pad) @ pad @ rest"
  then obtain pad where p: "length pad < 65536" and bs: "bs = h @ be 2 (length pad) @ pad @ rest" by blast
  have u: "unat (u16_of_be (be 2 (length pad))) = length pad"
    using p by (simp add: u16_of_be_def unat_of_nat del: be_numeral)
  have "tls_read_exact 34 (bytesT bs) = (Inr (h @ be 2 (length pad)), bytesT pad @ bytesT rest)"
    using tls_read_exact_bytes [of "h @ be 2 (length pad)" 34 "bytesT pad @ bytesT rest"] assms
    by (simp add: bs del: be_numeral)
  then show "accept_auth h (bytesT bs) = (Inr (), bytesT rest)"
    using assms u by (simp add: accept_auth_def verify_password_hash_iff skip_padding_bytes del: be_numeral)
qed

theorem anytls_auth_iff_witness:
  "accept_auth (replicate 32 7) (bytesT (replicate 32 7 @ [0, 1, 9] @ [5, 6])) = (Inr (), bytesT [5, 6])"
proof -
  have "\<exists>pad :: bytes. length pad < 65536
      \<and> replicate 32 7 @ [0, 1, 9] @ [5, 6] = replicate 32 7 @ be 2 (length pad) @ pad @ [5, 6]"
    by (intro exI [of _ "[9]"]) simp
  then show ?thesis
    using anytls_auth_iff [of "replicate 32 7" "replicate 32 7 @ [0, 1, 9] @ [5, 6]" "[5, 6]"]
    by (simp only: length_replicate)
qed


section \<open>Padding schemes are well formed\<close>

fun rule_ok :: "StageRule \<Rightarrow> bool" where
  "rule_ok CheckMark = True"
| "rule_ok (Range lo hi) = (0 < lo \<and> lo \<le> hi)"

lemma parse_rule_parts_step:
  assumes "parse_rule_parts (raw # parts) rules = Some rs"
  shows "\<exists>new. list_all rule_ok new \<and> parse_rule_parts parts (rules @ new) = Some rs"
proof -
  have skip: ?thesis if "parse_rule_parts parts rules = Some rs"
    using that by (intro exI [of _ "[]"]) simp
  have mark: ?thesis if "parse_rule_parts parts (rules @ [CheckMark]) = Some rs"
    using that by (intro exI [of _ "[CheckMark]"]) simp
  have range: ?thesis if "parse_rule_parts parts (rules @ [Range (min a b) (max a b)]) = Some rs"
      "\<not> (min a b \<le> 0 \<or> max a b \<le> 0)" for a b
    using that by (intro exI [of _ "[Range (min a b) (max a b)]"]) auto
  show ?thesis
    using assms skip mark range unfolding parse_rule_parts.simps Let_def
    by (simp only: split: if_split_asm option.split_asm prod.split_asm) blast+
qed

lemma parse_rule_parts_ok:
  "parse_rule_parts parts rules = Some rs \<Longrightarrow> list_all rule_ok rules \<Longrightarrow> list_all rule_ok rs"
proof (induction parts arbitrary: rules)
  case Nil
  then show ?case by simp
next
  case (Cons raw parts)
  from parse_rule_parts_step [OF Cons.prems(1)] show ?case
    using Cons.IH Cons.prems(2) by auto
qed

lemma parse_rules_ok: "parse_rules value = Some rs \<Longrightarrow> list_all rule_ok rs \<and> rs \<noteq> []"
  by (auto simp: parse_rules_def split: option.splits if_splits dest: parse_rule_parts_ok)

definition stages_ok :: "StageRule list option list \<Rightarrow> bool" where
  "stages_ok srs \<longleftrightarrow> length srs = 8 \<and> list_all (\<lambda>r. case r of None \<Rightarrow> True | Some rs \<Rightarrow> list_all rule_ok rs) srs"

lemma stages_ok_update: "stages_ok srs \<Longrightarrow> list_all rule_ok rs \<Longrightarrow> stages_ok (srs[i := Some rs])"
  by (auto simp: stages_ok_def list_all_iff dest!: set_update_subset_insert [THEN subsetD])

lemma scheme_lines_step:
  assumes "scheme_lines (raw # ls) stop srs = Some out" and "stages_ok srs"
  shows "\<exists>stop1 srs1. stages_ok srs1 \<and> scheme_lines ls stop1 srs1 = Some out"
proof -
  have upd: ?thesis if "scheme_lines ls stop (srs[stage := Some rules]) = Some out"
      "parse_rules v = Some rules" for stage rules v
    using that assms(2) parse_rules_ok stages_ok_update by blast
  have same: ?thesis if "scheme_lines ls stop1 srs = Some out" for stop1
    using that assms(2) by blast
  show ?thesis
    using assms(1) upd same unfolding scheme_lines.simps Let_def
    by (simp only: split: if_split_asm option.split_asm prod.split_asm) blast+
qed

lemma scheme_lines_ok:
  "scheme_lines ls stop srs = Some (stop', srs') \<Longrightarrow> stages_ok srs \<Longrightarrow> stages_ok srs'"
proof (induction ls arbitrary: stop srs)
  case Nil
  then show ?case by simp
next
  case (Cons raw ls)
  from scheme_lines_step [OF Cons.prems] show ?case using Cons.IH by blast
qed

text \<open>
  C31: padding sizes are usable. A scheme that parses has eight stages; whatever the random
  choices, as long as they stay in the requested range, every size generated for a packet is either
  the check-mark sentinel or a positive number, and from the stop index on nothing is generated.
\<close>

theorem padding_sizes_ok:
  assumes "padding_parse raw = Some sch" and "\<forall>lo hi. lo < hi \<longrightarrow> lo \<le> rng lo hi \<and> rng lo hi < hi"
  shows "length (ps_stages sch) = 8 \<and> ps_raw sch = raw
    \<and> (\<forall>x \<in> set (generate_sizes rng sch pkt). x = -1 \<or> 0 < x)
    \<and> (ps_stop sch \<le> pkt \<longrightarrow> generate_sizes rng sch pkt = [])"
proof -
  obtain stop srs where "scheme_lines (lines raw) None (replicate 8 None) = Some (Some stop, srs)"
    and sch: "sch = \<lparr>ps_stop = stop, ps_raw = raw,
      ps_stages = map (\<lambda>r. case r of None \<Rightarrow> [] | Some rules \<Rightarrow> rules) srs\<rparr>"
    using assms(1) by (auto simp: padding_parse_def from_utf8_def split: option.splits if_splits)
  then have ok: "stages_ok srs"
    by (elim scheme_lines_ok) (simp add: stages_ok_def list_all_iff)
  have rule: "x = -1 \<or> 0 < x" if "rule_ok r" "x = rule_size rng r" for x r
    using that assms(2) by (cases r) (auto, smt (verit))
  have st: "list_all rule_ok (ps_stages sch ! i)" if "i < 8" for i
    using ok that by (auto simp: sch stages_ok_def list_all_length split: option.splits)
  show ?thesis
    using ok st [of "min pkt 7"] rule
    by (auto simp: sch stages_ok_def generate_sizes_def list_all_iff)
qed

theorem padding_sizes_ok_witness:
  "\<exists>sch. padding_parse (str ''stop=2'' @ [10] @ str ''0=30-30,c'') = Some sch
     \<and> generate_sizes (\<lambda>lo hi. lo) sch 0 = [30, -1] \<and> generate_sizes (\<lambda>lo hi. lo) sch 5 = []"
proof -
  let ?raw = "str ''stop=2'' @ [10] @ str ''0=30-30,c''"
  have p: "padding_parse ?raw = Some \<lparr>ps_stop = 2, ps_raw = ?raw,
      ps_stages = [Range 30 30, CheckMark] # replicate 7 []\<rparr>"
    by code_simp
  show ?thesis
    using padding_sizes_ok [OF p, of "\<lambda>lo hi. lo" 5] p by (simp add: generate_sizes_def)
qed

section \<open>SOCKS addresses\<close>

text \<open>The format of RFC 1928 that the parser reads.\<close>

fun socks_addr :: "Address \<Rightarrow> bytes" where
  "socks_addr (IPv4 ip) = 0x01 # ip"
| "socks_addr (Domain d) = 0x03 # word_of_nat (length d) # d"
| "socks_addr (IPv6 ip) = 0x04 # ip"

text \<open>
  SOCKS addresses parse to what they denote. For an address that fits the format the parser
  returns it, its port and the number of bytes it takes, whatever follows; and whenever it accepts,
  the number of bytes it reports is available.
\<close>

theorem parse_socks_addr_roundtrip:
  assumes "wire_address a"
  shows "parse_socks_addr (socks_addr a @ u16_be p @ rest) = Some (a, Port p, length (socks_addr a) + 2)"
  using assms
  by (cases a)
    (auto simp: wire_address_def parse_socks_addr_def Let_def unat_of_nat_u8 from_utf8_lossy_valid)

theorem parse_socks_addr_roundtrip_witness:
  "parse_socks_addr (socks_addr (Domain (str ''a.b'')) @ u16_be 443 @ [9]) = Some (Domain (str ''a.b''), Port 443, 7)"
  using parse_socks_addr_roundtrip [of "Domain (str ''a.b'')" 443 "[9]"]
  by (simp add: wire_address_def utf8_valid_ascii)

end
