(* ===== verification/Anytls_Session.thy ===== *)
theory Anytls_Session
  imports Anytls_Codec
begin

text \<open>
  The sing-anytls session (\<open>crates/anytls/src/session.rs\<close>) and its streams (\<open>stream.rs\<close>). The loop
  owns the connection: its input is the tape of decrypted bytes, in which \<open>WouldBlock\<close> marks a read
  timeout, its output the bytes written. Relay threads only reach it through a queue of write jobs;
  what the queue holds at each of the loop's drain points is part of the input
  (\<open>ls_arrivals\<close>, one list per drain). Streams are mpsc channels: \<open>chans\<close> records everything sent
  into each one.
\<close>

section \<open>Frames\<close>

definition CMD_WASTE :: u8 where "CMD_WASTE = 0"
definition CMD_SYN :: u8 where "CMD_SYN = 1"
definition CMD_PSH :: u8 where "CMD_PSH = 2"
definition CMD_FIN :: u8 where "CMD_FIN = 3"
definition CMD_SETTINGS :: u8 where "CMD_SETTINGS = 4"
definition CMD_ALERT :: u8 where "CMD_ALERT = 5"
definition CMD_SYNACK :: u8 where "CMD_SYNACK = 7"
definition CMD_HEART_REQ :: u8 where "CMD_HEART_REQ = 8"
definition CMD_HEART_RESP :: u8 where "CMD_HEART_RESP = 9"
definition CMD_SERVER_SETTINGS :: u8 where "CMD_SERVER_SETTINGS = 10"

lemmas cmd_defs = CMD_WASTE_def CMD_SYN_def CMD_PSH_def CMD_FIN_def CMD_SETTINGS_def CMD_ALERT_def
  CMD_SYNACK_def CMD_HEART_REQ_def CMD_HEART_RESP_def CMD_SERVER_SETTINGS_def

record WriteJob =
  job_cmd :: u8
  job_sid :: u32
  job_data :: bytes

definition session_frame :: "u8 \<Rightarrow> u32 \<Rightarrow> bytes \<Rightarrow> bytes" where
  "session_frame cmd sid data =
     (let data_len = min (length data) 65535
      in cmd # u32_be sid @ u16_be (word_of_nat data_len) @ take data_len data)"

text \<open>\<open>try_read_exact\<close>: every error, \<open>WouldBlock\<close> included, ends it and drops the bytes read so far.\<close>

fun try_read_exact :: "nat \<Rightarrow> (AnyTlsError, bytes) reads" where
  "try_read_exact 0 t = (Inr [], t)"
| "try_read_exact (Suc n) [] = (Inl (AnyIo UnexpectedEof), [])"
| "try_read_exact (Suc n) (Inr b # t) =
     (case try_read_exact n t of (Inl e, t') \<Rightarrow> (Inl e, t') | (Inr bs, t') \<Rightarrow> (Inr (b # bs), t'))"
| "try_read_exact (Suc n) (Inl e # t) = (Inl (AnyIo e), t)"

section \<open>Writing\<close>

definition send_psh :: "u32 \<Rightarrow> bytes \<Rightarrow> WriteJob list" where
  "send_psh sid data =
     (if length data > 65535
      then map (\<lambda>c. \<lparr>job_cmd = CMD_PSH, job_sid = sid, job_data = c\<rparr>) (chunks 65535 data)
      else [\<lparr>job_cmd = CMD_PSH, job_sid = sid, job_data = data\<rparr>])"

definition send_fin :: "u32 \<Rightarrow> WriteJob list" where
  "send_fin sid = [\<lparr>job_cmd = CMD_FIN, job_sid = sid, job_data = []\<rparr>]"

definition send_synack :: "u32 \<Rightarrow> WriteJob list" where
  "send_synack sid = [\<lparr>job_cmd = CMD_SYNACK, job_sid = sid, job_data = []\<rparr>]"

definition send_synack_error :: "u32 \<Rightarrow> rstr \<Rightarrow> WriteJob list" where
  "send_synack_error sid err = [\<lparr>job_cmd = CMD_SYNACK, job_sid = sid, job_data = err\<rparr>]"

section \<open>The session\<close>

record SingSession =
  streams :: "u32 \<rightharpoonup> nat"
  next_chan :: nat
  chans :: "nat \<Rightarrow> bytes list"

definition session_new :: SingSession where
  "session_new = \<lparr>streams = Map.empty, next_chan = 0, chans = \<lambda>_. []\<rparr>"

definition create_stream :: "u32 \<Rightarrow> SingSession \<Rightarrow> SingSession" where
  "create_stream sid s =
     s\<lparr>streams := (streams s)(sid \<mapsto> next_chan s), next_chan := Suc (next_chan s)\<rparr>"

definition deliver_data :: "u32 \<Rightarrow> bytes \<Rightarrow> SingSession \<Rightarrow> SingSession" where
  "deliver_data sid data s =
     (case streams s sid of
        None \<Rightarrow> s
      | Some k \<Rightarrow> s\<lparr>chans := (chans s)(k := chans s k @ [data])\<rparr>)"

definition close_stream :: "u32 \<Rightarrow> SingSession \<Rightarrow> SingSession" where
  "close_stream sid s = s\<lparr>streams := (streams s)(sid := None)\<rparr>"

definition apply_outgoing_stream_state :: "WriteJob \<Rightarrow> SingSession \<Rightarrow> SingSession" where
  "apply_outgoing_stream_state job s = (if job_cmd job = CMD_FIN then close_stream (job_sid job) s else s)"

record LoopState =
  ls_in :: tape
  ls_out :: bytes
  ls_session :: SingSession
  ls_arrivals :: "WriteJob list list"

definition write_job :: "WriteJob \<Rightarrow> LoopState \<Rightarrow> LoopState" where
  "write_job job st =
     st\<lparr>ls_out := ls_out st @ session_frame (job_cmd job) (job_sid job) (job_data job),
        ls_session := apply_outgoing_stream_state job (ls_session st)\<rparr>"

definition drain_write_jobs :: "LoopState \<Rightarrow> LoopState" where
  "drain_write_jobs st =
     (case ls_arrivals st of
        [] \<Rightarrow> st
      | jobs # later \<Rightarrow> fold write_job jobs (st\<lparr>ls_arrivals := later\<rparr>))"

text \<open>The match on the command: the new state and whether the loop goes on.\<close>

definition handle_frame :: "u8 \<Rightarrow> u32 \<Rightarrow> bytes \<Rightarrow> LoopState \<Rightarrow> LoopState \<times> bool" where
  "handle_frame cmd sid data st =
     (if cmd = CMD_SYN then (st\<lparr>ls_session := create_stream sid (ls_session st)\<rparr>, True)
      else if cmd = CMD_PSH then (st\<lparr>ls_session := deliver_data sid data (ls_session st)\<rparr>, True)
      else if cmd = CMD_FIN then (st\<lparr>ls_session := close_stream sid (ls_session st)\<rparr>, True)
      else if cmd = CMD_WASTE then (st, True)
      else if cmd = CMD_ALERT then (st, False)
      else if cmd = CMD_HEART_REQ then
        (st\<lparr>ls_out := ls_out st @ session_frame CMD_HEART_RESP sid []\<rparr>, True)
      else (st, True))"

lemma try_read_exact_length:
  "try_read_exact n t = (Inr bs, t') \<Longrightarrow> length bs = n \<and> length t' + n \<le> length t"
  "try_read_exact n t = (Inl (AnyIo WouldBlock), t') \<Longrightarrow> length t' < length t"
  by (induction n t arbitrary: bs rule: try_read_exact.induct)
    (fastforce split: sum.splits prod.splits)+

lemma try_read_exact_nongrowing: "nongrowing (try_read_exact n)"
  unfolding nongrowing_def
proof (intro allI impI)
  fix t r t'
  show "try_read_exact n t = (r, t') \<Longrightarrow> length t' \<le> length t"
    by (induction n t arbitrary: r rule: try_read_exact.induct)
      (fastforce split: sum.splits prod.splits)+
qed

lemma ls_in_write_job [simp]: "ls_in (write_job j st) = ls_in st"
  by (simp add: write_job_def)

lemma ls_in_fold_write_job [simp]: "ls_in (fold write_job js st) = ls_in st"
  by (induction js arbitrary: st) simp_all

lemma ls_in_drain [simp]: "ls_in (drain_write_jobs st) = ls_in st"
  by (simp add: drain_write_jobs_def split: list.split)

text \<open>The inner loop that reads the frame's data, draining jobs while it waits.\<close>

function read_data :: "nat \<Rightarrow> LoopState \<Rightarrow> (AnyTlsError + bytes) \<times> LoopState" where
  "read_data n st =
     (case try_read_exact n (ls_in st) of
        (Inr data, t) \<Rightarrow> (Inr data, st\<lparr>ls_in := t\<rparr>)
      | (Inl e, t) \<Rightarrow>
          if e = AnyIo WouldBlock then read_data n (drain_write_jobs (st\<lparr>ls_in := t\<rparr>))
          else (Inl e, st\<lparr>ls_in := t\<rparr>))"
  by pat_completeness auto
termination
  by (relation "measure (\<lambda>(n, st). length (ls_in st))") (auto dest!: try_read_exact_length(2) [OF sym])

declare read_data.simps [simp del]


lemma read_data_length: "length (ls_in (snd (read_data n st))) \<le> length (ls_in st)"
proof (induction n st rule: read_data.induct)
  case (1 n st)
  obtain r t where t: "try_read_exact n (ls_in st) = (r, t)" by force
  show ?case
  proof (cases "r = Inl (AnyIo WouldBlock)")
    case True
    have "length (ls_in (snd (read_data n (drain_write_jobs (st\<lparr>ls_in := t\<rparr>))))) \<le> length t"
      using 1 t True by auto
    also have "\<dots> \<le> length (ls_in st)" using try_read_exact_length(2) [of n "ls_in st" t] t True by simp
    finally show ?thesis using t True by (simp add: read_data.simps [of n st])
  next
    case False
    have "length t \<le> length (ls_in st)" using t try_read_exact_nongrowing by (simp add: nongrowing_def)
    with False t show ?thesis by (auto simp: read_data.simps [of n st] split: sum.split)
  qed
qed

text \<open>One iteration of \<open>session_reader_loop\<close>: an error, or whether the loop goes on.\<close>

definition session_iter :: "LoopState \<Rightarrow> (AnyTlsError + bool) \<times> LoopState" where
  "session_iter st =
     (case try_read_exact 7 (ls_in st) of (frame_result, t) \<Rightarrow>
        let st1 = drain_write_jobs (st\<lparr>ls_in := t\<rparr>) in
        case frame_result of
          Inl e \<Rightarrow> (if e = AnyIo WouldBlock then Inr True else Inl e, st1)
        | Inr hdr \<Rightarrow>
            let cmd = hdr ! 0; sid = u32_of_be (take 4 (drop 1 hdr)); data_len = unat (u16_of_be (drop 5 hdr)) in
            case (if data_len > 0 then read_data data_len st1 else (Inr [], st1)) of
              (Inl e, st2) \<Rightarrow> (Inl e, st2)
            | (Inr data, st2) \<Rightarrow>
                (case handle_frame cmd sid data (drain_write_jobs st2) of (st3, go) \<Rightarrow> (Inr go, st3)))"

lemma ls_in_handle_frame: "ls_in (fst (handle_frame cmd sid data st)) = ls_in st"
  by (simp add: handle_frame_def)

lemma session_iter_shrinks:
  assumes "session_iter st = (Inr True, st')"
  shows "length (ls_in st') < length (ls_in st)"
proof -
  obtain r t where t: "try_read_exact 7 (ls_in st) = (r, t)" by force
  show ?thesis
  proof (cases r)
    case (Inl e)
    with assms t show ?thesis
      using try_read_exact_length(2) [of 7 "ls_in st" t]
      by (auto simp: session_iter_def Let_def split: if_splits)
  next
    case (Inr hdr)
    let ?st1 = "drain_write_jobs (st\<lparr>ls_in := t\<rparr>)"
    have "length t < length (ls_in st)" using t Inr try_read_exact_length(1) [of 7 "ls_in st" hdr t] by simp
    moreover obtain n d st2 cmd sid where
      a: "(if n > 0 then read_data n ?st1 else (Inr [], ?st1)) = (Inr d, st2)"
      and b: "st' = fst (handle_frame cmd sid d (drain_write_jobs st2))"
      using assms unfolding session_iter_def t Inr Let_def prod.case sum.case
      by (simp split: prod.splits sum.splits) (metis fst_conv)
    have "length (ls_in st2) \<le> length t"
      using a read_data_length [of n ?st1] by (cases "n > 0") auto
    ultimately show ?thesis by (simp add: b ls_in_handle_frame)
  qed
qed

text \<open>The loop ends on an error or an alert.\<close>

function session_reader_loop :: "LoopState \<Rightarrow> (AnyTlsError + unit) \<times> LoopState" where
  "session_reader_loop st =
     (case session_iter st of
        (Inl e, st') \<Rightarrow> (Inl e, st')
      | (Inr go, st') \<Rightarrow> if go then session_reader_loop st' else (Inr (), st'))"
  by pat_completeness auto
termination
  by (relation "measure (\<lambda>st. length (ls_in st))") (auto dest!: session_iter_shrinks [OF sym])

declare session_reader_loop.simps [simp del]

section \<open>The loop refines the frame semantics\<close>

text \<open>
  The specification forgets reading, waiting and queues: a frame is a command, a stream and data,
  and its effect is on the session and on what was written.
\<close>

type_synonym sframe = "u8 \<times> u32 \<times> bytes"

definition frame_effect :: "sframe \<Rightarrow> SingSession \<times> bytes \<Rightarrow> SingSession \<times> bytes" where
  "frame_effect f so = (case (f, so) of ((cmd, sid, data), (s, out)) \<Rightarrow>
     if cmd = CMD_SYN then (create_stream sid s, out)
     else if cmd = CMD_PSH then (deliver_data sid data s, out)
     else if cmd = CMD_FIN then (close_stream sid s, out)
     else if cmd = CMD_HEART_REQ then (s, out @ session_frame CMD_HEART_RESP sid [])
     else (s, out))"

definition abs_state :: "LoopState \<Rightarrow> SingSession \<times> bytes" where
  "abs_state st = (ls_session st, ls_out st)"

text \<open>
  A frame on the tape: any number of timeouts before the header, and, when there is data, any number
  between the header and the data.
\<close>

definition frame_head7 :: "sframe \<Rightarrow> bytes" where
  "frame_head7 f = (case f of (cmd, sid, data) \<Rightarrow> cmd # u32_be sid @ u16_be (word_of_nat (length data)))"

definition frame_tape :: "nat \<times> nat \<times> sframe \<Rightarrow> tape" where
  "frame_tape x = (case x of (waits, gap, f) \<Rightarrow>
     replicate waits (Inl WouldBlock) @ bytesT (frame_head7 f)
     @ replicate gap (Inl WouldBlock) @ bytesT (snd (snd f)))"

definition frame_fits :: "nat \<times> nat \<times> sframe \<Rightarrow> bool" where
  "frame_fits x = (case x of (waits, gap, cmd, sid, data) \<Rightarrow>
     length data < 65536 \<and> cmd \<noteq> CMD_ALERT \<and> (data = [] \<longrightarrow> gap = 0))"

lemma session_frame_eq:
  "length data < 65536 \<Longrightarrow> session_frame cmd sid data = frame_head7 (cmd, sid, data) @ data"
  by (simp add: session_frame_def frame_head7_def Let_def min_def)

lemma try_read_exact_bytes [simp]:
  "length xs = n \<Longrightarrow> try_read_exact n (bytesT xs @ t) = (Inr xs, t)"
  by (induction xs arbitrary: n) auto

lemma try_read_exact_wait [simp]:
  "0 < n \<Longrightarrow> try_read_exact n (Inl e # t) = (Inl (AnyIo e), t)"
  by (cases n) auto

lemma drain_idle [simp]: "ls_arrivals st = [] \<Longrightarrow> drain_write_jobs st = st"
  by (simp add: drain_write_jobs_def)

lemma read_data_gap:
  "ls_arrivals st = [] \<Longrightarrow> data \<noteq> [] \<Longrightarrow>
     ls_in st = replicate gap (Inl WouldBlock) @ bytesT data @ t \<Longrightarrow>
     read_data (length data) st = (Inr data, st\<lparr>ls_in := t\<rparr>)"
  by (induction gap arbitrary: st) (simp_all add: read_data.simps)

lemma session_loop_waits:
  "ls_arrivals st = [] \<Longrightarrow> ls_in st = replicate k (Inl WouldBlock) @ t \<Longrightarrow>
     session_reader_loop st = session_reader_loop (st\<lparr>ls_in := t\<rparr>)"
proof (induction k arbitrary: st)
  case 0
  then have "st\<lparr>ls_in := t\<rparr> = st" by simp
  then show ?case by simp
next
  case (Suc k)
  then have "session_iter st = (Inr True, st\<lparr>ls_in := replicate k (Inl WouldBlock) @ t\<rparr>)"
    by (simp add: session_iter_def)
  then show ?case
    using Suc.IH [of "st\<lparr>ls_in := replicate k (Inl WouldBlock) @ t\<rparr>"] Suc.prems(1)
    by (simp add: session_reader_loop.simps [of st])
qed

lemma frame_head7_fields:
  assumes "length data < 65536"
  shows "length (frame_head7 (cmd, sid, data)) = 7" and "frame_head7 (cmd, sid, data) ! 0 = cmd"
    and "u32_of_be (take 4 (drop 1 (frame_head7 (cmd, sid, data)))) = sid"
    and "unat (u16_of_be (drop 5 (frame_head7 (cmd, sid, data)))) = length data"
proof -
  have "drop 5 (frame_head7 (cmd, sid, data)) = u16_be (word_of_nat (length data))"
    by (simp add: frame_head7_def)
  then show "unat (u16_of_be (drop 5 (frame_head7 (cmd, sid, data)))) = length data"
    using assms by (simp add: unat_of_nat)
qed (simp_all add: frame_head7_def)

lemma session_iter_frame:
  assumes "ls_arrivals st = []" and "length data < 65536" and "data = [] \<longrightarrow> gap = 0"
    and "ls_in st = bytesT (frame_head7 (cmd, sid, data)) @ replicate gap (Inl WouldBlock) @ bytesT data @ t"
  shows "session_iter st =
    (case handle_frame cmd sid data (st\<lparr>ls_in := t\<rparr>) of (st', go) \<Rightarrow> (Inr go, st'))"
proof -
  note hd = frame_head7_fields [OF assms(2), of cmd sid]
  let ?t = "replicate gap (Inl WouldBlock) @ bytesT data @ t"
  have r: "try_read_exact 7 (ls_in st) = (Inr (frame_head7 (cmd, sid, data)), ?t)"
    unfolding assms(4) using hd(1) by (rule try_read_exact_bytes)
  have d: "(if length data > 0 then read_data (length data) (st\<lparr>ls_in := ?t\<rparr>) else (Inr [], st\<lparr>ls_in := ?t\<rparr>))
      = (Inr data, st\<lparr>ls_in := t\<rparr>)"
    using assms(1,3) read_data_gap [of "st\<lparr>ls_in := ?t\<rparr>" data gap t] by auto
  have dr: "drain_write_jobs (st\<lparr>ls_in := u\<rparr>) = st\<lparr>ls_in := u\<rparr>" for u using assms(1) by simp
  show ?thesis
    unfolding session_iter_def r prod.case sum.case Let_def hd dr d by (simp only: prod.case sum.case dr)
qed

lemma handle_frame_effect:
  assumes "cmd \<noteq> CMD_ALERT"
  shows "\<exists>st'. handle_frame cmd sid data st = (st', True)
    \<and> abs_state st' = frame_effect (cmd, sid, data) (abs_state st)
    \<and> ls_in st' = ls_in st \<and> ls_arrivals st' = ls_arrivals st"
  using assms by (simp add: handle_frame_def frame_effect_def abs_state_def cmd_defs)

lemma session_loop_frames:
  assumes "list_all frame_fits fs" and "ls_arrivals st = []"
    and "ls_in st = concat (map frame_tape fs) @ t"
  shows "\<exists>st'. session_reader_loop st = session_reader_loop st'
    \<and> abs_state st' = fold frame_effect (map (\<lambda>x. snd (snd x)) fs) (abs_state st)
    \<and> ls_in st' = t \<and> ls_arrivals st' = []"
  using assms
proof (induction fs arbitrary: st)
  case Nil
  then show ?case by (intro exI [of _ st]) simp
next
  case (Cons x fs)
  obtain waits gap cmd sid data where x: "x = (waits, gap, cmd, sid, data)" by (cases x)
  have f: "length data < 65536" "cmd \<noteq> CMD_ALERT" "data = [] \<longrightarrow> gap = 0"
    using Cons.prems(1) by (simp_all add: x frame_fits_def)
  let ?t = "concat (map frame_tape fs) @ t"
  define st1 where "st1 = st\<lparr>ls_in := bytesT (frame_head7 (cmd, sid, data))
    @ replicate gap (Inl WouldBlock) @ bytesT data @ ?t\<rparr>"
  have w: "session_reader_loop st = session_reader_loop st1"
    unfolding st1_def using Cons.prems(2,3)
    by (intro session_loop_waits [where k = waits]) (simp_all add: x frame_tape_def [of "(_, _)"])
  obtain st2 where st2: "handle_frame cmd sid data (st1\<lparr>ls_in := ?t\<rparr>) = (st2, True)"
      "abs_state st2 = frame_effect (cmd, sid, data) (abs_state st)" "ls_in st2 = ?t" "ls_arrivals st2 = []"
    using handle_frame_effect [OF f(2), of sid data "st1\<lparr>ls_in := ?t\<rparr>"] Cons.prems(2)
    by (auto simp: st1_def abs_state_def)
  have "session_iter st1 = (Inr True, st2)"
    using session_iter_frame [OF _ f(1,3), of st1 cmd sid ?t] Cons.prems(2) st2(1)
    by (simp add: st1_def)
  then have "session_reader_loop st1 = session_reader_loop st2"
    by (simp add: session_reader_loop.simps [of st1])
  moreover obtain st3 where "session_reader_loop st2 = session_reader_loop st3"
      "abs_state st3 = fold frame_effect (map (\<lambda>x. snd (snd x)) fs) (abs_state st2)"
      "ls_in st3 = t" "ls_arrivals st3 = []"
    using Cons.IH [of st2] Cons.prems(1) st2(3,4) by auto
  ultimately show ?case using w st2(2) by (intro exI [of _ st3]) (simp add: x)
qed




section \<open>Streams do not mix\<close>

text \<open>Whatever arrives, in whatever pieces, no two streams share a channel.\<close>

definition session_inv :: "SingSession \<Rightarrow> bool" where
  "session_inv s \<longleftrightarrow>
     (\<forall>a b k. streams s a = Some k \<longrightarrow> streams s b = Some k \<longrightarrow> a = b)
     \<and> (\<forall>a k. streams s a = Some k \<longrightarrow> k < next_chan s)
     \<and> (\<forall>k. next_chan s \<le> k \<longrightarrow> chans s k = [])"

named_theorems session_keeps

lemma session_inv_new [session_keeps]: "session_inv session_new"
  by (simp add: session_inv_def session_new_def)

lemma session_inv_create [session_keeps]: "session_inv s \<Longrightarrow> session_inv (create_stream sid s)"
  unfolding session_inv_def create_stream_def by (fastforce split: if_splits)

lemma session_inv_deliver [session_keeps]: "session_inv s \<Longrightarrow> session_inv (deliver_data sid data s)"
proof (cases "streams s sid")
  case (Some k)
  assume i: "session_inv s"
  with Some have "k < next_chan s" by (simp add: session_inv_def)
  with Some i show ?thesis by (simp add: session_inv_def deliver_data_def) (metis leD)
qed (simp add: deliver_data_def)

lemma session_inv_close [session_keeps]: "session_inv s \<Longrightarrow> session_inv (close_stream sid s)"
  unfolding session_inv_def close_stream_def by (auto split: if_splits)

lemma session_inv_outgoing [session_keeps]:
  "session_inv s \<Longrightarrow> session_inv (apply_outgoing_stream_state job s)"
  by (simp add: apply_outgoing_stream_state_def session_inv_close)

lemma session_inv_jobs [session_keeps]:
  "session_inv (ls_session st) \<Longrightarrow> session_inv (ls_session (fold write_job js st))"
proof (induction js arbitrary: st)
  case (Cons j js)
  have "session_inv (ls_session (write_job j st))"
    using Cons.prems by (simp add: write_job_def session_inv_outgoing)
  with Cons.IH show ?case by simp
qed simp

lemma session_inv_drain [session_keeps]:
  "session_inv (ls_session st) \<Longrightarrow> session_inv (ls_session (drain_write_jobs st))"
  by (auto simp: drain_write_jobs_def intro!: session_keeps split: list.split)

lemma session_inv_handle [session_keeps]:
  "session_inv (ls_session st) \<Longrightarrow> session_inv (ls_session (fst (handle_frame cmd sid data st)))"
  by (simp add: handle_frame_def session_keeps)

lemma session_inv_read_data [session_keeps]:
  "session_inv (ls_session st) \<Longrightarrow> session_inv (ls_session (snd (read_data n st)))"
proof (induction n st rule: read_data.induct)
  case (1 n st)
  obtain r t where t: "try_read_exact n (ls_in st) = (r, t)" by force
  show ?case
  proof (cases "r = Inl (AnyIo WouldBlock)")
    case True
    have "session_inv (ls_session (drain_write_jobs (st\<lparr>ls_in := t\<rparr>)))"
      using 1(2) by (intro session_keeps) simp
    with 1(1) t True show ?thesis by (auto simp: read_data.simps [of n st])
  next
    case False
    with t 1(2) show ?thesis by (auto simp: read_data.simps [of n st] split: sum.split)
  qed
qed

lemma session_inv_iter [session_keeps]:
  assumes "session_inv (ls_session st)"
  shows "session_inv (ls_session (snd (session_iter st)))"
proof -
  obtain r t where t: "try_read_exact 7 (ls_in st) = (r, t)" by force
  define st1 where "st1 = drain_write_jobs (st\<lparr>ls_in := t\<rparr>)"
  have i1: "session_inv (ls_session st1)" unfolding st1_def using assms by (intro session_keeps) simp
  show ?thesis
  proof (cases r)
    case (Inl e)
    then show ?thesis using i1 by (simp add: session_iter_def t Let_def flip: st1_def)
  next
    case (Inr hdr)
    define n where "n = unat (u16_of_be (drop 5 hdr))"
    obtain q st2 where q: "(if n > 0 then read_data n st1 else (Inr [], st1)) = (q, st2)" by force
    have i2: "session_inv (ls_session st2)"
      using i1 q session_inv_read_data [OF i1, of n] by (cases "n > 0") auto
    have "session_iter st = (case q of Inl e \<Rightarrow> (Inl e, st2)
        | Inr data \<Rightarrow> (case handle_frame (hdr ! 0) (u32_of_be (take 4 (drop 1 hdr))) data (drain_write_jobs st2)
            of (st3, go) \<Rightarrow> (Inr go, st3)))"
      unfolding session_iter_def t Inr Let_def prod.case sum.case st1_def [symmetric] n_def [symmetric] q ..
    then show ?thesis
      using i2 session_inv_handle [OF session_inv_drain [OF i2]]
      by (simp add: case_prod_beta split: sum.split)
  qed
qed




text \<open>What a stream receives after it was opened, while its identifier is neither reused nor closed.\<close>

definition stream_data :: "u32 \<Rightarrow> sframe list \<Rightarrow> bytes list" where
  "stream_data sid fs = map (\<lambda>f. snd (snd f)) (filter (\<lambda>f. fst f = CMD_PSH \<and> fst (snd f) = sid) fs)"

definition leaves_open :: "u32 \<Rightarrow> sframe \<Rightarrow> bool" where
  "leaves_open sid f \<longleftrightarrow> \<not> (fst f \<in> {CMD_SYN, CMD_FIN} \<and> fst (snd f) = sid)"

lemma frame_effect_inv: "session_inv (fst so) \<Longrightarrow> session_inv (fst (frame_effect f so))"
  by (auto simp: frame_effect_def split: prod.split intro: session_keeps)

lemma frame_effect_open:
  assumes "leaves_open sid f" and "session_inv s" and "streams s sid = Some k"
  shows "streams (fst (frame_effect f (s, out))) sid = Some k
    \<and> chans (fst (frame_effect f (s, out))) k = chans s k @ stream_data sid [f]"
proof -
  obtain cmd x data where f: "f = (cmd, x, data)" by (cases f)
  have k: "k < next_chan s" and other: "\<And>y j. streams s y = Some j \<Longrightarrow> y \<noteq> sid \<Longrightarrow> j \<noteq> k"
    using assms(2,3) by (auto simp: session_inv_def)
  consider "cmd = CMD_SYN" | "cmd = CMD_PSH" | "cmd = CMD_FIN" | "cmd \<notin> {CMD_SYN, CMD_PSH, CMD_FIN}" by blast
  then show ?thesis
  proof cases
    case 2
    then show ?thesis
      using assms(3) other [of x]
      by (cases "streams s x"; cases "x = sid")
        (simp_all add: f frame_effect_def stream_data_def deliver_data_def cmd_defs)
  qed (use assms(1,3) in \<open>simp_all add: f frame_effect_def leaves_open_def stream_data_def
      create_stream_def close_stream_def cmd_defs\<close>)
qed

lemma fold_frame_effect_open:
  assumes "list_all (leaves_open sid) fs" and "session_inv (fst so)" and "streams (fst so) sid = Some k"
  shows "chans (fst (fold frame_effect fs so)) k = chans (fst so) k @ stream_data sid fs"
  using assms
proof (induction fs arbitrary: so)
  case Nil
  then show ?case by (simp add: stream_data_def)
next
  case (Cons f fs)
  obtain s out where so: "so = (s, out)" by force
  have "streams (fst (frame_effect f so)) sid = Some k"
    "chans (fst (frame_effect f so)) k = chans s k @ stream_data sid [f]"
    using frame_effect_open [of sid f s k out] Cons.prems by (simp_all add: so)
  then show ?case
    using Cons.IH [of "frame_effect f so"] Cons.prems frame_effect_inv [of so f]
    by (simp add: so stream_data_def)
qed



text \<open>
  A timeout inside a header loses the frame. When part of a frame's header arrives before a
  read timeout, those bytes are dropped and the loop takes the rest of the header for the start of
  the next one: the data of an open stream never reaches it.
\<close>

theorem anytls_timeout_desync:
  "let fr = bytesT (session_frame CMD_PSH 1 [65, 66]);
       st = \<lparr>ls_in = bytesT (session_frame CMD_SYN 1 []) @ take 3 fr @ [Inl WouldBlock] @ drop 3 fr,
             ls_out = [], ls_session = session_new, ls_arrivals = []\<rparr>
   in \<exists>st'. session_reader_loop st = (Inl (AnyIo UnexpectedEof), st')
        \<and> streams (ls_session st') 1 = Some 0 \<and> chans (ls_session st') 0 = []"
proof -
  let ?fr = "bytesT (session_frame CMD_PSH 1 [65, 66])"
  let ?st = "\<lparr>ls_in = bytesT (session_frame CMD_SYN 1 []) @ take 3 ?fr @ [Inl WouldBlock] @ drop 3 ?fr,
             ls_out = [], ls_session = session_new, ls_arrivals = []\<rparr>"
  have fr: "?fr = bytesT [2, 0, 0, 0, 1, 0, 2, 65, 66]"
    by (simp add: session_frame_def cmd_defs u32_be_def u16_be_def Let_def)
  obtain st1 where st1: "session_reader_loop ?st = session_reader_loop st1"
      "abs_state st1 = frame_effect (CMD_SYN, 1, []) (abs_state ?st)"
      "ls_in st1 = take 3 ?fr @ [Inl WouldBlock] @ drop 3 ?fr" "ls_arrivals st1 = []"
    using session_loop_frames [of "[(0, 0, CMD_SYN, 1, [])]" ?st "take 3 ?fr @ [Inl WouldBlock] @ drop 3 ?fr"]
    by (auto simp: frame_fits_def frame_tape_def session_frame_eq cmd_defs)
  let ?st2 = "st1\<lparr>ls_in := drop 3 ?fr\<rparr>" and ?st3 = "st1\<lparr>ls_in := []\<rparr>"
  have i1: "session_iter st1 = (Inr True, ?st2)"
    using st1(3,4) by (simp add: session_iter_def fr eval_nat_numeral)
  have i2: "session_iter ?st2 = (Inl (AnyIo UnexpectedEof), ?st3)"
    using st1(3,4) by (simp add: session_iter_def fr eval_nat_numeral)
  have "session_reader_loop ?st = (Inl (AnyIo UnexpectedEof), ?st3)"
    unfolding st1(1) session_reader_loop.simps [of st1] i1 prod.case sum.case if_True
      session_reader_loop.simps [of ?st2] i2 ..
  moreover have "ls_session st1 = create_stream 1 session_new"
    using st1(2) by (simp add: abs_state_def frame_effect_def)
  ultimately show ?thesis
    by (simp add: Let_def create_stream_def session_new_def)
qed

end
