(* ===== verification/Anytls_Stream.thy ===== *)
theory Anytls_Stream
  imports Anytls_Session
begin

text \<open>
  The reading end of a multiplexed stream (\<open>crates/anytls/src/stream.rs\<close>) and the settings handshake
  (\<open>session.rs\<close>). A receiver is the queue of chunks its channel still holds and whether the sender is
  alive; a \<open>recv\<close> on an empty queue with a live sender blocks, which is the value \<open>None\<close>.
\<close>

record SingStream =
  stream_id :: u32
  rx_queue :: "bytes list"
  rx_alive :: bool
  stream_buffer :: bytes
  buf_pos :: nat
  stream_closed :: bool

definition stream_new :: "u32 \<Rightarrow> bytes list \<Rightarrow> bool \<Rightarrow> SingStream" where
  "stream_new sid queue alive =
     \<lparr>stream_id = sid, rx_queue = queue, rx_alive = alive, stream_buffer = [], buf_pos = 0,
      stream_closed = False\<rparr>"

text \<open>\<open>data_rx.recv()\<close>: \<open>None\<close> blocks, \<open>Some None\<close> is a hung-up channel.\<close>

definition rx_recv :: "SingStream \<Rightarrow> bytes option option" where
  "rx_recv s = (case rx_queue s of d # _ \<Rightarrow> Some (Some d) | [] \<Rightarrow> if rx_alive s then None else Some None)"

definition read_chunk :: "SingStream \<Rightarrow> (bytes option \<times> SingStream) option" where
  "read_chunk s =
     (if stream_closed s then Some (None, s)
      else if buf_pos s < length (stream_buffer s)
      then Some (Some (drop (buf_pos s) (stream_buffer s)), s\<lparr>buf_pos := length (stream_buffer s)\<rparr>)
      else case rx_recv s of
        None \<Rightarrow> None
      | Some None \<Rightarrow> Some (None, s\<lparr>stream_closed := True\<rparr>)
      | Some (Some d) \<Rightarrow>
          Some (Some d, s\<lparr>rx_queue := tl (rx_queue s), stream_buffer := d, buf_pos := length d\<rparr>))"

definition try_read_chunk :: "SingStream \<Rightarrow> bytes option \<times> SingStream" where
  "try_read_chunk s =
     (if stream_closed s then (None, s)
      else if buf_pos s < length (stream_buffer s)
      then (Some (drop (buf_pos s) (stream_buffer s)), s\<lparr>buf_pos := length (stream_buffer s)\<rparr>)
      else case rx_recv s of
        None \<Rightarrow> (None, s)
      | Some None \<Rightarrow> (None, s\<lparr>stream_closed := True\<rparr>)
      | Some (Some d) \<Rightarrow>
          (Some d, s\<lparr>rx_queue := tl (rx_queue s), stream_buffer := d, buf_pos := length d\<rparr>))"

text \<open>
  The loop of \<open>read_exact\<close>: one step refills the buffer if it is used up (or the stream is marked
  closed), then moves what the buffer has.
\<close>

definition refill :: "SingStream \<Rightarrow> (bool \<times> SingStream) option" where
  "refill s =
     (if stream_closed s \<or> buf_pos s \<ge> length (stream_buffer s) then
        (case rx_recv s of
           None \<Rightarrow> None
         | Some None \<Rightarrow> Some (False, s\<lparr>stream_closed := True\<rparr>)
         | Some (Some d) \<Rightarrow> Some (True, s\<lparr>rx_queue := tl (rx_queue s), stream_buffer := d, buf_pos := 0\<rparr>))
      else Some (True, s))"

lemma refill_measure:
  "refill s = Some (True, s') \<Longrightarrow>
     length (rx_queue s') < length (rx_queue s) \<or>
     (rx_queue s' = rx_queue s \<and> buf_pos s' < length (stream_buffer s'))"
  by (auto simp: refill_def rx_recv_def split: if_splits list.splits)

function stream_read_exact :: "nat \<Rightarrow> bytes \<Rightarrow> SingStream \<Rightarrow> (bytes \<times> SingStream) option" where
  "stream_read_exact len out s =
     (if length out \<ge> len then Some (out, s)
      else case refill s of
        None \<Rightarrow> None
      | Some (False, s') \<Rightarrow> Some (out, s')
      | Some (True, s') \<Rightarrow>
          let n = min (length (stream_buffer s') - buf_pos s') (len - length out)
          in stream_read_exact len (out @ take n (drop (buf_pos s') (stream_buffer s')))
               (s'\<lparr>buf_pos := buf_pos s' + n\<rparr>))"
  by pat_completeness auto
termination
  by (relation "measures [\<lambda>(len, out, s). length (rx_queue s), \<lambda>(len, out, s). len - length out]")
    (auto dest!: refill_measure)

declare stream_read_exact.simps [simp del]

datatype PeekResult = PeekByte u8 | PeekClosed | PeekBlocks | PeekPanics

definition peek_byte :: "SingStream \<Rightarrow> PeekResult \<times> SingStream" where
  "peek_byte s =
     (if stream_closed s then (PeekClosed, s)
      else if buf_pos s < length (stream_buffer s) then (PeekByte (stream_buffer s ! buf_pos s), s)
      else case rx_recv s of
        None \<Rightarrow> (PeekBlocks, s)
      | Some None \<Rightarrow> (PeekClosed, s\<lparr>stream_closed := True\<rparr>)
      | Some (Some d) \<Rightarrow>
          if d = [] then (PeekPanics, s)
          else (PeekByte (hd d), s\<lparr>rx_queue := tl (rx_queue s), stream_buffer := d, buf_pos := 0\<rparr>))"

text \<open>The writer adapter.\<close>

definition stream_write :: "u32 \<Rightarrow> bytes \<Rightarrow> WriteJob list" where
  "stream_write sid data = send_psh sid data"

definition stream_close :: "u32 \<Rightarrow> WriteJob list" where
  "stream_close sid = send_fin sid"

section \<open>The settings handshake\<close>

text \<open>The first byte of the frame, the command, has been read by the protocol detection.\<close>

definition complete_settings_handshake :: "tape \<Rightarrow> (AnyTlsError + ClientSettings) \<times> tape \<times> bytes" where
  "complete_settings_handshake t =
     (case tls_read_exact 6 t of
        (Inl e, t1) \<Rightarrow> (Inl e, t1, [])
      | (Inr hdr, t1) \<Rightarrow>
          (case tls_read_exact (unat (u16_of_be (drop 4 hdr))) t1 of
             (Inl e, t2) \<Rightarrow> (Inl e, t2, [])
           | (Inr body, t2) \<Rightarrow>
               let settings = parse_settings body in
               (Inr settings, t2,
                if cs_version settings \<ge> 2
                then session_frame CMD_SERVER_SETTINGS 0 (str ''v=2'' @ [0x0a]) else [])))"

section \<open>Reading from a stream\<close>

text \<open>Everything a stream will still give.\<close>

definition stream_pending :: "SingStream \<Rightarrow> bytes" where
  "stream_pending s = drop (buf_pos s) (stream_buffer s) @ concat (rx_queue s)"

definition stream_wf :: "SingStream \<Rightarrow> bool" where
  "stream_wf s \<longleftrightarrow> buf_pos s \<le> length (stream_buffer s) \<and> \<not> stream_closed s"

lemma refill_pending:
  assumes "stream_wf s"
  shows "refill s = Some (True, s') \<Longrightarrow> stream_pending s' = stream_pending s \<and> stream_wf s' \<and> rx_alive s' = rx_alive s"
    and "refill s = None \<Longrightarrow> stream_pending s = [] \<and> rx_alive s"
    and "refill s = Some (False, s') \<Longrightarrow> stream_pending s = [] \<and> \<not> rx_alive s \<and> stream_pending s' = []"
  using assms
  by (auto simp: refill_def rx_recv_def stream_pending_def stream_wf_def split: if_splits list.splits)

lemma stream_read_exact_pending:
  assumes "stream_wf s" and "length out \<le> len"
  shows "case stream_read_exact len out s of
      None \<Rightarrow> rx_alive s \<and> length out + length (stream_pending s) < len
    | Some (got, s') \<Rightarrow> got = out @ take (len - length out) (stream_pending s)
        \<and> stream_pending s' = drop (len - length out) (stream_pending s)
        \<and> (rx_alive s \<longrightarrow> len \<le> length out + length (stream_pending s))"
  using assms
proof (induction len out s rule: stream_read_exact.induct)
  case (1 len out s)
  show ?case
  proof (cases "length out \<ge> len")
    case True
    with 1(3) show ?thesis by (simp add: stream_read_exact.simps [of len out s])
  next
    case False
    show ?thesis
    proof (cases "refill s")
      case None
      with False refill_pending(2) [OF 1(2)] show ?thesis by (simp add: stream_read_exact.simps [of len out s])
    next
      case (Some p)
      obtain b s1 where p: "p = (b, s1)" by force
      show ?thesis
      proof (cases b)
        case False': False
        with False Some p refill_pending(3) [OF 1(2), of s1] show ?thesis
          by (simp add: stream_read_exact.simps [of len out s])
      next
        case True
        define n where "n = min (length (stream_buffer s1) - buf_pos s1) (len - length out)"
        define out1 where "out1 = out @ take n (drop (buf_pos s1) (stream_buffer s1))"
        define s2 where "s2 = s1\<lparr>buf_pos := buf_pos s1 + n\<rparr>"
        have s1: "stream_pending s1 = stream_pending s" "stream_wf s1" "rx_alive s1 = rx_alive s"
          using refill_pending(1) [OF 1(2), of s1] Some p True by simp_all
        have wf2: "stream_wf s2" "length out1 \<le> len"
          using s1(2) False by (auto simp: stream_wf_def s2_def n_def out1_def)
        have step: "stream_read_exact len out s = stream_read_exact len out1 s2"
          using False Some p True by (simp add: stream_read_exact.simps [of len out s] n_def out1_def s2_def Let_def)
        have split: "stream_pending s = take n (drop (buf_pos s1) (stream_buffer s1)) @ stream_pending s2"
        proof -
          have "stream_pending s1 = take n (drop (buf_pos s1) (stream_buffer s1)) @ stream_pending s2"
            unfolding stream_pending_def s2_def by (simp add: add.commute flip: drop_drop append_assoc)
          then show ?thesis using s1(1) by simp
        qed
        have n: "length (take n (drop (buf_pos s1) (stream_buffer s1))) = n" "n \<le> len - length out"
          by (simp_all add: n_def)
        have IH: "case stream_read_exact len out1 s2 of
            None \<Rightarrow> rx_alive s2 \<and> length out1 + length (stream_pending s2) < len
          | Some (got, s') \<Rightarrow> got = out1 @ take (len - length out1) (stream_pending s2)
              \<and> stream_pending s' = drop (len - length out1) (stream_pending s2)
              \<and> (rx_alive s2 \<longrightarrow> len \<le> length out1 + length (stream_pending s2))"
          using 1(1) False Some p True wf2 unfolding n_def out1_def s2_def by simp
        show ?thesis
          using IH n s1(3) unfolding step split
          by (auto simp: out1_def s2_def split: option.splits prod.splits)
      qed
    qed
  qed
qed


text \<open>
  Reading an exact number of bytes from a stream is reading them from everything sent into it.
  Whatever the chunk boundaries, \<open>read_exact\<close> returns the next bytes, or all that are left when the
  sender has hung up, and leaves the rest for the next read; it blocks only when the sender is alive
  and has not sent enough yet.
\<close>

theorem anytls_stream_read_exact:
  assumes "buf_pos s \<le> length (stream_buffer s)" and "\<not> stream_closed s"
  shows "if rx_alive s \<and> length (stream_pending s) < len then stream_read_exact len [] s = None
    else \<exists>s'. stream_read_exact len [] s = Some (take len (stream_pending s), s')
           \<and> stream_pending s' = drop len (stream_pending s)"
  using stream_read_exact_pending [of s "[]" len] assms
  by (auto simp: stream_wf_def split: option.splits)

theorem anytls_stream_read_exact_witness:
  "\<exists>s'. stream_read_exact 4 [] (stream_new 9 [[1, 2], [], [3, 4, 5]] True) = Some ([1, 2, 3, 4], s')
     \<and> stream_pending s' = [5]"
  using anytls_stream_read_exact [of "stream_new 9 [[1, 2], [], [3, 4, 5]] True" 4]
  by (simp add: stream_new_def stream_pending_def)

text \<open>
  An empty data frame crashes the stream's reader. Peeking at the first byte of a stream whose
  next chunk is empty indexes an empty vector; a peer can queue such a chunk with a data frame of
  length 0.
\<close>

theorem anytls_peek_panics:
  "fst (peek_byte (stream_new sid (chans (fst (fold frame_effect [(CMD_SYN, sid, []), (CMD_PSH, sid, [])]
     (session_new, []))) 0) alive)) = PeekPanics"
  by (simp add: peek_byte_def stream_new_def rx_recv_def frame_effect_def cmd_defs create_stream_def
      deliver_data_def session_new_def)

section \<open>Large writes\<close>

text \<open>
  A write of any size reaches the peer whole. The frames that writing to a stream queues carry
  its identifier and at most 65535 bytes each, so none is truncated on the wire, and their data put
  together is what was written.
\<close>

theorem anytls_stream_write_whole:
  "concat (map job_data (stream_write sid data)) = data
   \<and> list_all (\<lambda>j. job_cmd j = CMD_PSH \<and> job_sid j = sid
       \<and> session_frame (job_cmd j) (job_sid j) (job_data j)
         = frame_head7 (job_cmd j, job_sid j, job_data j) @ job_data j) (stream_write sid data)"
proof (cases "length data > 65535")
  case True
  have "length c < 65536" if "c \<in> set (chunks 65535 data)" for c
    using chunks_length [OF that] by simp
  with True show ?thesis
    by (auto simp: stream_write_def send_psh_def list_all_iff comp_def session_frame_eq)
next
  case False
  then show ?thesis by (simp add: stream_write_def send_psh_def session_frame_eq)
qed

end
