(* ===== verification/Kcp_Codec.thy ===== *)
theory Kcp_Codec
  imports Codec
begin

unbundle bit_operations_syntax

text \<open>
  The wire format of mKCP: the segments of \<open>handler/kcp/xray_session.rs\<close> and the packet mask of
  \<open>handler/kcp.rs\<close>. AES-GCM and SHA-256 are third-party: the mask with a key takes the sealing and
  opening functions as arguments.
\<close>

section \<open>Segments\<close>

record DataSegment =
  ds_option :: u8
  ds_timestamp :: u32
  ds_number :: u32
  ds_payload :: bytes

record AckSegment =
  as_option :: u8
  as_receiving_window :: u32
  as_receiving_next :: u32
  as_timestamp :: u32
  as_numbers :: "u32 list"

record CmdSegment =
  cs_cmd :: u8
  cs_option :: u8
  cs_receiving_next :: u32
  cs_peer_rto :: u32

datatype Segment = SegData DataSegment | SegAck AckSegment | SegCmd CmdSegment

definition field :: "nat \<Rightarrow> nat \<Rightarrow> bytes \<Rightarrow> bytes" where
  "field i n buf = take n (drop i buf)"

definition peek_conv :: "bytes \<Rightarrow> u16 option" where
  "peek_conv packet = (if length packet < 2 then None else Some (u16_of_be (take 2 packet)))"

definition parse_data :: "u8 \<Rightarrow> bytes \<Rightarrow> (Segment \<times> bytes) option" where
  "parse_data opt buf =
     (if length buf < 14 then None
      else let data_len = unat (u16_of_be (field 12 2 buf)) in
        if length buf < 14 + data_len then None
        else Some (SegData \<lparr>ds_option = opt, ds_timestamp = u32_of_be (field 0 4 buf),
                     ds_number = u32_of_be (field 4 4 buf), ds_payload = field 14 data_len buf\<rparr>,
                   drop (14 + data_len) buf))"

fun read_numbers :: "nat \<Rightarrow> bytes \<Rightarrow> u32 list" where
  "read_numbers 0 buf = []"
| "read_numbers (Suc n) buf = u32_of_be (take 4 buf) # read_numbers n (drop 4 buf)"

definition parse_ack :: "u8 \<Rightarrow> bytes \<Rightarrow> (Segment \<times> bytes) option" where
  "parse_ack opt buf =
     (if length buf < 13 then None
      else let count = unat (buf ! 12) in
        if length buf < 13 + count * 4 then None
        else Some (SegAck \<lparr>as_option = opt, as_receiving_window = u32_of_be (field 0 4 buf),
                     as_receiving_next = u32_of_be (field 4 4 buf),
                     as_timestamp = u32_of_be (field 8 4 buf),
                     as_numbers = read_numbers count (drop 13 buf)\<rparr>,
                   drop (13 + count * 4) buf))"

definition parse_cmd :: "u8 \<Rightarrow> u8 \<Rightarrow> bytes \<Rightarrow> (Segment \<times> bytes) option" where
  "parse_cmd cmd opt buf =
     (if length buf < 12 then None
      else Some (SegCmd \<lparr>cs_cmd = cmd, cs_option = opt, cs_receiving_next = u32_of_be (field 4 4 buf),
                   cs_peer_rto = u32_of_be (field 8 4 buf)\<rparr>, drop 12 buf))"

definition read_segment :: "bytes \<Rightarrow> (Segment \<times> bytes) option" where
  "read_segment buf =
     (if length buf < 4 then None
      else let cmd = buf ! 2; opt = buf ! 3; rest = drop 4 buf in
        if cmd = 1 then parse_data opt rest
        else if cmd = 0 then parse_ack opt rest
        else parse_cmd cmd opt rest)"

definition serialize_data :: "u16 \<Rightarrow> u8 \<Rightarrow> u32 \<Rightarrow> u32 \<Rightarrow> u32 \<Rightarrow> bytes \<Rightarrow> bytes" where
  "serialize_data conv opt timestamp number sending_next payload =
     u16_be conv @ [1, opt] @ u32_be timestamp @ u32_be number @ u32_be sending_next
     @ u16_be (word_of_nat (length payload)) @ payload"

definition serialize_ack :: "u16 \<Rightarrow> u8 \<Rightarrow> u32 \<Rightarrow> u32 \<Rightarrow> u32 \<Rightarrow> u32 list \<Rightarrow> bytes" where
  "serialize_ack conv opt receiving_window receiving_next timestamp numbers =
     u16_be conv @ [0, opt] @ u32_be receiving_window @ u32_be receiving_next @ u32_be timestamp
     @ [word_of_nat (length numbers)] @ concat (map u32_be numbers)"

definition serialize_cmd :: "u16 \<Rightarrow> u8 \<Rightarrow> u8 \<Rightarrow> u32 \<Rightarrow> u32 \<Rightarrow> u32 \<Rightarrow> bytes" where
  "serialize_cmd conv cmd opt sending_next receiving_next peer_rto =
     u16_be conv @ [cmd, opt] @ u32_be sending_next @ u32_be receiving_next @ u32_be peer_rto"

text \<open>The segments of a packet: parsing stops at the first one that does not parse.\<close>

lemma read_segment_shrinks: "read_segment buf = Some (seg, rest) \<Longrightarrow> length rest < length buf"
  by (auto simp: read_segment_def parse_data_def parse_ack_def parse_cmd_def Let_def split: if_splits)

function segments :: "bytes \<Rightarrow> Segment list" where
  "segments buf = (case read_segment buf of None \<Rightarrow> [] | Some (seg, rest) \<Rightarrow> seg # segments rest)"
  by pat_completeness auto
termination
  by (relation "measure length") (auto dest: read_segment_shrinks)

declare segments.simps [simp del]

section \<open>The packet mask\<close>

definition fnv1a_32 :: "bytes \<Rightarrow> u32" where
  "fnv1a_32 data = fold (\<lambda>b hash. (hash XOR word_of_nat (unat b)) * 0x01000193) data 0x811c9dc5"

text \<open>\<open>data[i] ^= data[i - 4]\<close> for \<open>i\<close> upwards from 4, and downwards to 4.\<close>

definition xor_at :: "nat \<Rightarrow> bytes \<Rightarrow> bytes" where
  "xor_at i data = data[i := data ! i XOR data ! (i - 4)]"

definition xorfwd :: "bytes \<Rightarrow> bytes" where
  "xorfwd data = fold xor_at [4..<length data] data"

definition xorbkd :: "bytes \<Rightarrow> bytes" where
  "xorbkd data = fold xor_at (rev [4..<length data]) data"

datatype KcpPacketMask = MaskOriginal | MaskAes128Gcm bytes

definition MKCP_ORIGINAL_OVERHEAD :: nat where "MKCP_ORIGINAL_OVERHEAD = 6"

fun mask_overhead :: "KcpPacketMask \<Rightarrow> nat" where
  "mask_overhead MaskOriginal = MKCP_ORIGINAL_OVERHEAD"
| "mask_overhead (MaskAes128Gcm key) = 16"

text \<open>\<open>resize(padded_len, 0)\<close> to the next multiple of four.\<close>

definition pad4 :: "bytes \<Rightarrow> bytes" where
  "pad4 bs = bs @ replicate (if length bs mod 4 = 0 then 0 else 4 - length bs mod 4) 0"

definition mask_original :: "bytes \<Rightarrow> bytes" where
  "mask_original plaintext =
     (let body = u16_be (word_of_nat (length plaintext)) @ plaintext;
          packet = u32_be (fnv1a_32 body) @ body
      in take (MKCP_ORIGINAL_OVERHEAD + length plaintext) (xorfwd (pad4 packet)))"

definition unmask_original :: "bytes \<Rightarrow> bytes option" where
  "unmask_original packet =
     (if length packet < MKCP_ORIGINAL_OVERHEAD then None
      else let data = xorbkd (pad4 packet) in
        if fnv1a_32 (drop 4 (take (length packet) data)) \<noteq> u32_of_be (take 4 data) then None
        else let len = unat (u16_of_be (field 4 2 data)) in
          if length packet - MKCP_ORIGINAL_OVERHEAD \<noteq> len then None
          else Some (field 6 len data))"

text \<open>
  \<open>seal key nonce plaintext\<close> gives ciphertext and tag, or \<open>None\<close>; \<open>open_\<close> takes them back. The nonce is
  the random twelve bytes of the packet.
\<close>

definition mask_wrap ::
  "(bytes \<Rightarrow> bytes \<Rightarrow> bytes \<Rightarrow> (bytes \<times> bytes) option) \<Rightarrow> bytes \<Rightarrow> KcpPacketMask \<Rightarrow> bytes \<Rightarrow> bytes option" where
  "mask_wrap seal nonce m plaintext =
     (case m of
        MaskOriginal \<Rightarrow> Some (mask_original plaintext)
      | MaskAes128Gcm key \<Rightarrow>
          (case seal key nonce plaintext of
             None \<Rightarrow> None | Some (ciphertext, tag) \<Rightarrow> Some (nonce @ ciphertext @ tag)))"

definition mask_unwrap ::
  "(bytes \<Rightarrow> bytes \<Rightarrow> bytes \<Rightarrow> bytes \<Rightarrow> bytes option) \<Rightarrow> KcpPacketMask \<Rightarrow> bytes \<Rightarrow> bytes option" where
  "mask_unwrap unseal m packet =
     (case m of
        MaskOriginal \<Rightarrow> unmask_original packet
      | MaskAes128Gcm key \<Rightarrow>
          if length packet < 12 + 16 then None
          else let split = length packet - 16 in
            unseal key (take 12 packet) (drop 12 (take split packet)) (drop split packet))"

section \<open>Segments round-trip\<close>

lemma read_numbers_concat: "read_numbers (length ns) (concat (map u32_be ns) @ rest) = ns"
  by (induction ns) simp_all

lemma length_concat_u32 [simp]: "length (concat (map u32_be ns)) = length ns * 4"
  by (induction ns) simp_all

lemma read_serialize_data:
  assumes "length payload < 65536"
  shows "read_segment (serialize_data conv opt ts number nxt payload @ rest) =
    Some (SegData \<lparr>ds_option = opt, ds_timestamp = ts, ds_number = number, ds_payload = payload\<rparr>, rest)"
  using assms
  by (simp add: read_segment_def serialize_data_def parse_data_def field_def nth_append unat_of_nat Let_def)

lemma read_serialize_ack:
  assumes "length numbers < 256"
  shows "read_segment (serialize_ack conv opt wnd nxt ts numbers @ rest) =
    Some (SegAck \<lparr>as_option = opt, as_receiving_window = wnd, as_receiving_next = nxt,
      as_timestamp = ts, as_numbers = numbers\<rparr>, rest)"
  using assms
  by (simp add: read_segment_def serialize_ack_def parse_ack_def field_def nth_append unat_of_nat Let_def
      read_numbers_concat)

lemma read_serialize_cmd:
  assumes "cmd \<noteq> 0" and "cmd \<noteq> 1"
  shows "read_segment (serialize_cmd conv cmd opt snxt nxt rto @ rest) =
    Some (SegCmd \<lparr>cs_cmd = cmd, cs_option = opt, cs_receiving_next = nxt, cs_peer_rto = rto\<rparr>, rest)"
  using assms
  by (simp add: read_segment_def serialize_cmd_def parse_cmd_def field_def nth_append Let_def)

section \<open>The mask is a bijection onto the packets it accepts\<close>

lemma length_xor_at [simp]: "length (xor_at i d) = length d"
  by (simp add: xor_at_def)

lemma length_fold_xor_at [simp]: "length (fold xor_at is d) = length d"
  by (induction "is" arbitrary: d) simp_all

lemma length_xorfwd [simp]: "length (xorfwd d) = length d"
  by (simp add: xorfwd_def)

lemma length_xorbkd [simp]: "length (xorbkd d) = length d"
  by (simp add: xorbkd_def)

lemma fold_fwd_nth:
  assumes "4 \<le> m" and "m \<le> length d" and "j < length d"
  shows "fold xor_at [4..<m] d ! j =
    (if j < 4 \<or> m \<le> j then d ! j else d ! j XOR fold xor_at [4..<m] d ! (j - 4))"
  using assms
proof (induction m arbitrary: j rule: dec_induct)
  case base
  then show ?case by auto
next
  case (step m)
  have IH: "j < length d \<Longrightarrow> fold xor_at [4..<m] d ! j =
    (if j < 4 \<or> m \<le> j then d ! j else d ! j XOR fold xor_at [4..<m] d ! (j - 4))" for j
    using step by simp
  show ?case
    using step.prems step.hyps
    by (cases "j = m") (auto simp: xor_at_def [of m] nth_list_update IH)
qed

lemma xorfwd_nth:
  assumes "i < length d"
  shows "xorfwd d ! i = (if i < 4 then d ! i else d ! i XOR xorfwd d ! (i - 4))"
proof (cases "4 \<le> length d")
  case True
  then show ?thesis
    using fold_fwd_nth [of "length d" d i] assms by (simp add: xorfwd_def)
next
  case False
  then show ?thesis using assms by (simp add: xorfwd_def)
qed

lemma fold_bkd_nth:
  assumes "k \<le> n" and "n \<le> length d" and "4 \<le> k" and "j < length d"
  shows "fold xor_at (rev [k..<n]) d ! j =
    (if k \<le> j \<and> j < n then d ! j XOR d ! (j - 4) else d ! j)"
  using assms
proof (induction k arbitrary: j rule: inc_induct)
  case base
  then show ?case by auto
next
  case (step k)
  have IH: "j < length d \<Longrightarrow> fold xor_at (rev [Suc k..<n]) d ! j =
    (if Suc k \<le> j \<and> j < n then d ! j XOR d ! (j - 4) else d ! j)" for j
    using step by simp
  have up: "rev [k..<n] = rev [Suc k..<n] @ [k]"
    using step.hyps by (simp add: upt_conv_Cons)
  show ?case
    unfolding up fold_append comp_apply fold_simps id_apply xor_at_def [of k]
    using step.prems step.hyps by (cases "j = k") (auto simp: nth_list_update IH)
qed

lemma xorbkd_nth:
  assumes "i < length d"
  shows "xorbkd d ! i = (if i < 4 then d ! i else d ! i XOR d ! (i - 4))"
proof (cases "4 \<le> length d")
  case True
  then show ?thesis
    using fold_bkd_nth [of 4 "length d" d i] assms by (simp add: xorbkd_def)
next
  case False
  then show ?thesis using assms by (simp add: xorbkd_def)
qed

lemma xorbkd_xorfwd [simp]: "xorbkd (xorfwd d) = d"
  by (rule nth_equalityI) (auto simp: xorbkd_nth xorfwd_nth [of _ d] xor.assoc)

lemma xorfwd_xorbkd [simp]: "xorfwd (xorbkd d) = d"
proof (rule nth_equalityI)
  show "i < length (xorfwd (xorbkd d)) \<Longrightarrow> xorfwd (xorbkd d) ! i = d ! i" for i
  proof (induction i rule: less_induct)
    case (less i)
    then show ?case
      using less.IH [of "i - 4"] by (simp add: xorfwd_nth [of i] xorbkd_nth [of i] xor.assoc)
  qed
qed simp

lemma take_xorfwd: "take n (xorfwd d) = xorfwd (take n d)"
proof (rule nth_equalityI)
  show "i < length (take n (xorfwd d)) \<Longrightarrow> take n (xorfwd d) ! i = xorfwd (take n d) ! i" for i
  proof (induction i rule: less_induct)
    case (less i)
    then show ?case
      using less.IH [of "i - 4"] by (simp add: xorfwd_nth [of i])
  qed
qed simp

lemma take_xorbkd: "take n (xorbkd d) = xorbkd (take n d)"
  by (rule nth_equalityI) (auto simp: xorbkd_nth)

lemma take_pad4 [simp]: "take (length d) (pad4 d) = d"
  by (simp add: pad4_def)

lemma length_pad4: "length d \<le> length (pad4 d)"
  by (simp add: pad4_def)

definition mask_body :: "bytes \<Rightarrow> bytes" where
  "mask_body p = u16_be (word_of_nat (length p)) @ p"

definition mask_plain :: "bytes \<Rightarrow> bytes" where
  "mask_plain p = u32_be (fnv1a_32 (mask_body p)) @ mask_body p"

lemma length_mask_plain [simp]: "length (mask_plain p) = 6 + length p"
  by (simp add: mask_plain_def mask_body_def)

lemma mask_original_alt: "mask_original p = xorfwd (mask_plain p)"
proof -
  have "mask_original p = take (length (mask_plain p)) (xorfwd (pad4 (mask_plain p)))"
    by (simp add: mask_original_def mask_plain_def mask_body_def Let_def MKCP_ORIGINAL_OVERHEAD_def)
  then show ?thesis
    by (simp only: take_xorfwd take_pad4)
qed

lemma unmask_original_alt:
  "unmask_original packet =
     (let d = xorbkd packet in
      if length packet < 6 \<or> fnv1a_32 (drop 4 d) \<noteq> u32_of_be (take 4 d)
         \<or> length packet - 6 \<noteq> unat (u16_of_be (field 4 2 d)) then None
      else Some (drop 6 d))"
proof (cases "length packet < 6")
  case True
  then show ?thesis by (simp add: unmask_original_def MKCP_ORIGINAL_OVERHEAD_def)
next
  case False
  let ?e = "xorbkd (pad4 packet)"
  have d: "xorbkd packet = take (length packet) ?e"
    by (simp add: take_xorbkd)
  have 4: "take 4 (xorbkd packet) = take 4 ?e"
    using False by (simp add: d)
  have 2: "field 4 2 (xorbkd packet) = field 4 2 ?e"
    using False by (simp add: d field_def drop_take)
  have "drop 6 (xorbkd packet) = field 6 (length packet - 6) ?e"
    by (simp add: d field_def drop_take)
  then show ?thesis
    using False unfolding unmask_original_def Let_def MKCP_ORIGINAL_OVERHEAD_def 4 2
    by (auto simp: d [symmetric])
qed

lemma unmask_mask_original:
  assumes "length p < 65536"
  shows "unmask_original (mask_original p) = Some p"
  using assms
  by (simp add: mask_original_alt unmask_original_alt mask_plain_def mask_body_def field_def Let_def
      unat_of_nat)

text \<open>
  The unkeyed packet mask is exact. Unmasking a packet yields a plaintext precisely when the
  plaintext fits the sixteen-bit length field and the packet is its masking, although masking pads to
  a multiple of four, xors and truncates, and unmasking pads the truncated packet with zeros again.
\<close>

theorem kcp_original_mask_iff:
  "unmask_original packet = Some p \<longleftrightarrow> length p < 65536 \<and> packet = mask_original p"
proof
  assume "length p < 65536 \<and> packet = mask_original p"
  then show "unmask_original packet = Some p"
    by (simp add: unmask_mask_original)
next
  assume u: "unmask_original packet = Some p"
  let ?d = "xorbkd packet"
  from u have *: "6 \<le> length packet" "fnv1a_32 (drop 4 ?d) = u32_of_be (take 4 ?d)"
      "length packet - 6 = unat (u16_of_be (field 4 2 ?d))" "p = drop 6 ?d"
    by (auto simp: unmask_original_alt Let_def split: if_splits)
  have len: "length p = unat (u16_of_be (field 4 2 ?d))"
    using * by simp
  then have small: "length p < 65536"
    using unsigned_less [of "u16_of_be (field 4 2 ?d)", where 'a = nat] by simp
  have l2: "length (field 4 2 ?d) = 2" and l4: "length (take 4 ?d) = 4"
    using *(1) by (simp_all add: field_def)
  have "u16_be (word_of_nat (length p)) = field 4 2 ?d"
    using l2 by (simp add: len u16_be_of_be)
  moreover have "field 4 2 ?d @ drop 6 ?d = drop 4 ?d"
    using append_take_drop_id [of 2 "drop 4 ?d"] by (simp add: field_def)
  ultimately have body: "mask_body p = drop 4 ?d"
    by (simp add: mask_body_def *(4))
  have "mask_plain p = ?d"
    using *(2) l4 by (simp add: mask_plain_def body u32_be_of_be)
  then have "packet = mask_original p"
    by (simp add: mask_original_alt)
  with small show "length p < 65536 \<and> packet = mask_original p" by blast
qed

text \<open>
  With the seal and open of an authenticated cipher that undo each other and a sixteen-byte
  tag, whatever either mask wraps is unwrapped to the same plaintext.
\<close>

theorem kcp_mask_roundtrip:
  assumes aead: "\<And>key nonce plain c tag. seal key nonce plain = Some (c, tag) \<Longrightarrow>
      length tag = 16 \<and> unseal key nonce c tag = Some plain"
    and "length nonce = 12" and "length p < 65536"
    and "mask_wrap seal nonce m p = Some packet"
  shows "mask_unwrap unseal m packet = Some p"
proof (cases m)
  case MaskOriginal
  then show ?thesis
    using assms(3,4) by (auto simp: mask_wrap_def mask_unwrap_def unmask_mask_original)
next
  case (MaskAes128Gcm key)
  then show ?thesis
    using assms(2,4) by (auto simp: mask_wrap_def mask_unwrap_def Let_def split: option.splits dest!: aead)
qed

theorem kcp_mask_roundtrip_witness:
  "mask_unwrap (\<lambda>key nonce c tag. Some c) (MaskAes128Gcm (replicate 16 7))
     (replicate 12 1 @ [1, 2, 3] @ replicate 16 9) = Some [1, 2, 3]"
  by (rule kcp_mask_roundtrip [where seal = "\<lambda>key nonce p. Some (p, replicate 16 9)"
        and nonce = "replicate 12 1"]) (auto simp: mask_wrap_def)

end
