(* ===== verification/Kcp_Session.thy ===== *)
theory Kcp_Session
  imports Kcp_Codec
begin

text \<open>
  The mKCP session engine, \<open>handler/kcp/xray_session.rs\<close>: sequence numbers, the receive window that
  puts segments in order, acknowledgements, the send window, round-trip estimation and the closing
  handshake. Times are the 32-bit millisecond counters the code passes in and arithmetic on 32-bit
  fields wraps, as in a release build; \<open>usize\<close> values are natural numbers. The two \<open>VecDeque\<close>s are
  lists with the front first, the receive \<open>HashMap\<close> is an association list without duplicate keys.
  The last part puts two sessions on a network that loses, duplicates and reorders packets at will.
\<close>

section \<open>Arithmetic\<close>

definition sat_add :: "u32 \<Rightarrow> u32 \<Rightarrow> u32" where
  "sat_add a b = (if uint a + uint b < 0x100000000 then a + b else -1)"

definition sat_mul :: "u32 \<Rightarrow> u32 \<Rightarrow> u32" where
  "sat_mul a b = (if uint a * uint b < 0x100000000 then a * b else -1)"

definition inflight_size :: "nat \<Rightarrow> u32 \<Rightarrow> u32 \<Rightarrow> u32" where
  "inflight_size capacity_mib mtu tti =
     (let interval = max (1000 div max tti 1) 1;
          size = word_of_nat capacity_mib * 1024 * 1024 div max mtu 1 div interval
      in max size 8)"

definition seq_lt :: "u32 \<Rightarrow> u32 \<Rightarrow> bool" where
  "seq_lt a b = (a \<noteq> b \<and> a - b > 0x7fffffff)"

section \<open>Round-trip estimation\<close>

definition MAX_RTO :: u32 where "MAX_RTO = 10000"

record RoundTripInfo =
  rt_variation :: u32
  rt_srtt :: u32
  rt_rto :: u32
  rt_min_rtt :: u32
  rt_updated_timestamp :: u32

definition RoundTripInfo_new :: "u32 \<Rightarrow> RoundTripInfo" where
  "RoundTripInfo_new min_rtt =
     \<lparr>rt_variation = 0, rt_srtt = 0, rt_rto = 100, rt_min_rtt = min_rtt, rt_updated_timestamp = 0\<rparr>"

definition update_peer_rto :: "u32 \<Rightarrow> u32 \<Rightarrow> RoundTripInfo \<Rightarrow> RoundTripInfo" where
  "update_peer_rto rto current r =
     (if current - rt_updated_timestamp r < 3000 then r
      else r\<lparr>rt_updated_timestamp := current, rt_rto := max rto (rt_min_rtt r)\<rparr>)"

definition abs_diff :: "u32 \<Rightarrow> u32 \<Rightarrow> u32" where
  "abs_diff a b = (if a < b then b - a else a - b)"

definition rt_smooth :: "u32 \<Rightarrow> RoundTripInfo \<Rightarrow> RoundTripInfo" where
  "rt_smooth rtt r =
     (if rt_srtt r = 0 then r\<lparr>rt_srtt := rtt, rt_variation := rtt div 2\<rparr>
      else let delta = abs_diff rtt (rt_srtt r);
               variation = (3 * rt_variation r + delta) div 4;
               srtt = (7 * rt_srtt r + rtt) div 8
           in r\<lparr>rt_variation := variation, rt_srtt := (if srtt < rt_min_rtt r then rt_min_rtt r else srtt)\<rparr>)"

definition rt_update :: "u32 \<Rightarrow> u32 \<Rightarrow> RoundTripInfo \<Rightarrow> RoundTripInfo" where
  "rt_update rtt current r0 =
     (if rtt > 0x7fffffff then r0
      else let r = rt_smooth rtt r0;
               rto = (if rt_min_rtt r < 4 * rt_variation r then rt_srtt r + 4 * rt_variation r
                      else rt_srtt r + rt_variation r);
               rto = (if rto > MAX_RTO then MAX_RTO else rto)
           in r\<lparr>rt_rto := max (rto * 5 div 4) (rt_min_rtt r), rt_updated_timestamp := current\<rparr>)"

definition rt_timeout :: "RoundTripInfo \<Rightarrow> u32" where
  "rt_timeout r = max (rt_rto r) (rt_min_rtt r)"

section \<open>The session's state\<close>

definition DATA_SEGMENT_OVERHEAD :: nat where "DATA_SEGMENT_OVERHEAD = 18"
definition ACK_NUMBER_LIMIT :: nat where "ACK_NUMBER_LIMIT = 128"
definition STARTUP_REMOTE_WINDOW :: u32 where "STARTUP_REMOTE_WINDOW = 32"

datatype SessionState =
  Active | ReadyToClose | PeerClosed | Terminating | PeerTerminating | Terminated

record SessionConfig =
  cfg_conv :: u16
  cfg_mtu :: nat
  cfg_tti :: u32
  cfg_uplink_capacity :: nat
  cfg_downlink_capacity :: nat
  cfg_write_buffer_size :: nat
  cfg_packet_overhead :: nat

record PendingAck =
  pa_number :: u32
  pa_timestamp :: u32

record SendingSegment =
  sg_number :: u32
  sg_payload :: bytes
  sg_timeout :: u32
  sg_transmit :: u32

record XrayKcpSession =
  conv :: u16
  state :: SessionState
  state_begin :: u32
  last_incoming :: u32
  last_ping :: u32
  round_trip :: RoundTripInfo
  recv_next_number :: u32
  recv_window_size :: u32
  recv_packets :: "(u32 \<times> bytes) list"
  recv_ready :: "bytes list"
  pending_acks :: "PendingAck list"
  pending_send_chunks :: "bytes list"
  send_window :: "SendingSegment list"
  next_send_number :: u32
  first_unacked :: u32
  remote_next_number :: u32
  send_inflight_size :: u32
  send_buffer_size :: nat
  control_window :: u32
  app_write_closed :: bool
  mss :: nat

definition kcp_new :: "SessionConfig \<Rightarrow> XrayKcpSession" where
  "kcp_new config =
     (let tti = max (cfg_tti config) 1;
          mtu = max (cfg_mtu config) (DATA_SEGMENT_OVERHEAD + 1);
          inflight = max (inflight_size (max (cfg_uplink_capacity config) 1) (word_of_nat mtu) tti) 8
      in \<lparr>conv = cfg_conv config, state = Active, state_begin = 0, last_incoming = 0, last_ping = 0,
          round_trip = RoundTripInfo_new tti, recv_next_number = 0,
          recv_window_size =
            max (inflight_size (max (cfg_downlink_capacity config) 1) (word_of_nat mtu) tti) 8,
          recv_packets = [], recv_ready = [], pending_acks = [], pending_send_chunks = [],
          send_window = [], next_send_number = 0, first_unacked = 0,
          remote_next_number = STARTUP_REMOTE_WINDOW, send_inflight_size = inflight,
          send_buffer_size = max (cfg_write_buffer_size config div mtu) 1,
          control_window = inflight, app_write_closed = False,
          mss = max (mtu - (cfg_packet_overhead config + DATA_SEGMENT_OVERHEAD)) 1\<rparr>)"

definition set_state :: "SessionState \<Rightarrow> u32 \<Rightarrow> XrayKcpSession \<Rightarrow> XrayKcpSession" where
  "set_state st current s = s\<lparr>state := st, state_begin := current\<rparr>"

definition can_accept_application_data :: "XrayKcpSession \<Rightarrow> bool" where
  "can_accept_application_data s = (state s = Active \<or> state s = ReadyToClose)"

definition enqueue_application_data :: "bytes \<Rightarrow> XrayKcpSession \<Rightarrow> XrayKcpSession" where
  "enqueue_application_data data s =
     (if \<not> can_accept_application_data s \<or> data = [] then s
      else s\<lparr>pending_send_chunks := pending_send_chunks s @ chunks (mss s) data\<rparr>)"

definition mark_application_write_closed :: "u32 \<Rightarrow> XrayKcpSession \<Rightarrow> XrayKcpSession" where
  "mark_application_write_closed current s =
     (let s = s\<lparr>app_write_closed := True\<rparr> in
      case state s of
        Active \<Rightarrow> set_state ReadyToClose current s
      | PeerClosed \<Rightarrow> set_state Terminating current s
      | PeerTerminating \<Rightarrow> set_state Terminated current s
      | _ \<Rightarrow> s)"

definition update_first_unacked :: "XrayKcpSession \<Rightarrow> XrayKcpSession" where
  "update_first_unacked s =
     s\<lparr>first_unacked := (case send_window s of [] \<Rightarrow> next_send_number s | seg # _ \<Rightarrow> sg_number seg)\<rparr>"

section \<open>Incoming segments\<close>

definition handle_option :: "u8 \<Rightarrow> u32 \<Rightarrow> XrayKcpSession \<Rightarrow> XrayKcpSession" where
  "handle_option opt current s =
     (if opt AND 1 \<noteq> 0 then
        (case state s of
           ReadyToClose \<Rightarrow> set_state Terminating current s
         | Active \<Rightarrow> set_state PeerClosed current s
         | _ \<Rightarrow> s)
      else s)"

definition or_insert :: "u32 \<Rightarrow> bytes \<Rightarrow> (u32 \<times> bytes) list \<Rightarrow> (u32 \<times> bytes) list" where
  "or_insert k v m = (case map_of m k of Some _ \<Rightarrow> m | None \<Rightarrow> (k, v) # m)"

definition hm_remove :: "u32 \<Rightarrow> (u32 \<times> bytes) list \<Rightarrow> (u32 \<times> bytes) list" where
  "hm_remove k m = filter (\<lambda>(k', _). k' \<noteq> k) m"

lemma hm_remove_shrinks: "map_of m k = Some v \<Longrightarrow> length (hm_remove k m) < length m"
  unfolding hm_remove_def by (rule length_filter_less [of "(k, v)"]) (auto dest: map_of_SomeD)

function promote_received :: "XrayKcpSession \<Rightarrow> XrayKcpSession" where
  "promote_received s =
     (case map_of (recv_packets s) (recv_next_number s) of
        None \<Rightarrow> s
      | Some payload \<Rightarrow>
          promote_received (s\<lparr>recv_packets := hm_remove (recv_next_number s) (recv_packets s),
            recv_ready := recv_ready s @ [payload], recv_next_number := recv_next_number s + 1\<rparr>))"
  by pat_completeness auto
termination
  by (relation "measure (\<lambda>s. length (recv_packets s))") (auto dest: hm_remove_shrinks)

declare promote_received.simps [simp del]

definition process_data_segment :: "DataSegment \<Rightarrow> u32 \<Rightarrow> XrayKcpSession \<Rightarrow> XrayKcpSession" where
  "process_data_segment seg current s0 =
     (let s = handle_option (ds_option seg) current s0;
          idx = ds_number seg - recv_next_number s
      in if idx \<ge> recv_window_size s then s
         else promote_received
           (s\<lparr>pending_acks := pending_acks s @ [\<lparr>pa_number = ds_number seg, pa_timestamp = ds_timestamp seg\<rparr>],
              recv_packets := or_insert (ds_number seg) (ds_payload seg) (recv_packets s)\<rparr>))"

text \<open>\<open>while let Some(front)\<close>: pop the front while its number is before \<open>next\<close>.\<close>

definition remove_sent_before :: "u32 \<Rightarrow> XrayKcpSession \<Rightarrow> XrayKcpSession" where
  "remove_sent_before nxt s =
     update_first_unacked (s\<lparr>send_window := dropWhile (\<lambda>seg. seq_lt (sg_number seg) nxt) (send_window s)\<rparr>)"

fun remove_first :: "('a \<Rightarrow> bool) \<Rightarrow> 'a list \<Rightarrow> 'a list" where
  "remove_first P [] = []"
| "remove_first P (x # xs) = (if P x then xs else x # remove_first P xs)"

definition remove_sent_number :: "u32 \<Rightarrow> XrayKcpSession \<Rightarrow> bool \<times> XrayKcpSession" where
  "remove_sent_number number s =
     (if list_ex (\<lambda>seg. sg_number seg = number) (send_window s)
      then (True, update_first_unacked
                    (s\<lparr>send_window := remove_first (\<lambda>seg. sg_number seg = number) (send_window s)\<rparr>))
      else (False, s))"

fun remove_acked :: "u32 list \<Rightarrow> bool \<times> XrayKcpSession \<Rightarrow> bool \<times> XrayKcpSession" where
  "remove_acked [] (removed, s) = (removed, s)"
| "remove_acked (number # ns) (removed, s) =
     (case remove_sent_number number s of (hit, s') \<Rightarrow> remove_acked ns (removed \<or> hit, s'))"

definition process_ack_segment :: "AckSegment \<Rightarrow> u32 \<Rightarrow> XrayKcpSession \<Rightarrow> XrayKcpSession" where
  "process_ack_segment seg current s0 =
     (let s = handle_option (as_option seg) current s0;
          s = (if remote_next_number s < as_receiving_window seg
               then s\<lparr>remote_next_number := as_receiving_window seg\<rparr> else s);
          s = remove_sent_before (as_receiving_next seg) s;
          (removed, s) = remove_acked (as_numbers seg) (False, s);
          rtt = current - as_timestamp seg;
          s = (if removed \<and> rtt < MAX_RTO then s\<lparr>round_trip := rt_update rtt current (round_trip s)\<rparr> else s)
      in update_first_unacked s)"

definition terminate_state :: "u32 \<Rightarrow> XrayKcpSession \<Rightarrow> XrayKcpSession" where
  "terminate_state current s =
     (case state s of
        Active \<Rightarrow> set_state PeerTerminating current s
      | PeerClosed \<Rightarrow> set_state PeerTerminating current s
      | ReadyToClose \<Rightarrow> set_state Terminating current s
      | Terminating \<Rightarrow> set_state Terminated current s
      | _ \<Rightarrow> s)"

definition process_cmd_segment :: "CmdSegment \<Rightarrow> u32 \<Rightarrow> XrayKcpSession \<Rightarrow> XrayKcpSession" where
  "process_cmd_segment seg current s0 =
     (let s = handle_option (cs_option seg) current s0;
          s = (if cs_cmd seg = 2 then terminate_state current s else s);
          s = remove_sent_before (cs_receiving_next seg) s
      in s\<lparr>round_trip := update_peer_rto (cs_peer_rto seg) current (round_trip s)\<rparr>)"

fun process_segment :: "Segment \<Rightarrow> u32 \<Rightarrow> XrayKcpSession \<Rightarrow> XrayKcpSession" where
  "process_segment (SegData seg) current s = process_data_segment seg current s"
| "process_segment (SegAck seg) current s = process_ack_segment seg current s"
| "process_segment (SegCmd seg) current s = process_cmd_segment seg current s"

function input_loop :: "bytes \<Rightarrow> u32 \<Rightarrow> XrayKcpSession \<Rightarrow> XrayKcpSession" where
  "input_loop buf current s =
     (case read_segment buf of
        None \<Rightarrow> s
      | Some (segment, nxt) \<Rightarrow> input_loop nxt current (process_segment segment current s))"
  by pat_completeness auto
termination
  by (relation "measure (\<lambda>(buf, _). length buf)") (auto dest: read_segment_shrinks)

declare input_loop.simps [simp del]

definition kcp_input :: "bytes \<Rightarrow> u32 \<Rightarrow> XrayKcpSession \<Rightarrow> XrayKcpSession" where
  "kcp_input packet current s = input_loop packet current (s\<lparr>last_incoming := current\<rparr>)"

definition take_received :: "XrayKcpSession \<Rightarrow> bytes option \<times> XrayKcpSession" where
  "take_received s =
     (case recv_ready s of [] \<Rightarrow> (None, s) | d # ds \<Rightarrow> (Some d, s\<lparr>recv_ready := ds\<rparr>))"

section \<open>Flushing\<close>

fun fill_loop :: "bytes list \<Rightarrow> XrayKcpSession \<Rightarrow> XrayKcpSession" where
  "fill_loop [] s = s\<lparr>pending_send_chunks := []\<rparr>"
| "fill_loop (payload # ps) s =
     (if length (send_window s) < send_buffer_size s
      then fill_loop ps (s\<lparr>next_send_number := next_send_number s + 1,
             send_window := send_window s @
               [\<lparr>sg_number = next_send_number s, sg_payload = payload, sg_timeout = 0, sg_transmit = 0\<rparr>]\<rparr>)
      else s\<lparr>pending_send_chunks := payload # ps\<rparr>)"

definition fill_send_window :: "XrayKcpSession \<Rightarrow> XrayKcpSession" where
  "fill_send_window s = update_first_unacked (fill_loop (pending_send_chunks s) s)"

definition closing_option :: "XrayKcpSession \<Rightarrow> u8" where
  "closing_option s = (if state s = ReadyToClose then 1 else 0)"

function ack_batches :: "XrayKcpSession \<Rightarrow> PendingAck list \<Rightarrow> bytes list" where
  "ack_batches s acks =
     (if acks = [] then []
      else let batch = take ACK_NUMBER_LIMIT acks;
               timestamp = fold (\<lambda>ack t. if t < pa_timestamp ack then pa_timestamp ack else t) batch 0
           in serialize_ack (conv s) (closing_option s) (recv_next_number s + recv_window_size s)
                (recv_next_number s) timestamp (map pa_number batch)
              # ack_batches s (drop ACK_NUMBER_LIMIT acks))"
  by pat_completeness auto
termination
  by (relation "measure (\<lambda>(_, acks). length acks)") (auto simp: ACK_NUMBER_LIMIT_def)

declare ack_batches.simps [simp del]

definition flush_pending_acks :: "XrayKcpSession \<Rightarrow> XrayKcpSession \<times> bytes list" where
  "flush_pending_acks s = (s\<lparr>pending_acks := []\<rparr>, ack_batches s (pending_acks s))"

fun send_loop :: "XrayKcpSession \<Rightarrow> u32 \<Rightarrow> u32 \<Rightarrow> u32 \<Rightarrow> SendingSegment list \<Rightarrow> SendingSegment list \<times> bytes list" where
  "send_loop s current cwnd in_flight [] = ([], [])"
| "send_loop s current cwnd in_flight (seg # segs) =
     (if in_flight \<ge> cwnd then (seg # segs, [])
      else if sg_transmit seg > 0 \<and> current - sg_timeout seg < 0x7fffffff then
        (case send_loop s current cwnd in_flight segs of (segs', out) \<Rightarrow> (seg # segs', out))
      else let seg' = seg\<lparr>sg_timeout := current + rt_timeout (round_trip s),
                          sg_transmit := sat_add (sg_transmit seg) 1\<rparr>;
               pkt = serialize_data (conv s) (closing_option s) current (sg_number seg)
                       (first_unacked s) (sg_payload seg)
           in case send_loop s current cwnd (sat_add in_flight 1) segs of
                (segs', out) \<Rightarrow> (seg' # segs', pkt # out))"

definition congestion_window :: "XrayKcpSession \<Rightarrow> u32" where
  "congestion_window s =
     (let cwnd = send_inflight_size s;
          remote_room = remote_next_number s - first_unacked s;
          cwnd = (if cwnd > remote_room then remote_room else cwnd)
      in if cwnd > control_window s then control_window s else cwnd)"

definition flush_send_window :: "u32 \<Rightarrow> XrayKcpSession \<Rightarrow> XrayKcpSession \<times> bytes list" where
  "flush_send_window current s =
     (let cwnd = congestion_window s in
      if cwnd = 0 then (s, [])
      else case send_loop s current (sat_mul cwnd 20) 0 (send_window s) of
        (segs, out) \<Rightarrow> (s\<lparr>send_window := segs\<rparr>, out))"

definition flush_cmd :: "u8 \<Rightarrow> u32 \<Rightarrow> XrayKcpSession \<Rightarrow> XrayKcpSession \<times> bytes" where
  "flush_cmd cmd current s =
     (s\<lparr>last_ping := current\<rparr>,
      serialize_cmd (conv s) cmd (closing_option s) (first_unacked s) (recv_next_number s)
        (rt_timeout (round_trip s)))"

definition flush_states :: "u32 \<Rightarrow> XrayKcpSession \<Rightarrow> XrayKcpSession" where
  "flush_states current s =
     (let s = (if state s = Active \<and> current - last_incoming s \<ge> 30000
               then mark_application_write_closed current s else s);
          s = (if app_write_closed s \<and> pending_send_chunks s = [] \<and> send_window s = [] \<and> state s = ReadyToClose
               then set_state Terminating current s else s);
          s = (if state s = PeerTerminating \<and> current - state_begin s > 4000
               then set_state Terminating current s else s)
      in if state s = ReadyToClose \<and> current - state_begin s > 15000
         then set_state Terminating current s else s)"

definition kcp_flush :: "u32 \<Rightarrow> XrayKcpSession \<Rightarrow> XrayKcpSession \<times> bytes list" where
  "kcp_flush current s =
     (if state s = Terminated then (s, [])
      else let s = fill_send_window (flush_states current s) in
        if state s = Terminating then
          (case flush_cmd 2 current s of (s, cmd) \<Rightarrow>
             ((if current - state_begin s > 8000 then set_state Terminated current s else s), [cmd]))
        else
          (case flush_pending_acks s of (s, acks) \<Rightarrow>
           case flush_send_window current s of (s, data) \<Rightarrow>
             if current - last_ping s \<ge> 3000 then
               (case flush_cmd 3 current s of (s, cmd) \<Rightarrow>
                  (s\<lparr>last_ping := current\<rparr>, acks @ data @ [cmd]))
             else (s, acks @ data)))"

section \<open>What each operation touches\<close>

text \<open>
  The sending half and the receiving half of a session. An operation on one half leaves the other as
  it was.
\<close>

definition win :: "XrayKcpSession \<Rightarrow> (u32 \<times> bytes) list" where
  "win s = map (\<lambda>g. (sg_number g, sg_payload g)) (send_window s)"

definition tx :: "XrayKcpSession \<Rightarrow> bytes list \<times> (u32 \<times> bytes) list \<times> u32 \<times> nat \<times> nat" where
  "tx s = (pending_send_chunks s, win s, next_send_number s, send_buffer_size s, mss s)"

definition rx :: "XrayKcpSession \<Rightarrow> u32 \<times> u32 \<times> (u32 \<times> bytes) list \<times> bytes list \<times> PendingAck list" where
  "rx s = (recv_next_number s, recv_window_size s, recv_packets s, recv_ready s, pending_acks s)"

named_theorems half_simps \<open>which half of a session an operation leaves alone\<close>

lemma half_set_state [half_simps]:
  "tx (set_state st c s) = tx s" "rx (set_state st c s) = rx s"
  by (simp_all add: tx_def rx_def win_def set_state_def)

lemma half_update_first_unacked [half_simps]:
  "tx (update_first_unacked s) = tx s" "rx (update_first_unacked s) = rx s"
  by (simp_all add: tx_def rx_def win_def update_first_unacked_def)

lemma half_handle_option [half_simps]:
  "tx (handle_option opt c s) = tx s" "rx (handle_option opt c s) = rx s"
  by (simp_all add: handle_option_def half_simps split: SessionState.split)

lemma half_terminate_state [half_simps]:
  "tx (terminate_state c s) = tx s" "rx (terminate_state c s) = rx s"
  by (simp_all add: terminate_state_def half_simps split: SessionState.split)

lemma half_fields [half_simps]:
  "tx (s\<lparr>app_write_closed := b\<rparr>) = tx s" "rx (s\<lparr>app_write_closed := b\<rparr>) = rx s"
  "tx (s\<lparr>last_ping := t\<rparr>) = tx s" "rx (s\<lparr>last_ping := t\<rparr>) = rx s"
  "tx (s\<lparr>last_incoming := t\<rparr>) = tx s" "rx (s\<lparr>last_incoming := t\<rparr>) = rx s"
  "tx (s\<lparr>round_trip := r\<rparr>) = tx s" "rx (s\<lparr>round_trip := r\<rparr>) = rx s"
  "tx (s\<lparr>remote_next_number := n\<rparr>) = tx s" "rx (s\<lparr>remote_next_number := n\<rparr>) = rx s"
  "rx (s\<lparr>send_window := w\<rparr>) = rx s" "rx (s\<lparr>pending_send_chunks := ps\<rparr>) = rx s"
  "rx (s\<lparr>next_send_number := n\<rparr>) = rx s"
  "tx (s\<lparr>pending_acks := as\<rparr>) = tx s" "tx (s\<lparr>recv_packets := m\<rparr>) = tx s"
  "tx (s\<lparr>recv_ready := rs\<rparr>) = tx s" "tx (s\<lparr>recv_next_number := n\<rparr>) = tx s"
  by (simp_all add: tx_def rx_def win_def)

lemma half_mark_closed [half_simps]:
  "tx (mark_application_write_closed c s) = tx s" "rx (mark_application_write_closed c s) = rx s"
  by (simp_all add: mark_application_write_closed_def Let_def half_simps split: SessionState.split)

lemma half_flush_states [half_simps]:
  "tx (flush_states c s) = tx s" "rx (flush_states c s) = rx s"
  by (simp_all add: flush_states_def Let_def half_simps)

lemma tx_promote_received [half_simps]: "tx (promote_received s) = tx s"
  by (induction s rule: promote_received.induct)
    (subst promote_received.simps, simp add: half_simps split: option.split)

lemma tx_process_data [half_simps]: "tx (process_data_segment seg c s) = tx s"
  by (simp add: process_data_segment_def Let_def half_simps)

lemma rx_remove_sent_before [half_simps]: "rx (remove_sent_before n s) = rx s"
  by (simp add: remove_sent_before_def half_simps)

lemma rx_remove_acked [half_simps]: "rx (snd (remove_acked ns (b, s))) = rx s"
  by (induction ns arbitrary: b s) (simp_all add: remove_sent_number_def half_simps)

lemma rx_process_ack [half_simps]: "rx (process_ack_segment seg c s) = rx s"
  by (simp add: process_ack_segment_def Let_def half_simps split_def)

lemma rx_process_cmd [half_simps]: "rx (process_cmd_segment seg c s) = rx s"
  by (simp add: process_cmd_segment_def Let_def half_simps)

lemma rx_fill_loop [half_simps]: "rx (fill_loop ps s) = rx s"
  by (induction ps arbitrary: s) (simp_all add: half_simps)

lemma rx_fill_send_window [half_simps]: "rx (fill_send_window s) = rx s"
  by (simp add: fill_send_window_def half_simps)

lemma rx_flush_send_window [half_simps]: "rx (fst (flush_send_window c s)) = rx s"
  by (simp add: flush_send_window_def Let_def half_simps split_def)

text \<open>The loop over a packet runs its segments in order.\<close>

lemma input_loop_fold: "input_loop buf c s = fold (\<lambda>seg s. process_segment seg c s) (segments buf) s"
proof (induction buf c s rule: input_loop.induct)
  case (1 buf c s)
  show ?case
    by (subst input_loop.simps, subst segments.simps) (simp add: 1 split: option.split)
qed

section \<open>The receiving half\<close>

text \<open>
  \<open>rx_ok pay k s\<close>: \<open>k\<close> segments have been put in order, the next one is not waiting, and every
  waiting or acknowledged segment is one of the \<open>pay\<close> the peer has numbered.
\<close>

definition received :: "nat \<Rightarrow> XrayKcpSession \<Rightarrow> nat \<Rightarrow> bool" where
  "received k s i = (i < k \<or> word_of_nat i \<in> fst ` set (recv_packets s))"

definition genuine :: "bytes list \<Rightarrow> u32 \<Rightarrow> bytes \<Rightarrow> bool" where
  "genuine log n p = (\<exists>i < length log. n = word_of_nat i \<and> p = log ! i)"

definition rx_ok :: "bytes list \<Rightarrow> nat \<Rightarrow> bytes list \<Rightarrow> XrayKcpSession \<Rightarrow> bool" where
  "rx_ok log k got s =
     (k \<le> length log \<and> recv_next_number s = word_of_nat k \<and> got @ recv_ready s = take k log
      \<and> (\<forall>(n, p) \<in> set (recv_packets s). genuine log n p)
      \<and> (\<forall>a \<in> set (pending_acks s). \<exists>i < length log. pa_number a = word_of_nat i \<and> received k s i))"

definition promoted :: "XrayKcpSession \<Rightarrow> bool" where
  "promoted s = (recv_next_number s \<notin> fst ` set (recv_packets s))"

lemma word_of_nat_inj:
  assumes "(word_of_nat i :: u32) = word_of_nat j" and "i < 2 ^ 32" and "j < 2 ^ 32"
  shows "i = j"
proof -
  have "unat (word_of_nat i :: u32) = unat (word_of_nat j :: u32)" using assms(1) by simp
  then show ?thesis using assms(2,3) by (simp add: unat_of_nat)
qed

text \<open>\<open>advances log k got s k' s'\<close>: from \<open>s\<close> to \<open>s'\<close> nothing received is forgotten.\<close>

definition advances :: "bytes list \<Rightarrow> nat \<Rightarrow> XrayKcpSession \<Rightarrow> nat \<Rightarrow> XrayKcpSession \<Rightarrow> bool" where
  "advances log k s k' s' = (k \<le> k' \<and> (\<forall>i < length log. received k s i \<longrightarrow> received k' s' i))"

lemma advances_refl [simp]: "advances log k s k s"
  by (simp add: advances_def)

lemma advances_trans: "advances log k s k1 s1 \<Longrightarrow> advances log k1 s1 k2 s2 \<Longrightarrow> advances log k s k2 s2"
  by (auto simp: advances_def)

lemma promote_step:
  assumes ok: "rx_ok log k got s" and len: "length log < 2 ^ 32"
    and hit: "map_of (recv_packets s) (recv_next_number s) = Some payload"
  defines "s' \<equiv> s\<lparr>recv_packets := hm_remove (recv_next_number s) (recv_packets s),
            recv_ready := recv_ready s @ [payload], recv_next_number := recv_next_number s + 1\<rparr>"
  shows "rx_ok log (Suc k) got s'" and "advances log k s (Suc k) s'"
proof -
  have nx: "recv_next_number s = word_of_nat k" and k: "k \<le> length log"
    using ok by (simp_all add: rx_ok_def)
  have "genuine log (recv_next_number s) payload"
    using ok map_of_SomeD [OF hit] by (auto simp: rx_ok_def)
  then obtain i where i: "i < length log" "word_of_nat k = (word_of_nat i :: u32)" "payload = log ! i"
    by (auto simp: genuine_def nx)
  have "i = k" using word_of_nat_inj [OF i(2)] i(1) k len by simp
  with i have pay: "payload = log ! k" "k < length log" by simp_all
  have rcv: "received (Suc k) s' j" if "received k s j" "j < length log" for j
  proof (cases "j = k")
    case False
    then have "word_of_nat j \<noteq> (word_of_nat k :: u32)"
      using word_of_nat_inj [of j k] that(2) k len by auto
    with that(1) have "j < k \<or> word_of_nat j \<in> fst ` set (hm_remove (word_of_nat k) (recv_packets s))"
      by (force simp: received_def hm_remove_def)
    then show ?thesis by (auto simp: received_def s'_def nx)
  qed (simp add: received_def)
  then show "advances log k s (Suc k) s'" by (simp add: advances_def)
  have acks: "\<forall>a \<in> set (pending_acks s'). \<exists>i < length log. pa_number a = word_of_nat i \<and> received (Suc k) s' i"
    using ok rcv unfolding rx_ok_def by (simp add: s'_def) blast
  show "rx_ok log (Suc k) got s'"
    unfolding rx_ok_def
  proof (intro conjI acks)
    show "Suc k \<le> length log" using pay by simp
    show "recv_next_number s' = word_of_nat (Suc k)" by (simp add: s'_def nx)
    show "got @ recv_ready s' = take (Suc k) log"
      using ok pay unfolding rx_ok_def by (simp add: s'_def take_Suc_conv_app_nth flip: append_assoc)
    show "\<forall>(n, p) \<in> set (recv_packets s'). genuine log n p"
      using ok unfolding rx_ok_def by (simp add: s'_def hm_remove_def)
  qed
qed

lemma promote_received_ok:
  assumes "rx_ok log k got s" and "length log < 2 ^ 32"
  shows "\<exists>k'. rx_ok log k' got (promote_received s) \<and> advances log k s k' (promote_received s)
    \<and> promoted (promote_received s)"
  using assms
proof (induction s arbitrary: k rule: promote_received.induct)
  case (1 s)
  show ?case
  proof (cases "map_of (recv_packets s) (recv_next_number s)")
    case None
    have "promote_received s = s"
      by (subst promote_received.simps) (simp add: None)
    moreover have "promoted s"
      using None by (simp add: promoted_def map_of_eq_None_iff)
    ultimately show ?thesis using 1(2) by auto
  next
    case (Some payload)
    let ?t = "s\<lparr>recv_packets := hm_remove (recv_next_number s) (recv_packets s),
            recv_ready := recv_ready s @ [payload], recv_next_number := recv_next_number s + 1\<rparr>"
    note st = promote_step [OF 1(2,3) Some]
    have eq: "promote_received s = promote_received ?t"
      by (subst promote_received.simps) (simp add: Some)
    obtain k' where "rx_ok log k' got (promote_received ?t)" "promoted (promote_received ?t)"
        "advances log (Suc k) ?t k' (promote_received ?t)"
      using 1(1) [OF Some st(1) 1(3)] by blast
    with advances_trans [OF st(2)] show ?thesis unfolding eq by blast
  qed
qed

lemma rx_ok_cong: "rx s = rx s' \<Longrightarrow> rx_ok log k got s = rx_ok log k got s'"
  by (simp add: rx_def rx_ok_def received_def)

lemma received_cong: "rx s = rx s' \<Longrightarrow> received k s = received k s'"
  by (simp add: rx_def received_def fun_eq_iff)

lemma promoted_cong: "rx s = rx s' \<Longrightarrow> promoted s = promoted s'"
  by (simp add: rx_def promoted_def)

lemma advances_cong: "rx s = rx s' \<Longrightarrow> advances log k s k s'"
  by (simp add: advances_def received_cong [of s s'])

lemma or_insert_ok:
  "set (or_insert n p m) \<subseteq> insert (n, p) (set m)" "fst ` set (or_insert n p m) = insert n (fst ` set m)"
  by (auto simp: or_insert_def split: option.split dest: map_of_SomeD intro: rev_image_eqI)

lemma accept_segment_ok:
  fixes t :: u32
  assumes "rx_ok log k got s" and "genuine log n p"
  defines "s' \<equiv> s\<lparr>pending_acks := pending_acks s @ [\<lparr>pa_number = n, pa_timestamp = t\<rparr>],
              recv_packets := or_insert n p (recv_packets s)\<rparr>"
  shows "rx_ok log k got s'" and "advances log k s k s'"
proof -
  have rcv: "received k s' i \<longleftrightarrow> received k s i \<or> word_of_nat i = n" for i
    by (auto simp: received_def s'_def or_insert_ok)
  then show "advances log k s k s'" by (simp add: advances_def)
  have "\<exists>i < length log. n = word_of_nat i \<and> received k s' i"
    using assms(2) by (auto simp: genuine_def rcv)
  moreover have "genuine log m q" if "(m, q) \<in> set (recv_packets s')" for m q
    using that assms or_insert_ok(1) [of n p "recv_packets s"] by (auto simp: rx_ok_def s'_def)
  moreover have "\<exists>i < length log. pa_number a = word_of_nat i \<and> received k s' i"
    if "a \<in> set (pending_acks s)" for a
    using that assms(1) rcv by (auto simp: rx_ok_def)
  ultimately show "rx_ok log k got s'"
    unfolding rx_ok_def using assms(1) by (auto simp: rx_ok_def s'_def)
qed

lemma process_data_ok:
  assumes ok: "rx_ok log k got s" and pr: "promoted s" and len: "length log < 2 ^ 32"
    and gen: "genuine log (ds_number seg) (ds_payload seg)"
  shows "\<exists>k'. rx_ok log k' got (process_data_segment seg c s) \<and> promoted (process_data_segment seg c s)
    \<and> advances log k s k' (process_data_segment seg c s)"
proof -
  let ?h = "handle_option (ds_option seg) c s"
  have rx: "rx ?h = rx s" by (simp add: half_simps)
  have h: "rx_ok log k got ?h" "promoted ?h" "advances log k s k ?h"
    using ok pr rx_ok_cong [OF rx] promoted_cong [OF rx] advances_cong [OF rx [symmetric]] by simp_all
  show ?thesis
  proof (cases "ds_number seg - recv_next_number ?h \<ge> recv_window_size ?h")
    case True
    with h show ?thesis by (auto simp: process_data_segment_def Let_def)
  next
    case False
    let ?t = "?h\<lparr>pending_acks := pending_acks ?h @ [\<lparr>pa_number = ds_number seg, pa_timestamp = ds_timestamp seg\<rparr>],
              recv_packets := or_insert (ds_number seg) (ds_payload seg) (recv_packets ?h)\<rparr>"
    have p: "process_data_segment seg c s = promote_received ?t"
      using False by (simp add: process_data_segment_def Let_def)
    note t = accept_segment_ok [OF h(1) gen, of "ds_timestamp seg"]
    show ?thesis
      unfolding p using promote_received_ok [OF t(1) len] advances_trans [OF advances_trans [OF h(3) t(2)]]
      by blast
  qed
qed

section \<open>The sending half\<close>

text \<open>
  \<open>tx_ok log m s\<close>: of everything the application wrote, \<open>log\<close>, the first \<open>m\<close> chunks have been
  numbered, the rest are pending, and the window holds numbered chunks only.
\<close>

definition tx_ok :: "bytes list \<Rightarrow> nat \<Rightarrow> XrayKcpSession \<Rightarrow> bool" where
  "tx_ok log m s =
     (m \<le> length log \<and> pending_send_chunks s = drop m log \<and> next_send_number s = word_of_nat m
      \<and> (\<forall>(n, p) \<in> set (win s). genuine (take m log) n p)
      \<and> (\<forall>c \<in> set log. length c < 65536) \<and> mss s < 65536)"

definition outstanding :: "XrayKcpSession \<Rightarrow> nat \<Rightarrow> bool" where
  "outstanding s i = (word_of_nat i \<in> fst ` set (win s))"

lemma tx_ok_cong: "tx s = tx s' \<Longrightarrow> tx_ok log m s = tx_ok log m s'"
  by (simp add: tx_def tx_ok_def)

lemma outstanding_cong: "tx s = tx s' \<Longrightarrow> outstanding s = outstanding s'"
  by (simp add: tx_def outstanding_def fun_eq_iff)

lemma tx_ok_genuine: "tx_ok log m s \<Longrightarrow> (n, p) \<in> set (win s) \<Longrightarrow> genuine (take m log) n p"
  by (auto simp: tx_ok_def)

lemma genuine_snoc: "genuine log n p \<Longrightarrow> genuine (log @ ys) n p"
  by (auto simp: genuine_def nth_append)

lemma genuine_take_mono: "genuine (take m log) n p \<Longrightarrow> m \<le> m' \<Longrightarrow> genuine (take m' log) n p"
  by (auto simp: genuine_def)

lemma fill_loop_ok:
  assumes "m \<le> length log" and "ps = drop m log" and "next_send_number s = word_of_nat m"
    and "\<forall>(n, p) \<in> set (win s). genuine (take m log) n p"
  shows "\<exists>m'. m \<le> m' \<and> m' \<le> length log \<and> pending_send_chunks (fill_loop ps s) = drop m' log
    \<and> next_send_number (fill_loop ps s) = word_of_nat m'
    \<and> (\<forall>(n, p) \<in> set (win (fill_loop ps s)). genuine (take m' log) n p)
    \<and> (\<forall>i < m'. m \<le> i \<or> outstanding s i \<longrightarrow> outstanding (fill_loop ps s) i)"
  using assms
proof (induction ps arbitrary: m s)
  case Nil
  then show ?case by (intro exI [of _ m]) (auto simp: win_def outstanding_def)
next
  case (Cons c ps)
  show ?case
  proof (cases "length (send_window s) < send_buffer_size s")
    case False
    then have f: "fill_loop (c # ps) s = s\<lparr>pending_send_chunks := c # ps\<rparr>" by simp
    show ?thesis
      unfolding f using Cons.prems by (intro exI [of _ m]) (auto simp: win_def outstanding_def)
  next
    case True
    let ?s = "s\<lparr>next_send_number := next_send_number s + 1, send_window := send_window s @
       [\<lparr>sg_number = next_send_number s, sg_payload = c, sg_timeout = 0, sg_transmit = 0\<rparr>]\<rparr>"
    have m: "m < length log"
      using Cons.prems(1,2) by (metis drop_eq_Nil list.distinct(1) not_le)
    then have c: "c = log ! m" and ps: "ps = drop (Suc m) log"
      using Cons.prems(2) by (simp_all add: Cons_nth_drop_Suc [symmetric])
    have win: "win ?s = win s @ [(word_of_nat m, c)]"
      using Cons.prems(3) by (simp add: win_def)
    have gen: "\<forall>(n, p) \<in> set (win ?s). genuine (take (Suc m) log) n p"
    proof -
      have "genuine (take (Suc m) log) (word_of_nat m) c"
        using m by (auto simp: genuine_def c)
      then show ?thesis
        using Cons.prems(4) genuine_take_mono [where m = m and m' = "Suc m"] by (auto simp: win)
    qed
    have nx: "next_send_number ?s = word_of_nat (Suc m)" using Cons.prems(3) by simp
    have out: "outstanding ?s i \<longleftrightarrow> outstanding s i \<or> word_of_nat i = (word_of_nat m :: u32)" for i
      by (auto simp: outstanding_def win)
    have f: "fill_loop (c # ps) s = fill_loop ps ?s" using True by simp
    have *: "Suc m \<le> i \<or> outstanding ?s i" if "m \<le> i \<or> outstanding s i" for i
      using that out [of i] by (cases "m = i") auto
    from Cons.IH [OF Suc_leI [OF m] ps nx gen] show ?thesis
      unfolding f using * Suc_leD by blast
  qed
qed

lemma mss_fill_loop [simp]: "mss (fill_loop ps s) = mss s"
  by (induction ps arbitrary: s) simp_all

lemma fill_send_window_ok:
  assumes "tx_ok log m s"
  shows "\<exists>m'. m \<le> m' \<and> tx_ok log m' (fill_send_window s)
    \<and> (\<forall>i < m'. m \<le> i \<or> outstanding s i \<longrightarrow> outstanding (fill_send_window s) i)"
proof -
  let ?f = "fill_loop (pending_send_chunks s) s"
  have tx: "tx (fill_send_window s) = tx ?f"
    by (simp add: fill_send_window_def half_simps)
  obtain m' where "m \<le> m'" "m' \<le> length log" "pending_send_chunks ?f = drop m' log"
      "next_send_number ?f = word_of_nat m'" "\<forall>(n, p) \<in> set (win ?f). genuine (take m' log) n p"
      "\<forall>i < m'. m \<le> i \<or> outstanding s i \<longrightarrow> outstanding ?f i"
    using fill_loop_ok [of m log "pending_send_chunks s" s] assms by (auto simp: tx_ok_def)
  then show ?thesis
    using assms unfolding tx_ok_cong [OF tx] outstanding_cong [OF tx] by (auto simp: tx_ok_def)
qed

text \<open>Sending changes no number and no payload, and sends only what the window holds.\<close>

lemma send_loop_ok:
  assumes "send_loop s c cwnd n segs = (segs', out)"
  shows "map (\<lambda>g. (sg_number g, sg_payload g)) segs' = map (\<lambda>g. (sg_number g, sg_payload g)) segs"
    and "\<forall>p \<in> set out. \<exists>g \<in> set segs. p = serialize_data (conv s) (closing_option s) c (sg_number g)
      (first_unacked s) (sg_payload g)"
  using assms
  by (induction segs arbitrary: n segs' out)
    (auto simp: Let_def split: if_splits prod.splits)

lemma flush_send_window_ok:
  assumes "flush_send_window c s = (s', out)"
  shows "tx s' = tx s" and "rx s' = rx s"
    and "\<forall>p \<in> set out. \<exists>(n, d) \<in> set (win s). p = serialize_data (conv s) (closing_option s) c n (first_unacked s) d"
  using assms send_loop_ok [of s c]
  by (fastforce simp: flush_send_window_def Let_def tx_def rx_def win_def split: if_splits prod.splits)+

text \<open>An acknowledgement removes what it names and what lies before its next number, nothing else.\<close>

lemma remove_first_subset: "set (remove_first P xs) \<subseteq> set xs"
  by (induction xs) auto

lemma length_remove_first: "length (remove_first P xs) \<le> length xs"
  by (induction xs) auto

lemma remove_first_keeps: "x \<in> set xs \<Longrightarrow> \<not> P x \<Longrightarrow> x \<in> set (remove_first P xs)"
  by (induction xs) auto

definition shrinks_to :: "(u32 \<Rightarrow> bool) \<Rightarrow> XrayKcpSession \<Rightarrow> XrayKcpSession \<Rightarrow> bool" where
  "shrinks_to P s s' =
     (pending_send_chunks s' = pending_send_chunks s \<and> next_send_number s' = next_send_number s
      \<and> mss s' = mss s \<and> send_buffer_size s' = send_buffer_size s
      \<and> length (win s') \<le> length (win s) \<and> set (win s') \<subseteq> set (win s)
      \<and> (\<forall>(n, p) \<in> set (win s). P n \<or> (n, p) \<in> set (win s')))"

lemma shrinks_to_tx: "tx s' = tx s \<Longrightarrow> shrinks_to P s s'"
  by (auto simp: tx_def shrinks_to_def)

lemma shrinks_to_trans:
  "shrinks_to P s s1 \<Longrightarrow> shrinks_to Q s1 s2 \<Longrightarrow> shrinks_to (\<lambda>n. P n \<or> Q n) s s2"
  by (fastforce simp: shrinks_to_def)

lemma shrinks_to_mono: "shrinks_to P s s' \<Longrightarrow> (\<And>n. P n \<Longrightarrow> Q n) \<Longrightarrow> shrinks_to Q s s'"
  by (auto simp: shrinks_to_def)

lemma shrinks_to_tx_trans: "shrinks_to P s s1 \<Longrightarrow> tx s2 = tx s1 \<Longrightarrow> shrinks_to P s s2"
  by (auto simp: tx_def shrinks_to_def)

lemma tx_shrinks_to_trans: "tx s1 = tx s \<Longrightarrow> shrinks_to P s1 s2 \<Longrightarrow> shrinks_to P s s2"
  by (auto simp: tx_def shrinks_to_def)

lemma remove_sent_before_shrinks: "shrinks_to (\<lambda>n. seq_lt n nxt) s (remove_sent_before nxt s)"
  by (auto simp: shrinks_to_def remove_sent_before_def update_first_unacked_def win_def length_dropWhile_le
      dest: set_dropWhileD)
    (metis (no_types, lifting) Un_iff image_eqI set_append set_takeWhileD takeWhile_dropWhile_id)

lemma remove_sent_number_shrinks: "shrinks_to (\<lambda>m. m = n) s (snd (remove_sent_number n s))"
  using remove_first_subset [of "\<lambda>seg. sg_number seg = n" "send_window s"]
    remove_first_keeps [of _ "send_window s" "\<lambda>seg. sg_number seg = n"]
  by (auto simp: shrinks_to_def remove_sent_number_def update_first_unacked_def win_def length_remove_first)

lemma remove_acked_shrinks: "shrinks_to (\<lambda>n. n \<in> set ns) s (snd (remove_acked ns (b, s)))"
proof (induction ns arbitrary: b s)
  case Nil
  show ?case by (simp add: shrinks_to_tx)
next
  case (Cons n ns)
  obtain hit s1 where s1: "remove_sent_number n s = (hit, s1)" by fastforce
  have "shrinks_to (\<lambda>m. m = n) s s1" using remove_sent_number_shrinks [of n s] s1 by simp
  from shrinks_to_trans [OF this Cons.IH [of s1 "b \<or> hit"]] show ?case
    by (auto simp: s1 elim: shrinks_to_mono)
qed

lemma process_ack_shrinks:
  "shrinks_to (\<lambda>n. seq_lt n (as_receiving_next seg) \<or> n \<in> set (as_numbers seg)) s (process_ack_segment seg c s)"
proof -
  let ?h = "handle_option (as_option seg) c s"
  let ?w = "if remote_next_number ?h < as_receiving_window seg
    then ?h\<lparr>remote_next_number := as_receiving_window seg\<rparr> else ?h"
  let ?b = "remove_sent_before (as_receiving_next seg) ?w"
  let ?a = "snd (remove_acked (as_numbers seg) (False, ?b))"
  have w: "tx ?w = tx s" by (simp add: half_simps)
  have a: "tx (process_ack_segment seg c s) = tx ?a"
    by (simp add: process_ack_segment_def Let_def half_simps split_def)
  show ?thesis
    by (intro shrinks_to_tx_trans [OF _ a] tx_shrinks_to_trans [OF w]
        shrinks_to_trans [OF remove_sent_before_shrinks remove_acked_shrinks])
qed

lemma process_cmd_shrinks:
  "shrinks_to (\<lambda>n. seq_lt n (cs_receiving_next seg)) s (process_cmd_segment seg c s)"
proof -
  let ?w = "if cs_cmd seg = 2 then terminate_state c (handle_option (cs_option seg) c s)
    else handle_option (cs_option seg) c s"
  have w: "tx ?w = tx s" by (simp add: half_simps)
  have a: "tx (process_cmd_segment seg c s) = tx (remove_sent_before (cs_receiving_next seg) ?w)"
    by (simp add: process_cmd_segment_def Let_def half_simps)
  show ?thesis
    by (intro shrinks_to_tx_trans [OF _ a] tx_shrinks_to_trans [OF w] remove_sent_before_shrinks)
qed

lemma shrinks_to_ok:
  assumes "shrinks_to P s s'" and "tx_ok log m s"
  shows "tx_ok log m s'" and "outstanding s i \<Longrightarrow> P (word_of_nat i) \<or> outstanding s' i"
  using assms by (fastforce simp: shrinks_to_def tx_ok_def outstanding_def)+

text \<open>Serial number comparison is the order of the indices while they differ by less than \<open>2 ^ 31\<close>.\<close>

lemma seq_lt_word_of_nat:
  assumes "i < 2 ^ 31" and "j < 2 ^ 31"
  shows "seq_lt (word_of_nat i) (word_of_nat j) \<longleftrightarrow> i < j"
proof -
  let ?d = "word_of_nat i - word_of_nat j :: u32"
  have "?d = word_of_int (int i - int j)" by simp
  then have u: "uint ?d = (int i - int j) mod 2 ^ 32" by (simp only: uint_word_of_int) simp
  have "seq_lt (word_of_nat i) (word_of_nat j) \<longleftrightarrow> uint ?d > 0x7fffffff"
    unfolding seq_lt_def word_less_def by (cases "word_of_nat i = (word_of_nat j :: u32)") simp_all
  also have "\<dots> \<longleftrightarrow> (int i - int j) mod 2 ^ 32 > 0x7fffffff" by (simp only: u)
  also have "\<dots> \<longleftrightarrow> i < j"
  proof (cases "i < j")
    case True
    have "(int i - int j) mod 2 ^ 32 = (int i - int j + 2 ^ 32) mod 2 ^ 32"
      by (simp only: mod_add_self2)
    also have "\<dots> = int i - int j + 2 ^ 32"
      using True assms by (intro mod_pos_pos_trivial) auto
    finally have "(int i - int j) mod 2 ^ 32 = int i - int j + 2 ^ 32" .
    then show ?thesis using True assms by simp
  next
    case False
    then have "(int i - int j) mod 2 ^ 32 = int i - int j"
      using assms by (intro mod_pos_pos_trivial) auto
    then show ?thesis using False assms by simp
  qed
  finally show ?thesis .
qed

section \<open>Runs of one session\<close>

datatype KcpOp = OpWrite bytes | OpClose u32 | OpInput bytes u32 | OpFlush u32 | OpTake

fun kcp_op :: "KcpOp \<Rightarrow> XrayKcpSession \<Rightarrow> XrayKcpSession" where
  "kcp_op (OpWrite data) s = enqueue_application_data data s"
| "kcp_op (OpClose c) s = mark_application_write_closed c s"
| "kcp_op (OpInput p c) s = kcp_input p c s"
| "kcp_op (OpFlush c) s = fst (kcp_flush c s)"
| "kcp_op OpTake s = snd (take_received s)"

fun state_rank :: "SessionState \<Rightarrow> nat" where
  "state_rank Active = 0"
| "state_rank ReadyToClose = 1"
| "state_rank PeerClosed = 1"
| "state_rank PeerTerminating = 2"
| "state_rank Terminating = 3"
| "state_rank Terminated = 4"

definition later :: "XrayKcpSession \<Rightarrow> XrayKcpSession \<Rightarrow> bool" where
  "later s s' = (state s' = state s \<or> state_rank (state s) < state_rank (state s'))"

lemma later_refl [simp]: "later s s"
  by (simp add: later_def)

lemma later_trans: "later s s1 \<Longrightarrow> later s1 s2 \<Longrightarrow> later s s2"
  by (auto simp: later_def)

lemma later_same: "state s' = state s \<Longrightarrow> later s s'"
  by (simp add: later_def)

lemma later_handle_option: "later s (handle_option opt c s)"
  by (cases "state s") (simp_all add: later_def handle_option_def set_state_def)

lemma later_terminate: "later s (terminate_state c s)"
  by (cases "state s") (simp_all add: later_def terminate_state_def set_state_def)

lemma later_mark_closed: "later s (mark_application_write_closed c s)"
  by (cases "state s") (simp_all add: later_def mark_application_write_closed_def set_state_def)

lemma later_set_state: "state_rank (state s) < state_rank st \<Longrightarrow> later s (set_state st c s)"
  by (simp add: later_def set_state_def)

lemma state_promote [simp]: "state (promote_received s) = state s"
  by (induction s rule: promote_received.induct)
    (subst promote_received.simps, simp split: option.split)

lemma state_update_first_unacked [simp]: "state (update_first_unacked s) = state s"
  by (simp add: update_first_unacked_def)

lemma state_remove_sent_before [simp]: "state (remove_sent_before n s) = state s"
  by (simp add: remove_sent_before_def)

lemma state_remove_acked [simp]: "state (snd (remove_acked ns (b, s))) = state s"
  by (induction ns arbitrary: b s) (simp_all add: remove_sent_number_def)

lemma state_fill_loop [simp]: "state (fill_loop ps s) = state s"
  by (induction ps arbitrary: s) simp_all

lemma state_fill_send_window [simp]: "state (fill_send_window s) = state s"
  by (simp add: fill_send_window_def)

lemma state_flush_send_window [simp]: "state (fst (flush_send_window c s)) = state s"
  by (simp add: flush_send_window_def Let_def split_def)

lemma later_process_segment: "later s (process_segment seg c s)"
proof (cases seg)
  case (SegData d)
  then show ?thesis
    using later_handle_option [of s "ds_option d" c] by (simp add: process_data_segment_def Let_def later_def)
next
  case (SegAck a)
  then show ?thesis
    using later_handle_option [of s "as_option a" c]
    by (simp add: process_ack_segment_def Let_def later_def split_def)
next
  case (SegCmd a)
  then show ?thesis
    using later_handle_option [of s "cs_option a" c]
      later_trans [OF later_handle_option [of s "cs_option a" c] later_terminate [of _ c]]
    by (simp add: process_cmd_segment_def Let_def later_def)
qed

lemma later_input: "later s (kcp_input p c s)"
proof -
  have "later s0 (fold (\<lambda>seg s. process_segment seg c s) segs s0)" for segs s0
    by (induction segs arbitrary: s0) (auto intro: later_trans later_process_segment)
  from later_trans [OF later_same this, of "s\<lparr>last_incoming := c\<rparr>" s "segments p"] show ?thesis
    by (simp add: kcp_input_def input_loop_fold)
qed

lemma later_flush_states: "later s (flush_states c s)"
proof -
  show ?thesis
    unfolding flush_states_def Let_def
    using later_mark_closed [of s c]
    by (auto intro!: later_set_state later_mark_closed later_trans [OF later_set_state later_set_state] simp: later_def set_state_def)
qed

lemma later_flush: "later s (fst (kcp_flush c s))"
proof -
  let ?f = "fill_send_window (flush_states c s)"
  have f: "later s ?f" using later_flush_states [of s c] by (simp add: later_def)
  show ?thesis
  proof (cases "state s = Terminated \<or> state ?f = Terminating")
    case True
    then show ?thesis
      using f by (auto simp: kcp_flush_def Let_def flush_cmd_def later_def set_state_def)
  next
    case False
    obtain s1 out where s1: "flush_send_window c (?f\<lparr>pending_acks := []\<rparr>) = (s1, out)" by fastforce
    have "state s1 = state ?f" using state_flush_send_window [of c "?f\<lparr>pending_acks := []\<rparr>"] s1 by simp
    with False f s1 show ?thesis
      by (auto simp: kcp_flush_def Let_def flush_cmd_def flush_pending_acks_def later_def)
  qed
qed

text \<open>
  C22: a session's state only moves forward. Whatever is written, received, flushed, taken or closed,
  at whatever times, the state is the one it was or one further on the way from active over half
  closed, peer terminating and terminating to terminated; no state is ever entered twice and a
  terminated session stays terminated.
\<close>

theorem kcp_state_monotone:
  "state (fold kcp_op ops s) = state s \<or> state_rank (state s) < state_rank (state (fold kcp_op ops s))"
proof -
  have "later s (kcp_op op s)" for op s
    by (cases op)
      (auto simp: enqueue_application_data_def take_received_def later_mark_closed later_input later_flush
        intro: later_same split: list.split)
  then have "later s (fold kcp_op ops s)"
    by (induction ops arbitrary: s) (auto intro: later_trans)
  then show ?thesis by (simp add: later_def)
qed

section \<open>Bounded buffers\<close>

definition rx_bounded :: "u32 \<Rightarrow> u32 \<Rightarrow> (u32 \<times> bytes) list \<Rightarrow> bool" where
  "rx_bounded nx sz m = (distinct (map fst m) \<and> (\<forall>n \<in> fst ` set m. n - nx < sz))"

lemma rx_bounded_length:
  assumes "rx_bounded nx sz m"
  shows "length m \<le> unat sz"
proof -
  have inj: "inj_on (\<lambda>n. unat (n - nx)) (fst ` set m)"
  proof (rule inj_onI)
    show "a = b" if "unat (a - nx) = unat (b - nx)" for a b
    proof -
      have "a - nx = b - nx" using that by (simp only: word_unat_eq_iff)
      then show ?thesis by simp
    qed
  qed
  have "(\<lambda>n. unat (n - nx)) ` fst ` set m \<subseteq> {..<unat sz}"
    using assms by (auto simp: rx_bounded_def word_less_nat_alt)
  then have "card (fst ` set m) \<le> unat sz"
    using card_mono [of "{..<unat sz}"] by (metis card_image card_lessThan finite_lessThan inj)
  then show ?thesis
    using assms distinct_card [of "map fst m"] by (simp add: rx_bounded_def)
qed

lemma rx_bounded_promote:
  assumes "rx_bounded nx sz m"
  shows "rx_bounded (nx + 1) sz (hm_remove nx m)"
proof -
  have "n - (nx + 1) < sz" if "n - nx < sz" "n \<noteq> nx" for n
  proof -
    have "n - nx \<noteq> 0" using that(2) by simp
    then have "n - nx - 1 < n - nx" by (simp add: word_less_nat_alt unat_minus_one unat_gt_0)
    with that(1) show ?thesis by (simp add: diff_diff_eq)
  qed
  then show ?thesis
    using assms by (auto simp: rx_bounded_def hm_remove_def distinct_map_filter)
qed

lemma rx_bounded_insert:
  "rx_bounded nx sz m \<Longrightarrow> n - nx < sz \<Longrightarrow> rx_bounded nx sz (or_insert n p m)"
  by (auto simp: rx_bounded_def or_insert_def map_of_eq_None_iff split: option.split)

definition bounded :: "u32 \<Rightarrow> nat \<Rightarrow> XrayKcpSession \<Rightarrow> bool" where
  "bounded w z s = (recv_window_size s = w \<and> send_buffer_size s = z \<and> rx_bounded (recv_next_number s) w (recv_packets s)
     \<and> length (win s) \<le> z)"

lemma bounded_cong: "tx s' = tx s \<Longrightarrow> rx s' = rx s \<Longrightarrow> bounded w z s' = bounded w z s"
  by (simp add: bounded_def tx_def rx_def)

lemma bounded_promote: "bounded w z s \<Longrightarrow> bounded w z (promote_received s)"
proof (induction s rule: promote_received.induct)
  case (1 s)
  show ?case
    using 1 rx_bounded_promote [of "recv_next_number s" "recv_window_size s" "recv_packets s"]
    by (subst promote_received.simps) (auto simp: bounded_def win_def split: option.split)
qed

lemma bounded_process_data:
  assumes "bounded w z s"
  shows "bounded w z (process_data_segment seg c s)"
proof -
  let ?h = "handle_option (ds_option seg) c s"
  have h: "bounded w z ?h" using assms bounded_cong [of ?h s] by (simp add: half_simps)
  have "bounded w z (?h\<lparr>pending_acks := acks, recv_packets := or_insert (ds_number seg) (ds_payload seg) (recv_packets ?h)\<rparr>)"
    if "\<not> recv_window_size ?h \<le> ds_number seg - recv_next_number ?h" for acks
    using h that by (auto simp: bounded_def win_def not_le intro: rx_bounded_insert)
  from bounded_promote [OF this] h show ?thesis
    by (simp add: process_data_segment_def Let_def)
qed

lemma bounded_shrinks: "shrinks_to P s s' \<Longrightarrow> rx s' = rx s \<Longrightarrow> bounded w z s \<Longrightarrow> bounded w z s'"
  by (simp add: bounded_def shrinks_to_def rx_def)

lemma bounded_process_segment: "bounded w z s \<Longrightarrow> bounded w z (process_segment seg c s)"
  by (cases seg)
    (auto simp: bounded_process_data half_simps
      intro: bounded_shrinks [OF process_ack_shrinks] bounded_shrinks [OF process_cmd_shrinks])

lemma bounded_input:
  assumes "bounded w z s"
  shows "bounded w z (kcp_input p c s)"
proof -
  have "bounded w z s0 \<Longrightarrow> bounded w z (fold (\<lambda>seg s. process_segment seg c s) segs s0)" for segs s0
    by (induction segs arbitrary: s0) (simp_all add: bounded_process_segment)
  moreover have "bounded w z (s\<lparr>last_incoming := c\<rparr>)"
    using assms bounded_cong [of "s\<lparr>last_incoming := c\<rparr>" s] by (simp add: half_simps)
  ultimately show ?thesis by (simp add: kcp_input_def input_loop_fold)
qed

lemma fill_loop_bounded:
  "length (send_window s) \<le> send_buffer_size s \<Longrightarrow>
   length (send_window (fill_loop ps s)) \<le> send_buffer_size (fill_loop ps s)"
  by (induction ps arbitrary: s) simp_all

lemma send_buffer_size_fill_loop [simp]: "send_buffer_size (fill_loop ps s) = send_buffer_size s"
  by (induction ps arbitrary: s) simp_all

lemma bounded_fill: "bounded w z s \<Longrightarrow> bounded w z (fill_send_window s)"
  using fill_loop_bounded [of s "pending_send_chunks s"] rx_fill_loop [of "pending_send_chunks s" s]
  by (simp add: fill_send_window_def bounded_def win_def update_first_unacked_def rx_def)

lemma bounded_flush:
  assumes "bounded w z s"
  shows "bounded w z (fst (kcp_flush c s))"
proof -
  let ?f = "fill_send_window (flush_states c s)"
  have "bounded w z (flush_states c s)" using assms bounded_cong [of "flush_states c s" s] by (simp add: half_simps)
  then have f: "bounded w z ?f" by (rule bounded_fill)
  obtain s1 out where s1: "flush_send_window c (?f\<lparr>pending_acks := []\<rparr>) = (s1, out)" by fastforce
  have "bounded w z (?f\<lparr>pending_acks := []\<rparr>)" using f by (simp add: bounded_def win_def)
  then have b1: "bounded w z s1" using bounded_cong [OF flush_send_window_ok(1,2) [OF s1]] by simp
  have lp: "bounded w z (x\<lparr>last_ping := t\<rparr>) = bounded w z x" "bounded w z (set_state st t x) = bounded w z x" for x t st
    by (rule bounded_cong; simp add: half_simps)+
  show ?thesis
    using assms f b1 s1 by (simp add: kcp_flush_def Let_def flush_cmd_def flush_pending_acks_def lp)
qed

lemma bounded_op: "bounded w z s \<Longrightarrow> bounded w z (kcp_op op s)"
proof (cases op)
  case (OpWrite data)
  then show "bounded w z s \<Longrightarrow> ?thesis" by (simp add: enqueue_application_data_def bounded_def win_def)
next
  case (OpClose c)
  then show "bounded w z s \<Longrightarrow> ?thesis"
    using bounded_cong [of "mark_application_write_closed c s" s] by (simp add: half_simps)
next
  case OpTake
  then show "bounded w z s \<Longrightarrow> ?thesis" by (auto simp: take_received_def bounded_def win_def split: list.split)
qed (simp_all add: bounded_input bounded_flush)

text \<open>
  C23: a session's buffers are bounded. Whatever arrives, out of order, duplicated or made up, and
  however the application behaves, the packets held back for reordering never exceed the receive
  window and the segments held for retransmission never exceed the send buffer, both fixed when the
  session is created.
\<close>

theorem kcp_buffers_bounded:
  "length (recv_packets (fold kcp_op ops (kcp_new config))) \<le> unat (recv_window_size (kcp_new config))
   \<and> length (send_window (fold kcp_op ops (kcp_new config))) \<le> send_buffer_size (kcp_new config)"
proof -
  let ?w = "recv_window_size (kcp_new config)" and ?z = "send_buffer_size (kcp_new config)"
  have "bounded ?w ?z (kcp_new config)"
    by (simp add: bounded_def rx_bounded_def win_def kcp_new_def Let_def)
  moreover have "bounded w z s \<Longrightarrow> bounded w z (fold kcp_op ops s)" for w z s
    by (induction ops arbitrary: s) (simp_all add: bounded_op)
  ultimately have "bounded ?w ?z (fold kcp_op ops (kcp_new config))" by blast
  then show ?thesis
    using rx_bounded_length by (auto simp: bounded_def win_def)
qed


definition sample_lost :: XrayKcpSession where
  "sample_lost = (kcp_new \<lparr>cfg_conv = 7, cfg_mtu = 40, cfg_tti = 10, cfg_uplink_capacity = 1,
       cfg_downlink_capacity = 1, cfg_write_buffer_size = 80, cfg_packet_overhead = 6\<rparr>)
     \<lparr>send_window := [\<lparr>sg_number = 0, sg_payload = [1], sg_timeout = 110, sg_transmit = 1\<rparr>]\<rparr>"


end
