(* ===== verification/Kcp_Network.thy ===== *)
theory Kcp_Network
  imports Kcp_Session
begin

text \<open>
  Two mKCP sessions of \<open>handler/kcp/xray_session.rs\<close> over an unreliable network. The network is the
  set of packets each side has ever sent: a packet of the set may arrive any number of times, in any
  order, at any time, or never. The invariant of the pair gives reliability: in order, without
  duplicates, and nothing leaves the sender's window before the receiver has it.
\<close>

section \<open>What a flush sends\<close>

lemma segments_single: "read_segment p = Some (seg, []) \<Longrightarrow> segments p = [seg]"
  by (subst segments.simps) (simp add: segments.simps [of "[]"] read_segment_def [of "[]"])

lemma segments_data:
  "length d < 65536 \<Longrightarrow> segments (serialize_data cv opt ts n nx d)
    = [SegData \<lparr>ds_option = opt, ds_timestamp = ts, ds_number = n, ds_payload = d\<rparr>]"
  using read_serialize_data [where rest = "[]"] by (intro segments_single) simp

lemma segments_ack:
  "length ns < 256 \<Longrightarrow> segments (serialize_ack cv opt w nx ts ns)
    = [SegAck \<lparr>as_option = opt, as_receiving_window = w, as_receiving_next = nx, as_timestamp = ts, as_numbers = ns\<rparr>]"
  using read_serialize_ack [where rest = "[]"] by (intro segments_single) simp

lemma segments_cmd:
  "cmd = 2 \<or> cmd = 3 \<Longrightarrow> segments (serialize_cmd cv cmd opt snx nx rto)
    = [SegCmd \<lparr>cs_cmd = cmd, cs_option = opt, cs_receiving_next = nx, cs_peer_rto = rto\<rparr>]"
  using read_serialize_cmd [where rest = "[]"] by (intro segments_single) auto

lemma ack_batches_step:
  "acks \<noteq> [] \<Longrightarrow> \<exists>ts. ack_batches s acks = serialize_ack (conv s) (closing_option s)
     (recv_next_number s + recv_window_size s) (recv_next_number s) ts (map pa_number (take ACK_NUMBER_LIMIT acks))
     # ack_batches s (drop ACK_NUMBER_LIMIT acks)"
  by (rule exI, subst ack_batches.simps) (simp add: Let_def)

definition ack_packet :: "u32 \<Rightarrow> u32 set \<Rightarrow> bytes \<Rightarrow> bool" where
  "ack_packet nx A p =
     (\<exists>cv opt w ts ns. p = serialize_ack cv opt w nx ts ns \<and> set ns \<subseteq> A \<and> length ns \<le> 128)"

lemma ack_packet_mono: "ack_packet nx A p \<Longrightarrow> A \<subseteq> B \<Longrightarrow> ack_packet nx B p"
  by (auto simp: ack_packet_def) (metis order_trans)

lemma ack_batches_ok:
  "p \<in> set (ack_batches s acks) \<Longrightarrow> ack_packet (recv_next_number s) (pa_number ` set acks) p"
proof (induction s acks rule: ack_batches.induct)
  case (1 s acks)
  have ne: "acks \<noteq> []"
    using 1(2) by (intro notI) (simp add: ack_batches.simps [of s "[]"])
  let ?batch = "take ACK_NUMBER_LIMIT acks"
  have sub: "set (map pa_number ?batch) \<subseteq> pa_number ` set acks"
    and rest: "pa_number ` set (drop ACK_NUMBER_LIMIT acks) \<subseteq> pa_number ` set acks"
    by (simp_all add: image_mono set_take_subset set_drop_subset)
  have len: "length (map pa_number ?batch) \<le> 128" by (simp add: ACK_NUMBER_LIMIT_def)
  obtain ts where eq: "ack_batches s acks = serialize_ack (conv s) (closing_option s)
      (recv_next_number s + recv_window_size s) (recv_next_number s) ts (map pa_number ?batch)
      # ack_batches s (drop ACK_NUMBER_LIMIT acks)"
    using ack_batches_step [OF ne] by blast
  have "ack_packet (recv_next_number s) (pa_number ` set acks)
      (serialize_ack (conv s) (closing_option s) (recv_next_number s + recv_window_size s)
        (recv_next_number s) ts (map pa_number ?batch))"
    unfolding ack_packet_def by (intro exI conjI, rule refl, rule sub, rule len)
  with 1(2) ack_packet_mono [OF 1(1) [OF ne refl refl] rest] show ?case
    unfolding eq set_simps by blast
qed

text \<open>The packets of one flush, and what it does to the two halves.\<close>

definition flushed :: "u32 \<Rightarrow> XrayKcpSession \<Rightarrow> XrayKcpSession" where
  "flushed c s = fill_send_window (flush_states c s)"

definition data_packet :: "(u32 \<times> bytes) set \<Rightarrow> bytes \<Rightarrow> bool" where
  "data_packet W p = (\<exists>cv opt ts n nx d. (n, d) \<in> W \<and> p = serialize_data cv opt ts n nx d)"

definition cmd_packet :: "u32 \<Rightarrow> bytes \<Rightarrow> bool" where
  "cmd_packet nx p = (\<exists>cv cmd opt snx rto. (cmd = 2 \<or> cmd = 3) \<and> p = serialize_cmd cv cmd opt snx nx rto)"

definition from_flush :: "u32 \<Rightarrow> XrayKcpSession \<Rightarrow> bytes \<Rightarrow> bool" where
  "from_flush c s p =
     (ack_packet (recv_next_number s) (pa_number ` set (pending_acks s)) p
      \<or> data_packet (set (win (flushed c s))) p \<or> cmd_packet (recv_next_number s) p)"

lemma cmd_packet_flush_cmd: "cmd = 2 \<or> cmd = 3 \<Longrightarrow> cmd_packet (recv_next_number s) (snd (flush_cmd cmd c s))"
  unfolding cmd_packet_def flush_cmd_def snd_conv by (intro exI conjI) auto

lemma flush_send_window_packets:
  "flush_send_window c s = (s', out) \<Longrightarrow> p \<in> set out \<Longrightarrow> data_packet (set (win s)) p"
  unfolding data_packet_def by (drule flush_send_window_ok(3)) blast

lemma rx_flushed [half_simps]: "rx (flushed c s) = rx s"
  by (simp add: flushed_def half_simps)

lemma kcp_flush_ok:
  assumes "kcp_flush c s = (s', out)"
  shows "state s = Terminated \<and> s' = s \<or> tx s' = tx (flushed c s)"
    and "rx s' = rx s \<or> rx s' = rx (s\<lparr>pending_acks := []\<rparr>)"
    and "\<forall>p \<in> set out. from_flush c s p"
proof -
  let ?f = "flushed c s"
  have rf: "recv_next_number ?f = recv_next_number s" "pending_acks ?f = pending_acks s"
    using rx_flushed [of c s] by (simp_all add: rx_def)
  consider (dead) "state s = Terminated" | (closing) "state s \<noteq> Terminated" "state ?f = Terminating"
    | (open_) "state s \<noteq> Terminated" "state ?f \<noteq> Terminating" by blast
  then have "(state s = Terminated \<and> s' = s \<or> tx s' = tx ?f)
    \<and> (rx s' = rx s \<or> rx s' = rx (s\<lparr>pending_acks := []\<rparr>)) \<and> (\<forall>p \<in> set out. from_flush c s p)"
  proof cases
    case dead
    with assms show ?thesis by (simp add: kcp_flush_def)
  next
    case closing
    with assms have s': "s' = (if c - state_begin ?f > 8000
          then set_state Terminated c (?f\<lparr>last_ping := c\<rparr>) else ?f\<lparr>last_ping := c\<rparr>)"
      and out: "out = [snd (flush_cmd 2 c ?f)]"
      by (auto simp: kcp_flush_def flushed_def Let_def flush_cmd_def split: if_splits)
    have "tx s' = tx ?f" "rx s' = rx s" by (simp_all add: s' half_simps)
    moreover have "from_flush c s (snd (flush_cmd 2 c ?f))"
      using cmd_packet_flush_cmd [of 2 ?f c] by (simp add: from_flush_def rf)
    ultimately show ?thesis by (simp add: out)
  next
    case open_
    let ?a = "?f\<lparr>pending_acks := []\<rparr>"
    obtain s1 data where s1: "flush_send_window c ?a = (s1, data)" by fastforce
    note w = flush_send_window_ok [OF s1]
    have ra: "rx ?a = rx (s\<lparr>pending_acks := []\<rparr>)" and ta: "tx ?a = tx ?f"
      using rx_flushed [of c s] by (simp_all add: rx_def half_simps)
    have r1: "recv_next_number s1 = recv_next_number s"
      using w(2) ra by (simp add: rx_def)
    have win: "win ?a = win ?f" by (simp add: win_def)
    have acks: "\<forall>p \<in> set (ack_batches ?f (pending_acks s)). from_flush c s p"
      using ack_batches_ok [of _ ?f "pending_acks s"] by (simp add: from_flush_def rf)
    have data: "\<forall>p \<in> set data. from_flush c s p"
      using flush_send_window_packets [OF s1] by (simp add: from_flush_def win)
    have ping: "from_flush c s (snd (flush_cmd 3 c s1))"
      using cmd_packet_flush_cmd [of 3 s1 c] by (simp add: from_flush_def r1)
    have "s' = (if c - last_ping s1 \<ge> 3000 then s1\<lparr>last_ping := c\<rparr> else s1)
        \<and> set out \<subseteq> set (ack_batches ?f (pending_acks s)) \<union> set data \<union> {snd (flush_cmd 3 c s1)}"
      using open_ assms s1
      by (auto simp: kcp_flush_def flushed_def [symmetric] Let_def flush_cmd_def flush_pending_acks_def rf
          split: if_splits)
    then show ?thesis
      using acks data ping w(1,2) ra ta by (auto simp: half_simps)
  qed
  then show "state s = Terminated \<and> s' = s \<or> tx s' = tx (flushed c s)"
    and "rx s' = rx s \<or> rx s' = rx (s\<lparr>pending_acks := []\<rparr>)"
    and "\<forall>p \<in> set out. from_flush c s p" by blast+
qed

section \<open>One direction of the pair\<close>

fun data_ok :: "bytes list \<Rightarrow> Segment \<Rightarrow> bool" where
  "data_ok sent (SegData d) = genuine sent (ds_number d) (ds_payload d)"
| "data_ok sent _ = True"

fun ack_ok :: "nat \<Rightarrow> nat \<Rightarrow> XrayKcpSession \<Rightarrow> Segment \<Rightarrow> bool" where
  "ack_ok m k r (SegAck a) =
     ((\<exists>j \<le> k. as_receiving_next a = word_of_nat j)
      \<and> (\<forall>n \<in> set (as_numbers a). \<exists>i < m. n = word_of_nat i \<and> received k r i))"
| "ack_ok m k r (SegCmd c) = (\<exists>j \<le> k. cs_receiving_next c = word_of_nat j)"
| "ack_ok m k r (SegData d) = True"

definition on_wire :: "(Segment \<Rightarrow> bool) \<Rightarrow> bytes set \<Rightarrow> bool" where
  "on_wire P net = (\<forall>p \<in> net. \<forall>seg \<in> set (segments p). P seg)"

text \<open>
  \<open>link\<close>: sender \<open>s\<close> with everything written to it in \<open>log\<close>, receiver \<open>r\<close> with what has been taken
  from it in \<open>got\<close>, and the packets both have sent. Every numbered chunk is in the sender's window or
  at the receiver.
\<close>

definition link_at :: "nat \<Rightarrow> nat \<Rightarrow> bytes list \<Rightarrow> bytes list \<Rightarrow> XrayKcpSession \<Rightarrow> XrayKcpSession
    \<Rightarrow> bytes set \<Rightarrow> bytes set \<Rightarrow> bool" where
  "link_at m k log got s r nets netr =
     (tx_ok log m s \<and> rx_ok (take m log) k got r \<and> promoted r
      \<and> (\<forall>i < m. outstanding s i \<or> received k r i)
      \<and> on_wire (data_ok (take m log)) nets \<and> on_wire (ack_ok m k r) netr)"

definition link :: "bytes list \<Rightarrow> bytes list \<Rightarrow> XrayKcpSession \<Rightarrow> XrayKcpSession
    \<Rightarrow> bytes set \<Rightarrow> bytes set \<Rightarrow> bool" where
  "link log got s r nets netr = (\<exists>m k. link_at m k log got s r nets netr)"

lemma link_at_D:
  assumes "link_at m k log got s r nets netr"
  shows "m \<le> length log" "k \<le> m" "length (take m log) = m"
  using assms by (auto simp: link_at_def tx_ok_def rx_ok_def)

lemma ack_ok_advances:
  assumes "advances log k r k' r'" and "length log = m" and "m \<le> m'" and "ack_ok m k r seg"
  shows "ack_ok m' k' r' seg"
proof -
  have "k \<le> k'" and r: "\<And>i. i < m \<Longrightarrow> received k r i \<Longrightarrow> received k' r' i"
    using assms(1,2) by (auto simp: advances_def)
  show ?thesis
  proof (cases seg)
    case (SegAck a)
    have "\<exists>i < m'. n = word_of_nat i \<and> received k' r' i" if n: "n \<in> set (as_numbers a)" for n
    proof -
      obtain i where "i < m" "n = word_of_nat i" "received k r i"
        using assms(4) n by (auto simp: SegAck)
      moreover have "i < m'" using \<open>i < m\<close> assms(3) by simp
      ultimately show ?thesis using r by blast
    qed
    then show ?thesis
      using assms(4) by (auto simp: SegAck intro: order_trans [OF _ \<open>k \<le> k'\<close>])
  qed (use assms(4) in \<open>auto intro: order_trans [OF _ \<open>k \<le> k'\<close>]\<close>)
qed

lemma data_ok_mono: "data_ok (take m log) seg \<Longrightarrow> m \<le> m' \<Longrightarrow> data_ok (take m' log) seg"
  by (cases seg) (auto intro: genuine_take_mono)

lemma on_wire_mono: "on_wire P net \<Longrightarrow> (\<And>seg. P seg \<Longrightarrow> Q seg) \<Longrightarrow> on_wire Q net"
  by (auto simp: on_wire_def)

lemma on_wire_Un [simp]: "on_wire P (a \<union> b) \<longleftrightarrow> on_wire P a \<and> on_wire P b"
  by (auto simp: on_wire_def)

lemma rx_ok_append:
  assumes "rx_ok log k got r"
  shows "rx_ok (log @ ys) k got r"
  unfolding rx_ok_def
proof (intro conjI ballI)
  show "k \<le> length (log @ ys)" "recv_next_number r = word_of_nat k" "got @ recv_ready r = take k (log @ ys)"
    using assms by (simp_all add: rx_ok_def)
  show "case x of (n, p) \<Rightarrow> genuine (log @ ys) n p" if "x \<in> set (recv_packets r)" for x
    using assms that genuine_snoc [of log _ _ ys] by (auto simp: rx_ok_def)
  show "\<exists>i < length (log @ ys). pa_number a = word_of_nat i \<and> received k r i" if a: "a \<in> set (pending_acks r)" for a
  proof -
    obtain i where "i < length log" "pa_number a = word_of_nat i" "received k r i"
      using assms a unfolding rx_ok_def by blast
    then show ?thesis by (intro exI [of _ i]) simp
  qed
qed

lemma rx_ok_take_mono:
  assumes "rx_ok (take m log) k got r" and "m \<le> m'"
  shows "rx_ok (take m' log) k got r"
  using rx_ok_append [OF assms(1), of "take (m' - m) (drop m log)"] assms(2)
  by (simp add: take_add [symmetric])

section \<open>The operations as sender\<close>

lemma link_write:
  assumes "link_at m k log got s r nets netr"
    and "tx s' = (pending_send_chunks s @ new, win s, next_send_number s, send_buffer_size s, mss s)"
    and "\<forall>c \<in> set new. length c < 65536"
  shows "link_at m k (log @ new) got s' r nets netr"
proof -
  have m: "m \<le> length log" and t: "take m (log @ new) = take m log"
    using link_at_D [OF assms(1)] by simp_all
  have "outstanding s' = outstanding s"
    using assms(2) by (simp add: outstanding_def tx_def fun_eq_iff)
  moreover have "tx_ok (log @ new) m s'"
    using assms m t by (auto simp: link_at_def tx_ok_def tx_def)
  ultimately show ?thesis
    using assms(1) unfolding link_at_def t by simp
qed

lemma link_sender_cong:
  assumes "link_at m k log got s r nets netr" and "tx s' = tx s"
  shows "link_at m k log got s' r nets netr"
  using assms tx_ok_cong [OF assms(2)] outstanding_cong [OF assms(2)] by (simp add: link_at_def)

lemma link_receiver_cong:
  assumes "link_at m k log got s r nets netr" and "rx r' = rx r"
  shows "link_at m k log got s r' nets netr"
proof -
  have "ack_ok m k r' seg = ack_ok m k r seg" for seg
    using received_cong [OF assms(2)] by (cases seg) simp_all
  then have "ack_ok m k r' = ack_ok m k r" by blast
  then show ?thesis
    using assms(1) rx_ok_cong [OF assms(2)] received_cong [OF assms(2)] promoted_cong [OF assms(2)]
    by (simp add: link_at_def)
qed

lemma link_process_as_sender:
  assumes l: "link_at m k log got s r nets netr" and small: "length log < 2 ^ 31"
    and seg: "ack_ok m k r seg"
  shows "link_at m k log got (process_segment seg c s) r nets netr"
proof -
  define P where "P n = (case seg of SegData _ \<Rightarrow> False
      | SegAck a \<Rightarrow> seq_lt n (as_receiving_next a) \<or> n \<in> set (as_numbers a)
      | SegCmd a \<Rightarrow> seq_lt n (cs_receiving_next a))" for n
  have sh: "shrinks_to P s (process_segment seg c s)"
    by (cases seg) (simp_all add: P_def [abs_def] process_ack_shrinks process_cmd_shrinks shrinks_to_tx half_simps)
  have rcv: "received k r i" if "P (word_of_nat i)" "i < m" for i
  proof -
    have less: "i < k" if "seq_lt (word_of_nat i) (word_of_nat j)" "j \<le> k" for j
      using that link_at_D [OF l] small \<open>i < m\<close> seq_lt_word_of_nat [of i j] by auto
    have eq: "i = j" if "word_of_nat i = (word_of_nat j :: u32)" "j < m" for j
      using that link_at_D [OF l] small \<open>i < m\<close> word_of_nat_inj [of i j] by auto
    show ?thesis
      using \<open>P (word_of_nat i)\<close> seg
      by (cases seg) (auto simp: P_def received_def dest: less eq)
  qed
  have "outstanding (process_segment seg c s) i \<or> received k r i" if "i < m" for i
    using l that shrinks_to_ok(2) [OF sh, of log m i] rcv by (auto simp: link_at_def)
  then show ?thesis
    using l shrinks_to_ok(1) [OF sh, of log m] by (simp add: link_at_def)
qed

lemma link_input_as_sender:
  assumes l: "link_at m k log got s r nets netr" and small: "length log < 2 ^ 31" and p: "p \<in> netr"
  shows "link_at m k log got (kcp_input p c s) r nets netr"
proof -
  have segs: "\<forall>seg \<in> set (segments p). ack_ok m k r seg"
    using l p by (auto simp: link_at_def on_wire_def)
  have "link_at m k log got (fold (\<lambda>seg s. process_segment seg c s) (segments p) s') r nets netr"
    if "link_at m k log got s' r nets netr" for s'
    by (rule fold_invariant [where Q = "ack_ok m k r" and P = "\<lambda>s. link_at m k log got s r nets netr"])
      (use segs that link_process_as_sender [OF _ small] in blast)+
  moreover have "link_at m k log got (s\<lparr>last_incoming := c\<rparr>) r nets netr"
    using l by (rule link_sender_cong) (simp add: half_simps)
  ultimately show ?thesis by (simp add: kcp_input_def input_loop_fold)
qed

lemma segments_ack_packet:
  assumes "ack_packet nx A p" and "seg \<in> set (segments p)"
  shows "\<exists>a. seg = SegAck a \<and> as_receiving_next a = nx \<and> set (as_numbers a) \<subseteq> A"
proof -
  obtain cv opt w ts ns where p: "p = serialize_ack cv opt w nx ts ns" "set ns \<subseteq> A" "length ns \<le> 128"
    using assms(1) unfolding ack_packet_def by blast
  have "segments p = [SegAck \<lparr>as_option = opt, as_receiving_window = w, as_receiving_next = nx,
      as_timestamp = ts, as_numbers = ns\<rparr>]"
    unfolding p(1) using p(3) by (intro segments_ack) simp
  with assms(2) p(2) show ?thesis by simp
qed

lemma segments_cmd_packet:
  assumes "cmd_packet nx p" and "seg \<in> set (segments p)"
  shows "\<exists>a. seg = SegCmd a \<and> cs_receiving_next a = nx"
  using assms unfolding cmd_packet_def by (auto simp: segments_cmd)

lemma segments_data_packet:
  assumes "data_packet W p" and "\<And>n d. (n, d) \<in> W \<Longrightarrow> length d < 65536" and "seg \<in> set (segments p)"
  shows "\<exists>a. seg = SegData a \<and> (ds_number a, ds_payload a) \<in> W"
proof -
  obtain cv opt ts n nx d where p: "(n, d) \<in> W" "p = serialize_data cv opt ts n nx d"
    using assms(1) unfolding data_packet_def by blast
  have "segments p = [SegData \<lparr>ds_option = opt, ds_timestamp = ts, ds_number = n, ds_payload = d\<rparr>]"
    unfolding p(2) using assms(2) [OF p(1)] by (rule segments_data)
  with assms(3) p(1) show ?thesis by simp
qed

lemma tx_ok_short:
  assumes "tx_ok log m s" and "(n, d) \<in> set (win s)"
  shows "length d < 65536"
proof -
  obtain i where "i < length (take m log)" "d = take m log ! i"
    using tx_ok_genuine [OF assms] by (auto simp: genuine_def)
  then have "d \<in> set log" by simp
  then show ?thesis using assms(1) by (simp add: tx_ok_def)
qed

lemma flushed_ok:
  assumes "tx_ok log m s"
  shows "\<exists>m'. m \<le> m' \<and> tx_ok log m' (flushed c s)
    \<and> (\<forall>i < m'. m \<le> i \<or> outstanding s i \<longrightarrow> outstanding (flushed c s) i)"
proof -
  have tx: "tx (flush_states c s) = tx s" by (simp add: half_simps)
  show ?thesis
    using fill_send_window_ok [of log m "flush_states c s"] assms
    unfolding flushed_def tx_ok_cong [OF tx] outstanding_cong [OF tx] by blast
qed

lemma from_flush_data_ok:
  assumes "from_flush c s p" and "tx_ok log m (flushed c s)" and "seg \<in> set (segments p)"
  shows "data_ok (take m log) seg"
  using assms(1) unfolding from_flush_def
proof (elim disjE)
  assume "data_packet (set (win (flushed c s))) p"
  then obtain a where "seg = SegData a" "(ds_number a, ds_payload a) \<in> set (win (flushed c s))"
    using segments_data_packet [OF _ _ assms(3)] tx_ok_short [OF assms(2)] by blast
  with tx_ok_genuine [OF assms(2)] show ?thesis by simp
qed (use segments_ack_packet segments_cmd_packet assms(3) in fastforce)+

lemma link_grow:
  assumes l: "link_at m k log got s r nets netr" and t: "tx_ok log m' s'" and "m \<le> m'"
    and o: "\<forall>i < m'. m \<le> i \<or> outstanding s i \<longrightarrow> outstanding s' i"
    and d: "on_wire (data_ok (take m' log)) out"
  shows "link_at m' k log got s' r (nets \<union> out) netr"
proof -
  have len: "length (take m log) = m" using link_at_D [OF l] by simp
  have "on_wire (ack_ok m' k r) netr"
    using l unfolding link_at_def
    by (elim conjE on_wire_mono) (rule ack_ok_advances [OF advances_refl len \<open>m \<le> m'\<close>])
  moreover have "on_wire (data_ok (take m' log)) nets"
    using l unfolding link_at_def
    by (elim conjE on_wire_mono) (rule data_ok_mono [OF _ \<open>m \<le> m'\<close>])
  moreover have "outstanding s' i \<or> received k r i" if "i < m'" for i
    using o that l by (cases "i < m") (auto simp: link_at_def)
  ultimately show ?thesis
    using l t d rx_ok_take_mono [OF _ \<open>m \<le> m'\<close>] by (simp add: link_at_def)
qed

lemma link_flush_as_sender:
  assumes l: "link_at m k log got s r nets netr" and f: "kcp_flush c s = (s', out)"
  shows "link log got s' r (nets \<union> set out) netr"
proof (cases "state s = Terminated")
  case True
  then have "s' = s" "out = []" using f by (simp_all add: kcp_flush_def)
  with l show ?thesis by (auto simp: link_def)
next
  case False
  have tx: "tx s' = tx (flushed c s)" using kcp_flush_ok(1) [OF f] False by blast
  obtain m' where m': "m \<le> m'" "tx_ok log m' (flushed c s)"
      "\<forall>i < m'. m \<le> i \<or> outstanding s i \<longrightarrow> outstanding (flushed c s) i"
    using flushed_ok [of log m s c] l unfolding link_at_def by blast
  have "on_wire (data_ok (take m' log)) (set out)"
    using kcp_flush_ok(3) [OF f] from_flush_data_ok [OF _ m'(2)] by (auto simp: on_wire_def)
  then show ?thesis
    using link_grow [OF l m'(2,1,3)] link_sender_cong [OF _ tx] unfolding link_def by blast
qed

section \<open>The operations as receiver\<close>

lemma link_advance:
  assumes l: "link_at m k log got s r nets netr"
    and "rx_ok (take m log) k' got' r'" and "promoted r'" and a: "advances (take m log) k r k' r'"
    and out: "on_wire (ack_ok m k' r') out"
  shows "link_at m k' log got' s r' nets (netr \<union> out)"
proof -
  have len: "length (take m log) = m" using link_at_D [OF l] by simp
  have "on_wire (ack_ok m k' r') netr"
    using l unfolding link_at_def
    by (elim conjE on_wire_mono) (rule ack_ok_advances [OF a len order_refl])
  moreover have "outstanding s i \<or> received k' r' i" if "i < m" for i
    using l a that len by (auto simp: link_at_def advances_def)
  ultimately show ?thesis
    using assms by (simp add: link_at_def)
qed

lemma on_wire_empty [simp]: "on_wire P {}"
  by (simp add: on_wire_def)

lemma link_process_as_receiver:
  assumes l: "link_at m k log got s r nets netr" and small: "length log < 2 ^ 32"
    and seg: "data_ok (take m log) seg"
  shows "\<exists>k'. link_at m k' log got s (process_segment seg c r) nets netr"
proof (cases seg)
  case (SegData d)
  have "length (take m log) < 2 ^ 32" using small by simp
  with process_data_ok [of "take m log" k got r d c] l seg
  obtain k' where "rx_ok (take m log) k' got (process_data_segment d c r)"
      "promoted (process_data_segment d c r)" "advances (take m log) k r k' (process_data_segment d c r)"
    unfolding link_at_def SegData by auto
  from link_advance [OF l this, of "{}"] show ?thesis by (auto simp: SegData)
next
  case (SegAck a)
  then show ?thesis using link_receiver_cong [OF l, of "process_segment seg c r"] by (auto simp: half_simps)
next
  case (SegCmd a)
  then show ?thesis using link_receiver_cong [OF l, of "process_segment seg c r"] by (auto simp: half_simps)
qed

lemma link_input_as_receiver:
  assumes l: "link_at m k log got s r nets netr" and small: "length log < 2 ^ 32" and p: "p \<in> nets"
  shows "\<exists>k'. link_at m k' log got s (kcp_input p c r) nets netr"
proof -
  have segs: "\<forall>seg \<in> set (segments p). data_ok (take m log) seg"
    using l p by (auto simp: link_at_def on_wire_def)
  have "\<exists>k'. link_at m k' log got s (fold (\<lambda>seg s. process_segment seg c s) (segments p) r') nets netr"
    if "link_at m k log got s r' nets netr" for r'
    by (rule fold_invariant [where Q = "data_ok (take m log)"
          and P = "\<lambda>r. \<exists>k'. link_at m k' log got s r nets netr"])
      (use segs that link_process_as_receiver [OF _ small] in blast)+
  moreover have "link_at m k log got s (r\<lparr>last_incoming := c\<rparr>) nets netr"
    using l by (rule link_receiver_cong) (simp add: half_simps)
  ultimately show ?thesis by (simp add: kcp_input_def input_loop_fold)
qed

lemma link_take:
  assumes l: "link_at m k log got s r nets netr" and t: "take_received r = (Some d, r')"
  shows "link_at m k log (got @ [d]) s r' nets netr"
proof -
  have r: "recv_ready r = d # recv_ready r'" "r' = r\<lparr>recv_ready := recv_ready r'\<rparr>"
    using t by (auto simp: take_received_def split: list.splits)
  have rcv: "received k r' = received k r" and pr: "promoted r' = promoted r"
    by (subst r(2), simp add: received_def promoted_def fun_eq_iff)+
  have "rx_ok (take m log) k (got @ [d]) r'"
    using l r(1) rcv unfolding link_at_def rx_ok_def
    by (subst (1 3 4 5) r(2)) (simp add: received_def)
  from link_advance [OF l this, of "{}"] show ?thesis
    using l rcv pr by (simp add: link_at_def advances_def)
qed

lemma link_flush_as_receiver:
  assumes l: "link_at m k log got s r nets netr" and f: "kcp_flush c r = (r', out)"
    and t: "tx_ok log' m' r"
  shows "link_at m k log got s r' nets (netr \<union> set out)"
proof -
  have rx: "recv_next_number r' = recv_next_number r" "recv_packets r' = recv_packets r"
      "recv_ready r' = recv_ready r" "set (pending_acks r') \<subseteq> set (pending_acks r)"
    using kcp_flush_ok(2) [OF f] by (auto simp: rx_def)
  have rcv: "received k r' = received k r" and pr: "promoted r' = promoted r"
    using rx by (simp_all add: received_def promoted_def fun_eq_iff)
  have ok: "rx_ok (take m log) k got r" and nx: "recv_next_number r = word_of_nat k"
    using l by (simp_all add: link_at_def rx_ok_def)
  have acks: "\<exists>i < m. pa_number a = word_of_nat i \<and> received k r i" if "a \<in> set (pending_acks r)" for a
    using ok that link_at_D [OF l] by (simp add: rx_ok_def)
  have "ack_ok m k r' seg" if p: "from_flush c r p" "seg \<in> set (segments p)" for p seg
    using p(1) unfolding from_flush_def
  proof (elim disjE)
    assume "ack_packet (recv_next_number r) (pa_number ` set (pending_acks r)) p"
    then obtain a where a: "seg = SegAck a" "as_receiving_next a = word_of_nat k"
        "set (as_numbers a) \<subseteq> pa_number ` set (pending_acks r)"
      using segments_ack_packet [OF _ p(2)] nx by metis
    have "\<exists>i < m. n = word_of_nat i \<and> received k r i" if "n \<in> set (as_numbers a)" for n
      using a(3) that acks by blast
    then show ?thesis using a(1,2) by (auto simp: rcv)
  next
    assume "data_packet (set (win (flushed c r))) p"
    moreover obtain m'' where "tx_ok log' m'' (flushed c r)" using flushed_ok [OF t] by blast
    ultimately have "\<exists>a. seg = SegData a"
      using segments_data_packet [OF _ _ p(2)] tx_ok_short by blast
    then show ?thesis by auto
  next
    assume "cmd_packet (recv_next_number r) p"
    from segments_cmd_packet [OF this p(2)] show ?thesis using nx by auto
  qed
  then have "on_wire (ack_ok m k r') (set out)"
    using kcp_flush_ok(3) [OF f] by (auto simp: on_wire_def)
  moreover have "rx_ok (take m log) k got r'"
    using ok rx rcv unfolding rx_ok_def by auto
  ultimately show ?thesis
    using link_advance [OF l] l rcv pr by (simp add: link_at_def advances_def)
qed

section \<open>Two sessions and a network\<close>

text \<open>
  The two sides are \<open>False\<close> and \<open>True\<close>. Besides its session a side remembers the chunks its
  application wrote and those its application has taken.
\<close>

record Endpoint =
  sess :: XrayKcpSession
  written :: "bytes list"
  taken :: "bytes list"

record KcpNet =
  ep :: "bool \<Rightarrow> Endpoint"
  sent :: "bool \<Rightarrow> bytes set"

definition net_new :: "(bool \<Rightarrow> SessionConfig) \<Rightarrow> KcpNet" where
  "net_new cfg = \<lparr>ep = \<lambda>d. \<lparr>sess = kcp_new (cfg d), written = [], taken = []\<rparr>, sent = \<lambda>_. {}\<rparr>"

definition at :: "bool \<Rightarrow> (Endpoint \<Rightarrow> Endpoint) \<Rightarrow> KcpNet \<Rightarrow> KcpNet" where
  "at d f w = w\<lparr>ep := (ep w)(d := f (ep w d))\<rparr>"

definition accepted :: "bytes \<Rightarrow> XrayKcpSession \<Rightarrow> bytes list" where
  "accepted data s = (if can_accept_application_data s then chunks (mss s) data else [])"

inductive kcp_reachable :: "(bool \<Rightarrow> SessionConfig) \<Rightarrow> KcpNet \<Rightarrow> bool" for cfg where
  start: "kcp_reachable cfg (net_new cfg)"
| send: "kcp_reachable cfg w \<Longrightarrow>
    kcp_reachable cfg (at d (\<lambda>e. e\<lparr>sess := enqueue_application_data data (sess e),
      written := written e @ accepted data (sess e)\<rparr>) w)"
| shut: "kcp_reachable cfg w \<Longrightarrow>
    kcp_reachable cfg (at d (\<lambda>e. e\<lparr>sess := mark_application_write_closed c (sess e)\<rparr>) w)"
| flush: "kcp_reachable cfg w \<Longrightarrow> kcp_flush c (sess (ep w d)) = (s', out) \<Longrightarrow>
    kcp_reachable cfg ((at d (\<lambda>e. e\<lparr>sess := s'\<rparr>) w)\<lparr>sent := (sent w)(d := sent w d \<union> set out)\<rparr>)"
| arrive: "kcp_reachable cfg w \<Longrightarrow> p \<in> sent w (\<not> d) \<Longrightarrow>
    kcp_reachable cfg (at d (\<lambda>e. e\<lparr>sess := kcp_input p c (sess e)\<rparr>) w)"
| take: "kcp_reachable cfg w \<Longrightarrow> take_received (sess (ep w d)) = (Some x, s') \<Longrightarrow>
    kcp_reachable cfg (at d (\<lambda>e. e\<lparr>sess := s', taken := taken e @ [x]\<rparr>) w)"

definition linked :: "KcpNet \<Rightarrow> bool \<Rightarrow> bool" where
  "linked w d = link (written (ep w d)) (taken (ep w (\<not> d))) (sess (ep w d)) (sess (ep w (\<not> d)))
     (sent w d) (sent w (\<not> d))"

definition few :: "KcpNet \<Rightarrow> bool" where
  "few w = (length (written (ep w False)) < 2 ^ 31 \<and> length (written (ep w True)) < 2 ^ 31)"

lemma few_D: "few w \<Longrightarrow> length (written (ep w d)) < 2 ^ 31"
  by (cases d) (simp_all add: few_def)

lemma side_cases: "(d :: bool) = e \<or> (\<not> d) = e"
  by blast

lemma linked_init:
  assumes "\<And>d. cfg_mtu (cfg d) < 65536"
  shows "linked (net_new cfg) d"
  unfolding linked_def link_def
proof (intro exI)
  have "mss (kcp_new (cfg d)) < 65536"
    using assms [of d] by (simp add: kcp_new_def Let_def DATA_SEGMENT_OVERHEAD_def)
  then show "link_at 0 0 (written (ep (net_new cfg) d)) (taken (ep (net_new cfg) (\<not> d))) (sess (ep (net_new cfg) d))
      (sess (ep (net_new cfg) (\<not> d))) (sent (net_new cfg) d) (sent (net_new cfg) (\<not> d))"
    by (simp add: net_new_def link_at_def tx_ok_def rx_ok_def promoted_def win_def kcp_new_def Let_def)
qed

text \<open>What one endpoint does, seen in both directions.\<close>

lemma linked_at:
  assumes "\<And>d. linked w d"
    and "\<And>m k log got r nets netr. link_at m k log got (sess (ep w d)) r nets netr \<Longrightarrow> log = written (ep w d)
      \<Longrightarrow> netr = sent w (\<not> d) \<Longrightarrow> link (written (f (ep w d))) got (sess (f (ep w d))) r nets netr"
    and "\<And>m k log got s nets netr. link_at m k log got s (sess (ep w d)) nets netr \<Longrightarrow> got = taken (ep w d)
      \<Longrightarrow> log = written (ep w (\<not> d)) \<Longrightarrow> nets = sent w (\<not> d) \<Longrightarrow> link log (taken (f (ep w d))) s (sess (f (ep w d))) nets netr"
  shows "linked (at d f w) e"
proof (cases "e = d")
  case True
  obtain m k where "link_at m k (written (ep w d)) (taken (ep w (\<not> d))) (sess (ep w d)) (sess (ep w (\<not> d)))
     (sent w d) (sent w (\<not> d))"
    using assms(1) [of d] unfolding linked_def link_def by blast
  from assms(2) [OF this refl refl] show ?thesis
    using True by (simp add: linked_def at_def)
next
  case False
  then have e: "e = (\<not> d)" by blast
  obtain m k where "link_at m k (written (ep w (\<not> d))) (taken (ep w d)) (sess (ep w (\<not> d))) (sess (ep w d))
     (sent w (\<not> d)) (sent w d)"
    using assms(1) [of "\<not> d"] unfolding linked_def link_def by auto
  from assms(3) [OF this refl refl refl] show ?thesis
    using e by (simp add: linked_def at_def)
qed

lemma linkI: "link_at m k log got s r nets netr \<Longrightarrow> link log got s r nets netr"
  by (auto simp: link_def)

lemma tx_enqueue:
  "tx (enqueue_application_data data s) =
     (pending_send_chunks s @ accepted data s, win s, next_send_number s, send_buffer_size s, mss s)"
  by (auto simp: enqueue_application_data_def accepted_def tx_def win_def chunks.simps [of _ "[]"])

lemma rx_enqueue: "rx (enqueue_application_data data s) = rx s"
  by (simp add: enqueue_application_data_def rx_def)

lemma accepted_short: "tx_ok log m s \<Longrightarrow> \<forall>c \<in> set (accepted data s). length c < 65536"
  using chunks_length [of _ "mss s" data] by (fastforce simp: accepted_def tx_ok_def)

lemma linked_write:
  assumes "\<And>d. linked w d"
  shows "linked (at d (\<lambda>e. e\<lparr>sess := enqueue_application_data data (sess e),
      written := written e @ accepted data (sess e)\<rparr>) w) e"
proof (rule linked_at [OF assms], goal_cases)
  case (1 m k log got r nets netr)
  then have "tx_ok log m (sess (ep w d))" by (simp add: link_at_def)
  from link_write [OF 1(1) tx_enqueue accepted_short [OF this]] show ?case
    using 1(2) by (auto intro: linkI)
next
  case (2 m k log got s nets netr)
  from link_receiver_cong [OF 2(1) rx_enqueue] show ?case
    using 2(2) by (auto intro: linkI)
qed

lemma linked_shut:
  assumes "\<And>d. linked w d"
  shows "linked (at d (\<lambda>e. e\<lparr>sess := mark_application_write_closed c (sess e)\<rparr>) w) e"
proof (rule linked_at [OF assms], goal_cases)
  case (1 m k log got r nets netr)
  from link_sender_cong [OF 1(1) half_mark_closed(1)] 1(2) show ?case by (auto intro: linkI)
next
  case (2 m k log got s nets netr)
  from link_receiver_cong [OF 2(1) half_mark_closed(2)] 2(2) show ?case by (auto intro: linkI)
qed

lemma linked_arrive:
  assumes "\<And>d. linked w d" and "few w" and "p \<in> sent w (\<not> d)"
  shows "linked (at d (\<lambda>e. e\<lparr>sess := kcp_input p c (sess e)\<rparr>) w) e"
proof (rule linked_at [OF assms(1)], goal_cases)
  case (1 m k log got r nets netr)
  from link_input_as_sender [OF 1(1)] 1(2,3) few_D [OF assms(2)] assms(3) show ?case
    by (auto intro: linkI)
next
  case (2 m k log got s nets netr)
  have "length log < 2 ^ 32" using few_D [OF assms(2), of "\<not> d"] 2(3) by simp
  from link_input_as_receiver [OF 2(1) this] 2(2,4) assms(3) show ?case
    by (auto intro: linkI)
qed

lemma linked_take:
  assumes "\<And>d. linked w d" and "take_received (sess (ep w d)) = (Some x, s')"
  shows "linked (at d (\<lambda>e. e\<lparr>sess := s', taken := taken e @ [x]\<rparr>) w) e"
proof (rule linked_at [OF assms(1)], goal_cases)
  case (1 m k log got r nets netr)
  have "tx s' = tx (sess (ep w d))"
    using assms(2) by (auto simp: take_received_def half_simps split: list.splits)
  from link_sender_cong [OF 1(1) this] 1(2) show ?case by (auto intro: linkI)
next
  case (2 m k log got s nets netr)
  from link_take [OF 2(1) assms(2)] 2(2) show ?case by (auto intro: linkI)
qed

lemma linked_flush:
  assumes l: "\<And>d. linked w d" and f: "kcp_flush c (sess (ep w d)) = (s', out)"
  shows "linked ((at d (\<lambda>e. e\<lparr>sess := s'\<rparr>) w)\<lparr>sent := (sent w)(d := sent w d \<union> set out)\<rparr>) e"
proof -
  obtain m k where a: "link_at m k (written (ep w d)) (taken (ep w (\<not> d))) (sess (ep w d)) (sess (ep w (\<not> d)))
     (sent w d) (sent w (\<not> d))"
    using l [of d] unfolding linked_def link_def by blast
  obtain m' k' where b: "link_at m' k' (written (ep w (\<not> d))) (taken (ep w d)) (sess (ep w (\<not> d))) (sess (ep w d))
     (sent w (\<not> d)) (sent w d)"
    using l [of "\<not> d"] unfolding linked_def link_def by auto
  have "tx_ok (written (ep w d)) m (sess (ep w d))" using a by (simp add: link_at_def)
  from link_flush_as_receiver [OF b f this] link_flush_as_sender [OF a f] show ?thesis
    by (cases "e = d") (auto simp: linked_def at_def intro: linkI)
qed

lemma few_at: "few (at d f w) \<Longrightarrow> (\<And>e. length (written e) \<le> length (written (f e))) \<Longrightarrow> few w"
  by (cases d) (auto simp: few_def at_def intro: le_less_trans)

lemma reachable_linked:
  assumes "kcp_reachable cfg w" and "\<And>d. cfg_mtu (cfg d) < 65536" and "few w"
  shows "linked w d"
  using assms(1,3)
proof (induction arbitrary: d)
  case start
  show ?case by (rule linked_init) (rule assms(2))
next
  case (send w d data)
  then have "few w" by (auto elim: few_at)
  with send.IH show ?case by (intro linked_write) blast
next
  case (shut w d c)
  then have "few w" by (auto elim: few_at)
  with shut.IH show ?case by (intro linked_shut) blast
next
  case (flush w c d s' out)
  have "few w" using flush.prems by (auto simp: few_def at_def split: if_splits)
  with flush.IH flush.hyps show ?case by (intro linked_flush) blast+
next
  case (arrive w p d c)
  then have "few w" by (auto elim: few_at)
  with arrive.IH arrive.hyps show ?case by (intro linked_arrive) blast+
next
  case (take w d x s')
  then have "few w" by (auto elim: few_at)
  with take.IH take.hyps show ?case by (intro linked_take) blast+
qed

text \<open>What the link says once the sender has nothing left.\<close>

lemma link_result:
  assumes "link log got s r nets netr" and small: "length log < 2 ^ 31"
  shows "\<exists>rest. log = got @ recv_ready r @ rest \<and> (pending_send_chunks s = [] \<and> send_window s = [] \<longrightarrow> rest = [])"
proof -
  obtain m k where l: "link_at m k log got s r nets netr" using assms(1) by (auto simp: link_def)
  note b = link_at_D [OF l]
  have g: "got @ recv_ready r = take k log" and nx: "recv_next_number r = word_of_nat k"
    using l b by (auto simp: link_at_def rx_ok_def)
  have "drop k log = []" if e: "pending_send_chunks s = []" "send_window s = []"
  proof (rule ccontr)
    assume ne: "drop k log \<noteq> []"
    have m: "m = length log" using e(1) l b by (simp add: link_at_def tx_ok_def)
    with ne have "k < m" by simp
    then have "outstanding s k \<or> received k r k" using l by (simp add: link_at_def)
    moreover have "\<not> outstanding s k" using e(2) by (simp add: outstanding_def win_def)
    moreover have "\<not> received k r k" using l nx by (simp add: link_at_def promoted_def received_def)
    ultimately show False by blast
  qed
  moreover have "log = got @ recv_ready r @ drop k log"
    using g by (metis append_assoc append_take_drop_id)
  ultimately show ?thesis by blast
qed

text \<open>
  C15: mKCP is reliable and ordered. Two sessions run against each other over a network that may
  lose, duplicate, reorder and delay packets, with any interleaving of writes, flushes, arrivals,
  reads and closings at any times. As long as each side has written fewer than two to the 31st chunks,
  what one side has handed to its application is an initial part of what the other wrote, and once the
  writer has nothing pending and an empty send window, it is everything.
\<close>

theorem kcp_reliable:
  assumes "kcp_reachable cfg w" and "\<And>d. cfg_mtu (cfg d) < 65536"
    and "length (written (ep w False)) < 2 ^ 31" and "length (written (ep w True)) < 2 ^ 31"
  shows "\<exists>rest. written (ep w d) = taken (ep w (\<not> d)) @ recv_ready (sess (ep w (\<not> d))) @ rest
    \<and> (pending_send_chunks (sess (ep w d)) = [] \<and> send_window (sess (ep w d)) = [] \<longrightarrow> rest = [])"
proof -
  have few: "few w" using assms(3,4) by (simp add: few_def)
  from reachable_linked [OF assms(1,2) few, of d] show ?thesis
    unfolding linked_def by (rule link_result) (rule few_D [OF few])
qed

text \<open>A run: one side writes three bytes and flushes, the packet arrives, the other side takes them.\<close>

definition sample_config :: SessionConfig where
  "sample_config = \<lparr>cfg_conv = 7, cfg_mtu = 40, cfg_tti = 10, cfg_uplink_capacity = 1,
     cfg_downlink_capacity = 1, cfg_write_buffer_size = 80, cfg_packet_overhead = 6\<rparr>"

definition sample_sender :: XrayKcpSession where
  "sample_sender = enqueue_application_data [1, 2, 3] (kcp_new sample_config)"

definition sample_packet :: bytes where
  "sample_packet = hd (snd (kcp_flush 10 sample_sender))"

definition sample_receiver :: XrayKcpSession where
  "sample_receiver = kcp_input sample_packet 20 (kcp_new sample_config)"

lemma sample_run:
  "\<exists>w. kcp_reachable (\<lambda>_. sample_config) w \<and> written (ep w False) = [[1, 2, 3]]
     \<and> written (ep w True) = [] \<and> taken (ep w True) = [[1, 2, 3]]"
proof -
  let ?cfg = "\<lambda>_. sample_config"
  have acc: "accepted [1, 2, 3] (kcp_new sample_config) = [[1, 2, 3]]" by code_simp
  have ne: "snd (kcp_flush 10 sample_sender) \<noteq> []" by code_simp
  have rcv: "fst (take_received sample_receiver) = Some [1, 2, 3]" by code_simp
  obtain s2 out where fl: "kcp_flush 10 sample_sender = (s2, out)" by fastforce
  obtain r2 where tk: "take_received sample_receiver = (Some [1, 2, 3], r2)"
    using rcv by (cases "take_received sample_receiver") simp
  have p: "sample_packet \<in> set out" using ne fl by (simp add: sample_packet_def)
  let ?w1 = "at False (\<lambda>e. e\<lparr>sess := enqueue_application_data [1, 2, 3] (sess e),
      written := written e @ accepted [1, 2, 3] (sess e)\<rparr>) (net_new ?cfg)"
  let ?w2 = "(at False (\<lambda>e. e\<lparr>sess := s2\<rparr>) ?w1)\<lparr>sent := (sent ?w1)(False := sent ?w1 False \<union> set out)\<rparr>"
  let ?w3 = "at True (\<lambda>e. e\<lparr>sess := kcp_input sample_packet 20 (sess e)\<rparr>) ?w2"
  let ?w4 = "at True (\<lambda>e. e\<lparr>sess := r2, taken := taken e @ [[1, 2, 3]]\<rparr>) ?w3"
  have "kcp_reachable ?cfg ?w1" by (intro kcp_reachable.send kcp_reachable.start)
  then have "kcp_reachable ?cfg ?w2"
    by (rule kcp_reachable.flush) (use fl in \<open>simp add: at_def net_new_def sample_sender_def\<close>)
  then have "kcp_reachable ?cfg ?w3"
    by (rule kcp_reachable.arrive) (simp add: p)
  then have r: "kcp_reachable ?cfg ?w4"
    by (rule kcp_reachable.take) (use tk in \<open>simp add: at_def net_new_def sample_receiver_def\<close>)
  show ?thesis
  proof (intro exI conjI)
    show "kcp_reachable ?cfg ?w4" by (rule r)
  qed (simp_all add: at_def net_new_def acc)
qed

theorem kcp_reliable_witness:
  "\<exists>(w :: KcpNet) rest. written (ep w False) = [[1, 2, 3]] \<and> taken (ep w True) = [[1, 2, 3]]
     \<and> written (ep w False) = taken (ep w True) @ recv_ready (sess (ep w True)) @ rest"
proof -
  obtain w where w: "kcp_reachable (\<lambda>_. sample_config) w" "written (ep w False) = [[1, 2, 3]]"
      "written (ep w True) = []" "taken (ep w True) = [[1, 2, 3]]"
    using sample_run by blast
  have "cfg_mtu sample_config < 65536" by (simp add: sample_config_def)
  then obtain rest where
    "written (ep w False) = taken (ep w (\<not> False)) @ recv_ready (sess (ep w (\<not> False))) @ rest"
    using kcp_reliable [OF w(1), of False] w by auto
  with w(2,4) show ?thesis unfolding not_False_eq_True by blast
qed

end
