(* ===== verification/Kcp_Endpoint.thy ===== *)
theory Kcp_Endpoint
  imports Kcp_Network
begin

text \<open>
  The UDP side of mKCP, \<open>handler/kcp.rs\<close>: the configuration, the receive loop that finds or creates
  the session of a datagram, the periodic update of every session and the byte stream handed to the
  VLESS handler. A clock reading is a number of milliseconds; a channel is the list of what is queued
  in it. SHA-256 and AES-GCM are arguments.
\<close>

section \<open>Configuration\<close>

record KcpServerConfig =
  kc_mtu :: "nat option"
  kc_tti :: "u32 option"
  kc_uplink_capacity :: "nat option"
  kc_downlink_capacity :: "nat option"
  kc_read_buffer_size :: "nat option"
  kc_write_buffer_size :: "nat option"
  kc_seed :: "bytes option"

record KcpConfig =
  kcp_mtu :: nat
  kcp_tti :: u32
  kcp_uplink_capacity :: nat
  kcp_downlink_capacity :: nat
  kcp_read_buffer_size :: nat
  kcp_write_buffer_size :: nat
  kcp_packet_mask :: KcpPacketMask

datatype kcp_config_error = MtuOutOfRange nat | TtiOutOfRange u32

definition unwrap_or :: "'a option \<Rightarrow> 'a \<Rightarrow> 'a" where
  "unwrap_or x d = (case x of None \<Rightarrow> d | Some v \<Rightarrow> v)"

definition parse_kcp_config :: "(bytes \<Rightarrow> bytes) \<Rightarrow> KcpServerConfig \<Rightarrow> kcp_config_error + KcpConfig" where
  "parse_kcp_config sha256 kc =
     (let mtu = unwrap_or (kc_mtu kc) 1350 in
      if \<not> (576 \<le> mtu \<and> mtu \<le> 1460) then Inl (MtuOutOfRange mtu)
      else let tti = unwrap_or (kc_tti kc) 50 in
        if \<not> (10 \<le> tti \<and> tti \<le> 100) then Inl (TtiOutOfRange tti)
        else let mask = (case kc_seed kc of
                           Some seed \<Rightarrow> if seed \<noteq> [] then MaskAes128Gcm (take 16 (sha256 seed)) else MaskOriginal
                         | None \<Rightarrow> MaskOriginal)
          in Inr \<lparr>kcp_mtu = mtu, kcp_tti = tti,
               kcp_uplink_capacity = unwrap_or (kc_uplink_capacity kc) 5,
               kcp_downlink_capacity = unwrap_or (kc_downlink_capacity kc) 20,
               kcp_read_buffer_size = unwrap_or (kc_read_buffer_size kc) (2 * 1024 * 1024),
               kcp_write_buffer_size = unwrap_or (kc_write_buffer_size kc) (2 * 1024 * 1024),
               kcp_packet_mask = mask\<rparr>)"

section \<open>Sessions of the endpoint\<close>

record KcpSession =
  engine :: XrayKcpSession
  incoming :: "bytes list"
  vless_outgoing :: "bytes list"
  vless_closed :: bool
  udp_out :: "bytes list"
  started_at :: nat
  last_update :: nat

definition KcpSession_new :: "u16 \<Rightarrow> KcpConfig \<Rightarrow> nat \<Rightarrow> KcpSession" where
  "KcpSession_new cv config now =
     \<lparr>engine = kcp_new \<lparr>cfg_conv = cv, cfg_mtu = kcp_mtu config, cfg_tti = kcp_tti config,
        cfg_uplink_capacity = kcp_uplink_capacity config,
        cfg_downlink_capacity = kcp_downlink_capacity config,
        cfg_write_buffer_size = kcp_write_buffer_size config,
        cfg_packet_overhead = mask_overhead (kcp_packet_mask config)\<rparr>,
      incoming = [], vless_outgoing = [], vless_closed = False, udp_out = [],
      started_at = now, last_update = now\<rparr>"

definition current_ms :: "nat \<Rightarrow> KcpSession \<Rightarrow> u32" where
  "current_ms now s = word_of_nat (now - started_at s)"

text \<open>\<open>while let Some(frame) = engine.take_received() { incoming_tx.send(frame) }\<close>\<close>

function drain_received :: "KcpSession \<Rightarrow> KcpSession" where
  "drain_received s =
     (case take_received (engine s) of
        (None, _) \<Rightarrow> s
      | (Some frame, e) \<Rightarrow> drain_received (s\<lparr>engine := e, incoming := incoming s @ [frame]\<rparr>))"
  by pat_completeness auto
termination
  by (relation "measure (\<lambda>s. length (recv_ready (engine s)))")
    (auto simp: take_received_def split: list.splits)

declare drain_received.simps [simp del]

record KcpShared =
  sessions :: "bytes \<times> u16 \<Rightarrow> KcpSession option"
  shared_config :: KcpConfig

text \<open>One datagram of the receive loop, the peer's address given as an opaque byte string.\<close>

definition session_recv :: "KcpConfig \<Rightarrow> u16 \<Rightarrow> nat \<Rightarrow> bytes \<Rightarrow> KcpSession option \<Rightarrow> KcpSession" where
  "session_recv config cv now data so =
     (let s = (case so of Some s \<Rightarrow> s\<lparr>last_update := now\<rparr> | None \<Rightarrow> KcpSession_new cv config now)
      in drain_received (s\<lparr>engine := kcp_input data (current_ms now s) (engine s)\<rparr>))"

definition endpoint_recv ::
  "(bytes \<Rightarrow> bytes \<Rightarrow> bytes \<Rightarrow> bytes \<Rightarrow> bytes option) \<Rightarrow> nat \<times> bytes \<times> bytes \<Rightarrow> KcpShared \<Rightarrow> KcpShared" where
  "endpoint_recv unseal datagram sh =
     (case datagram of (now, src, packet) \<Rightarrow>
       (case mask_unwrap unseal (kcp_packet_mask (shared_config sh)) packet of
          None \<Rightarrow> sh
        | Some data \<Rightarrow>
            (case peek_conv data of
               None \<Rightarrow> sh
             | Some cv \<Rightarrow> sh\<lparr>sessions := (sessions sh)((src, cv) \<mapsto>
                 session_recv (shared_config sh) cv now data (sessions sh (src, cv)))\<rparr>)))"

text \<open>
  One session's turn in the update loop at time \<open>now\<close>; the liveness test reads the clock again, at
  \<open>later_now\<close>. The result says whether the session is to be removed.
\<close>

fun drain_outgoing :: "bytes list \<Rightarrow> XrayKcpSession \<Rightarrow> XrayKcpSession" where
  "drain_outgoing [] e = e"
| "drain_outgoing (d # ds) e = drain_outgoing ds (enqueue_application_data d e)"

definition update_session :: "nat \<Rightarrow> nat \<Rightarrow> KcpSession \<Rightarrow> KcpSession \<times> bool" where
  "update_session now later_now s =
     (let current = current_ms now s;
          e = drain_outgoing (vless_outgoing s) (engine s);
          e = (if vless_closed s then mark_application_write_closed current e else e);
          (e, packets) = kcp_flush current e;
          s = drain_received (s\<lparr>engine := e, vless_outgoing := [], udp_out := udp_out s @ packets\<rparr>);
          s = s\<lparr>last_update := now\<rparr>
      in (s, state (engine s) = Terminated \<or> later_now - last_update s > 30000))"

definition update_tick :: "nat \<Rightarrow> nat \<Rightarrow> KcpShared \<Rightarrow> KcpShared" where
  "update_tick now later_now sh =
     sh\<lparr>sessions := (\<lambda>key. case sessions sh key of
          None \<Rightarrow> None
        | Some s \<Rightarrow> (case update_session now later_now s of (s', gone) \<Rightarrow> if gone then None else Some s'))\<rparr>"

section \<open>The byte stream over a session\<close>

record KcpRelayStream =
  rs_queue :: "bytes list"
  rs_disconnected :: bool
  rs_pending :: bytes
  rs_eof :: bool
  rs_vless_tx :: "bytes list"
  rs_receiver_gone :: bool

definition relay_stream_new :: KcpRelayStream where
  "relay_stream_new = \<lparr>rs_queue = [], rs_disconnected = False, rs_pending = [], rs_eof = False,
     rs_vless_tx = [], rs_receiver_gone = False\<rparr>"

definition relay_read :: "nat \<Rightarrow> KcpRelayStream \<Rightarrow> (io_error + bytes) \<times> KcpRelayStream" where
  "relay_read n s =
     (if rs_pending s \<noteq> [] then
        (let k = min (length (rs_pending s)) n
         in (Inr (take k (rs_pending s)), s\<lparr>rs_pending := drop k (rs_pending s)\<rparr>))
      else if rs_eof s then (Inr [], s)
      else case rs_queue s of
        data # queue \<Rightarrow>
          if length data \<le> n then (Inr data, s\<lparr>rs_queue := queue\<rparr>)
          else (Inr (take n data), s\<lparr>rs_queue := queue, rs_pending := drop n data\<rparr>)
      | [] \<Rightarrow> if rs_disconnected s then (Inr [], s\<lparr>rs_eof := True\<rparr>) else (Inl WouldBlock, s))"

text \<open>The channel to the session holds eight writes; \<open>OtherIo\<close> is \<open>BrokenPipe\<close>.\<close>

definition relay_write :: "bytes \<Rightarrow> KcpRelayStream \<Rightarrow> (io_error + nat) \<times> KcpRelayStream" where
  "relay_write buf s =
     (if rs_eof s then (Inl OtherIo, s)
      else if rs_receiver_gone s then (Inl OtherIo, s)
      else if length (rs_vless_tx s) < 8
      then (Inr (length buf), s\<lparr>rs_vless_tx := rs_vless_tx s @ [buf]\<rparr>)
      else (Inl WouldBlock, s))"

section \<open>Properties\<close>

lemma parse_kcp_config_ok:
  "parse_kcp_config sha256 kc = Inr c \<Longrightarrow>
     576 \<le> kcp_mtu c \<and> kcp_mtu c \<le> 1460 \<and> 10 \<le> kcp_tti c \<and> kcp_tti c \<le> 100"
  by (auto simp: parse_kcp_config_def Let_def split: if_splits)

lemma drain_received_eq:
  "drain_received s = s\<lparr>engine := (engine s)\<lparr>recv_ready := []\<rparr>, incoming := incoming s @ recv_ready (engine s)\<rparr>"
proof (induction s rule: drain_received.induct)
  case (1 s)
  show ?case
  proof (cases "recv_ready (engine s)")
    case Nil
    then show ?thesis by (subst drain_received.simps) (simp add: take_received_def)
  next
    case (Cons d ds)
    then have "drain_received s = drain_received (s\<lparr>engine := (engine s)\<lparr>recv_ready := ds\<rparr>, incoming := incoming s @ [d]\<rparr>)"
      by (subst drain_received.simps) (simp add: take_received_def)
    also have "\<dots> = s\<lparr>engine := (engine s)\<lparr>recv_ready := []\<rparr>, incoming := incoming s @ recv_ready (engine s)\<rparr>"
      using 1 [of "Some d" "(engine s)\<lparr>recv_ready := ds\<rparr>" d] Cons
      by (simp add: take_received_def)
    finally show ?thesis .
  qed
qed

text \<open>
  The datagrams that belong to a session: those from its address whose unmasked contents start with
  its conversation number.
\<close>

definition belongs ::
  "(bytes \<Rightarrow> bytes \<Rightarrow> bytes \<Rightarrow> bytes \<Rightarrow> bytes option) \<Rightarrow> KcpConfig \<Rightarrow> bytes \<times> u16 \<Rightarrow> nat \<times> bytes \<times> bytes \<Rightarrow> (nat \<times> bytes) option" where
  "belongs unseal config key datagram =
     (case datagram of (now, src, packet) \<Rightarrow>
       (case mask_unwrap unseal (kcp_packet_mask config) packet of
          None \<Rightarrow> None
        | Some data \<Rightarrow> if peek_conv data = Some (snd key) \<and> src = fst key then Some (now, data) else None))"

fun session_run :: "KcpConfig \<Rightarrow> u16 \<Rightarrow> (nat \<times> bytes) list \<Rightarrow> KcpSession option \<Rightarrow> KcpSession option" where
  "session_run config cv [] so = so"
| "session_run config cv ((now, data) # ds) so = session_run config cv ds (Some (session_recv config cv now data so))"

lemma shared_config_recv [simp]: "shared_config (endpoint_recv unseal g sh) = shared_config sh"
  by (simp add: endpoint_recv_def split: prod.split option.split)

lemma endpoint_recv_session:
  "sessions (endpoint_recv unseal g sh) key =
     (case belongs unseal (shared_config sh) key g of
        None \<Rightarrow> sessions sh key
      | Some (now, data) \<Rightarrow> Some (session_recv (shared_config sh) (snd key) now data (sessions sh key)))"
  by (cases key) (auto simp: endpoint_recv_def belongs_def split: prod.split option.split)

text \<open>
  C24: the endpoint demultiplexes. Over any sequence of datagrams from any peers, the session of an
  address and conversation number ends in the state it would have reached alone, fed with exactly the
  datagrams from that address that unmask to that conversation, in the order they came; datagrams
  that do not unmask, and those of others, leave it untouched.
\<close>

theorem kcp_endpoint_demultiplexes:
  "sessions (fold (endpoint_recv unseal) gs sh) key =
     session_run (shared_config sh) (snd key) (List.map_filter (belongs unseal (shared_config sh) key) gs)
       (sessions sh key)"
  by (induction gs arbitrary: sh)
    (simp_all add: endpoint_recv_session map_filter_simps split: option.split prod.split)

text \<open>An idle session is never removed: the update loop resets the time it then compares with.\<close>

lemma update_session_never_idle:
  assumes "later_now - now \<le> 30000"
  shows "snd (update_session now later_now s) \<longleftrightarrow> state (engine (fst (update_session now later_now s))) = Terminated"
  using assms by (simp add: update_session_def Let_def split_def)

text \<open>What is still to be read from a relay stream.\<close>

definition unread :: "KcpRelayStream \<Rightarrow> bytes" where
  "unread s = rs_pending s @ concat (rs_queue s)"

lemma relay_read_ok:
  assumes "relay_read n s = (Inr out, s')" and "\<not> rs_eof s"
  shows "unread s = out @ unread s'"
  using assms
  by (auto simp: relay_read_def unread_def Let_def split: if_splits list.splits)

text \<open>
  An empty data segment ends the stream. When a frame with no bytes is next, reading returns
  zero bytes, which every caller takes for the end of the stream, while the channel is open and holds
  data.
\<close>

theorem kcp_empty_frame_is_eof:
  assumes "rs_queue s = [] # data # queue" and "rs_pending s = []" and "\<not> rs_eof s"
  shows "fst (relay_read n s) = Inr [] \<and> unread (snd (relay_read n s)) = data @ concat queue
    \<and> \<not> rs_eof (snd (relay_read n s))"
  using assms by (simp add: relay_read_def unread_def)

theorem kcp_empty_frame_is_eof_witness:
  "fst (relay_read 10 (relay_stream_new\<lparr>rs_queue := [[], [1, 2]]\<rparr>)) = Inr []"
  using kcp_empty_frame_is_eof [of "relay_stream_new\<lparr>rs_queue := [[], [1, 2]]\<rparr>" "[1, 2]" "[]" 10]
  by (simp add: relay_stream_new_def)

end
