(* ===== verification/Shadowsocks.thy ===== *)
theory Shadowsocks
  imports Protocol Rust_Str Tape
begin

unbundle bit_operations_syntax

text \<open>
  \<open>crates/shadowsocks/src/lib.rs\<close>: methods, configuration, address headers, key derivation, the AEAD
  state with its counting nonce, and the headers of the 2022 edition. Hash functions, ciphers and
  base64 are fields of a record that every definition takes; the wall clock is an argument (\<open>None\<close> is
  a clock before the epoch), and so are random bytes.
\<close>

type_synonym u128 = "128 word"

section \<open>Methods and errors\<close>

datatype Method =
    Aes128Gcm | Aes256Gcm | ChaCha20IetfPoly1305 | Aead2022Blake3Aes128Gcm | Aead2022Blake3Aes256Gcm

datatype ShadowsocksError =
    UnsupportedMethod rstr
  | UnsupportedUdpMethod rstr
  | InvalidKey
  | InvalidKeyLength nat nat
  | InvalidSaltLength nat nat
  | InvalidSaltPrefixLength nat nat
  | SaltPrefixUnsupportedForMethod rstr
  | KeyDerivation
  | SsEncrypt
  | SsDecrypt
  | InvalidChunkLength nat
  | ChunkTooLarge nat
  | ShortAddress
  | InvalidAddressType u8
  | InvalidAddress
  | InvalidHeader
  | InvalidTimestamp
  | ReplayDetected
  | MissingRequestSalt
  | ShortUdpPacket
  | SsIo io_error

definition method_parse :: "rstr \<Rightarrow> ShadowsocksError + Method" where
  "method_parse name =
     (let n = to_ascii_lowercase (trim name) in
      if n = str ''aes-128-gcm'' \<or> n = str ''aead_aes_128_gcm'' then Inr Aes128Gcm
      else if n = str ''aes-256-gcm'' \<or> n = str ''aead_aes_256_gcm'' then Inr Aes256Gcm
      else if n = str ''chacha20-ietf-poly1305'' \<or> n = str ''aead_chacha20_poly1305'' then Inr ChaCha20IetfPoly1305
      else if n = str ''2022-blake3-aes-128-gcm'' then Inr Aead2022Blake3Aes128Gcm
      else if n = str ''2022-blake3-aes-256-gcm'' then Inr Aead2022Blake3Aes256Gcm
      else Inl (UnsupportedMethod n))"

fun key_len :: "Method \<Rightarrow> nat" where
  "key_len Aes128Gcm = 16"
| "key_len Aead2022Blake3Aes128Gcm = 16"
| "key_len Aes256Gcm = 32"
| "key_len ChaCha20IetfPoly1305 = 32"
| "key_len Aead2022Blake3Aes256Gcm = 32"

definition salt_len :: "Method \<Rightarrow> nat" where
  "salt_len m = key_len m"

fun method_name :: "Method \<Rightarrow> rstr" where
  "method_name Aes128Gcm = str ''aes-128-gcm''"
| "method_name Aes256Gcm = str ''aes-256-gcm''"
| "method_name ChaCha20IetfPoly1305 = str ''chacha20-ietf-poly1305''"
| "method_name Aead2022Blake3Aes128Gcm = str ''2022-blake3-aes-128-gcm''"
| "method_name Aead2022Blake3Aes256Gcm = str ''2022-blake3-aes-256-gcm''"

definition is_aead_2022 :: "Method \<Rightarrow> bool" where
  "is_aead_2022 m = (m = Aead2022Blake3Aes128Gcm \<or> m = Aead2022Blake3Aes256Gcm)"

definition MAX_CHUNK_LEN :: nat where "MAX_CHUNK_LEN = 0x3fff"
definition MAX_2022_CHUNK_LEN :: nat where "MAX_2022_CHUNK_LEN = 0xffff"
definition TAG_LEN :: nat where "TAG_LEN = 16"
definition LEN_SIZE :: nat where "LEN_SIZE = 2"
definition AEAD_2022_REQUEST_FIXED_HEADER_LEN :: nat where "AEAD_2022_REQUEST_FIXED_HEADER_LEN = 11"
definition AEAD_2022_MAX_TIME_DIFF_SECS :: u64 where "AEAD_2022_MAX_TIME_DIFF_SECS = 30"

definition max_chunk_len :: "Method \<Rightarrow> nat" where
  "max_chunk_len m = (if is_aead_2022 m then MAX_2022_CHUNK_LEN else MAX_CHUNK_LEN)"

section \<open>Third-party functions\<close>

datatype AeadKind = KindAes128 | KindAes256 | KindChaCha

record SsCrypto =
  c_md5 :: "bytes \<Rightarrow> bytes"
  c_b64_standard :: "rstr \<Rightarrow> bytes option"
  c_b64_standard_no_pad :: "rstr \<Rightarrow> bytes option"
  c_b64_url_safe :: "rstr \<Rightarrow> bytes option"
  c_b64_url_safe_no_pad :: "rstr \<Rightarrow> bytes option"
  c_hkdf_sha1 :: "bytes \<Rightarrow> bytes \<Rightarrow> bytes \<Rightarrow> nat \<Rightarrow> bytes option"
  c_blake3_derive_key :: "bytes \<Rightarrow> bytes \<Rightarrow> bytes"
  c_block_encrypt :: "bytes \<Rightarrow> bytes \<Rightarrow> bytes"
  c_block_decrypt :: "bytes \<Rightarrow> bytes \<Rightarrow> bytes"
  c_seal :: "AeadKind \<Rightarrow> bytes \<Rightarrow> bytes \<Rightarrow> bytes \<Rightarrow> bytes option"
  c_open :: "AeadKind \<Rightarrow> bytes \<Rightarrow> bytes \<Rightarrow> bytes \<Rightarrow> bytes option"

text \<open>What an authenticated cipher and a block cipher promise.\<close>

definition aead_laws :: "SsCrypto \<Rightarrow> bool" where
  "aead_laws C \<longleftrightarrow> (\<forall>k key nonce p c. c_seal C k key nonce p = Some c \<longrightarrow>
     length c = length p + TAG_LEN \<and> c_open C k key nonce c = Some p)"

definition block_laws :: "SsCrypto \<Rightarrow> bool" where
  "block_laws C \<longleftrightarrow> (\<forall>key b. length b = 16 \<longrightarrow>
     length (c_block_encrypt C key b) = 16 \<and> c_block_decrypt C key (c_block_encrypt C key b) = b)"

section \<open>Configuration and keys\<close>

record SsServerConfig =
  ss_method :: Method
  ss_password :: rstr
  ss_tcp_prefix :: bytes
  ss_udp_prefix :: bytes

definition validate_salt_prefix :: "Method \<Rightarrow> bytes \<Rightarrow> ShadowsocksError + unit" where
  "validate_salt_prefix m prefix =
     (if is_aead_2022 m \<and> prefix \<noteq> [] then Inl (SaltPrefixUnsupportedForMethod (method_name m))
      else if length prefix > 16 \<or> length prefix > salt_len m
      then Inl (InvalidSaltPrefixLength (min 16 (salt_len m)) (length prefix))
      else Inr ())"

text \<open>\<open>rnd\<close> is what the random source writes into the salt buffer.\<close>

definition random_salt :: "bytes \<Rightarrow> Method \<Rightarrow> bytes \<Rightarrow> ShadowsocksError + bytes" where
  "random_salt rnd m prefix =
     bindr (validate_salt_prefix m prefix) (\<lambda>_.
       Inr (prefix @ drop (length prefix) (take (salt_len m) (rnd @ replicate (salt_len m) 0))))"

definition decode_aead_2022_psk :: "SsCrypto \<Rightarrow> rstr \<Rightarrow> Method \<Rightarrow> ShadowsocksError + bytes" where
  "decode_aead_2022_psk C password m =
     (let p = trim password;
          decoded = (case c_b64_standard C p of Some d \<Rightarrow> Some d | None \<Rightarrow>
                    (case c_b64_standard_no_pad C p of Some d \<Rightarrow> Some d | None \<Rightarrow>
                    (case c_b64_url_safe C p of Some d \<Rightarrow> Some d | None \<Rightarrow> c_b64_url_safe_no_pad C p)))
      in case decoded of
           None \<Rightarrow> Inl InvalidKey
         | Some d \<Rightarrow> if length d \<noteq> key_len m then Inl (InvalidKeyLength (key_len m) (length d)) else Inr d)"

definition validate_aead_2022_psk :: "SsCrypto \<Rightarrow> rstr \<Rightarrow> Method \<Rightarrow> ShadowsocksError + unit" where
  "validate_aead_2022_psk C password m = bindr (decode_aead_2022_psk C password m) (\<lambda>_. Inr ())"

definition new_with_prefixes ::
  "SsCrypto \<Rightarrow> rstr \<Rightarrow> rstr \<Rightarrow> bytes \<Rightarrow> bytes \<Rightarrow> ShadowsocksError + SsServerConfig" where
  "new_with_prefixes C method password tcp_prefix udp_prefix =
     bindr (method_parse method) (\<lambda>m.
     bindr (validate_salt_prefix m tcp_prefix) (\<lambda>_.
     bindr (validate_salt_prefix m udp_prefix) (\<lambda>_.
     bindr (if is_aead_2022 m then validate_aead_2022_psk C password m else Inr ()) (\<lambda>_.
       Inr \<lparr>ss_method = m, ss_password = password, ss_tcp_prefix = tcp_prefix, ss_udp_prefix = udp_prefix\<rparr>))))"

text \<open>The digest of MD5 is sixteen bytes by its type.\<close>

definition digest16 :: "SsCrypto \<Rightarrow> bytes \<Rightarrow> bytes" where
  "digest16 C bs = take 16 (c_md5 C bs @ replicate 16 0)"

lemma length_digest16 [simp]: "length (digest16 C bs) = 16"
  by (simp add: digest16_def)

function evp_loop :: "SsCrypto \<Rightarrow> bytes \<Rightarrow> nat \<Rightarrow> bytes \<Rightarrow> bytes \<Rightarrow> bytes" where
  "evp_loop C password n key previous =
     (if length key < n then
        let previous' = digest16 C (previous @ password)
        in evp_loop C password n (key @ previous') previous'
      else take n key)"
  by pat_completeness auto
termination
  by (relation "measure (\<lambda>(C, p, n, key, prev). n - length key)") auto

declare evp_loop.simps [simp del]

definition evp_bytes_to_key :: "SsCrypto \<Rightarrow> bytes \<Rightarrow> nat \<Rightarrow> bytes" where
  "evp_bytes_to_key C password n = evp_loop C password n [] []"

definition master_key :: "SsCrypto \<Rightarrow> SsServerConfig \<Rightarrow> ShadowsocksError + bytes" where
  "master_key C cfg =
     (if is_aead_2022 (ss_method cfg) then decode_aead_2022_psk C (ss_password cfg) (ss_method cfg)
      else Inr (evp_bytes_to_key C (ss_password cfg) (key_len (ss_method cfg))))"

definition AEAD_2022_INFO :: rstr where "AEAD_2022_INFO = str ''shadowsocks 2022 session subkey''"
definition SS_INFO :: bytes where "SS_INFO = str ''ss-subkey''"

definition derive_aead_2022_subkey :: "SsCrypto \<Rightarrow> Method \<Rightarrow> bytes \<Rightarrow> bytes \<Rightarrow> bytes" where
  "derive_aead_2022_subkey C m key salt = take (key_len m) (c_blake3_derive_key C AEAD_2022_INFO (key @ salt))"

section \<open>The AEAD state\<close>

record CryptoState =
  cs_kind :: AeadKind
  cs_key :: bytes
  cs_nonce :: bytes

fun cipher_kind :: "Method \<Rightarrow> AeadKind" where
  "cipher_kind Aes128Gcm = KindAes128"
| "cipher_kind Aead2022Blake3Aes128Gcm = KindAes128"
| "cipher_kind Aes256Gcm = KindAes256"
| "cipher_kind Aead2022Blake3Aes256Gcm = KindAes256"
| "cipher_kind ChaCha20IetfPoly1305 = KindChaCha"

definition CryptoState_new :: "SsCrypto \<Rightarrow> Method \<Rightarrow> bytes \<Rightarrow> bytes \<Rightarrow> ShadowsocksError + CryptoState" where
  "CryptoState_new C m key salt =
     (if length salt \<noteq> salt_len m then Inl (InvalidSaltLength (salt_len m) (length salt))
      else bindr (if is_aead_2022 m then Inr (derive_aead_2022_subkey C m key salt)
                  else ok_or KeyDerivation (c_hkdf_sha1 C salt key SS_INFO (key_len m)))
        (\<lambda>subkey. Inr \<lparr>cs_kind = cipher_kind m, cs_key = subkey, cs_nonce = replicate 12 0\<rparr>))"

text \<open>The nonce is a little-endian counter.\<close>

fun le_incr :: "bytes \<Rightarrow> bytes" where
  "le_incr [] = []"
| "le_incr (b # bs) = (if b + 1 \<noteq> 0 then (b + 1) # bs else (b + 1) # le_incr bs)"

definition next_nonce :: "CryptoState \<Rightarrow> bytes \<times> CryptoState" where
  "next_nonce st = (cs_nonce st, st\<lparr>cs_nonce := le_incr (cs_nonce st)\<rparr>)"

definition ss_seal :: "SsCrypto \<Rightarrow> bytes \<Rightarrow> CryptoState \<Rightarrow> (ShadowsocksError + bytes) \<times> CryptoState" where
  "ss_seal C plaintext st =
     (case next_nonce st of (nonce, st') \<Rightarrow>
        (ok_or SsEncrypt (c_seal C (cs_kind st) (cs_key st) nonce plaintext), st'))"

definition ss_open :: "SsCrypto \<Rightarrow> bytes \<Rightarrow> CryptoState \<Rightarrow> (ShadowsocksError + bytes) \<times> CryptoState" where
  "ss_open C ciphertext st =
     (case next_nonce st of (nonce, st') \<Rightarrow>
        (ok_or SsDecrypt (c_open C (cs_kind st) (cs_key st) nonce ciphertext), st'))"

section \<open>Address headers\<close>

definition parse_request_header :: "bytes \<Rightarrow> ShadowsocksError + Address \<times> Port \<times> nat" where
  "parse_request_header data =
     (if data = [] then Inl ShortAddress
      else let atyp = hd data in
        if atyp = 0x01 then
          (if length data < 1 + 4 + 2 then Inl ShortAddress
           else Inr (IPv4 (take 4 (drop 1 data)), Port (u16_of_be (take 2 (drop 5 data))), 7))
        else if atyp = 0x03 then
          (if length data < 2 then Inl ShortAddress
           else let end = 2 + unat (data ! 1) in
             if length data < end + 2 then Inl ShortAddress
             else case from_utf8 (drop 2 (take end data)) of
                    None \<Rightarrow> Inl InvalidAddress
                  | Some domain \<Rightarrow> Inr (Domain domain, Port (u16_of_be (take 2 (drop end data))), end + 2))
        else if atyp = 0x04 then
          (if length data < 1 + 16 + 2 then Inl ShortAddress
           else Inr (IPv6 (take 16 (drop 1 data)), Port (u16_of_be (take 2 (drop 17 data))), 19))
        else Inl (InvalidAddressType atyp))"

fun write_request_header :: "Address \<Rightarrow> Port \<Rightarrow> bytes" where
  "write_request_header (IPv4 octets) (Port p) = 0x01 # octets @ u16_be p"
| "write_request_header (Domain d) (Port p) = [0x03, word_of_nat (length d)] @ d @ u16_be p"
| "write_request_header (IPv6 octets) (Port p) = 0x04 # octets @ u16_be p"

section \<open>Headers of the 2022 edition\<close>

definition validate_timestamp :: "u64 option \<Rightarrow> u64 \<Rightarrow> ShadowsocksError + unit" where
  "validate_timestamp now timestamp =
     bindr (ok_or InvalidTimestamp now) (\<lambda>n.
       let diff = (if n < timestamp then timestamp - n else n - timestamp) in
       if diff > AEAD_2022_MAX_TIME_DIFF_SECS then Inl InvalidTimestamp else Inr ())"

definition parse_aead_2022_request_fixed_header :: "u64 option \<Rightarrow> bytes \<Rightarrow> ShadowsocksError + nat" where
  "parse_aead_2022_request_fixed_header now data =
     (if length data \<noteq> AEAD_2022_REQUEST_FIXED_HEADER_LEN then Inl InvalidHeader
      else if data ! 0 \<noteq> 0 then Inl InvalidHeader
      else bindr (validate_timestamp now (u64_of_be (take 8 (drop 1 data)))) (\<lambda>_.
        Inr (unat (u16_of_be (take 2 (drop 9 data))))))"

definition encode_aead_2022_request_fixed_header :: "u64 option \<Rightarrow> nat \<Rightarrow> ShadowsocksError + bytes" where
  "encode_aead_2022_request_fixed_header now n =
     (if n > 65535 then Inl (ChunkTooLarge n)
      else bindr (ok_or InvalidTimestamp now) (\<lambda>t. Inr ([0] @ u64_be t @ u16_be (word_of_nat n))))"

definition encode_aead_2022_request_variable_header ::
  "u8 \<Rightarrow> Address \<Rightarrow> Port \<Rightarrow> bytes \<Rightarrow> ShadowsocksError + bytes" where
  "encode_aead_2022_request_variable_header pad a p initial =
     (let out = write_request_header a p
          @ (if initial = [] then u16_be 1 @ [pad] else u16_be 0 @ initial)
      in if length out > 65535 then Inl (ChunkTooLarge (length out)) else Inr out)"

definition decode_aead_2022_request_variable_header :: "bytes \<Rightarrow> ShadowsocksError + bytes" where
  "decode_aead_2022_request_variable_header data =
     bindr (parse_request_header data) (\<lambda>(_, _, consumed).
       if length data < consumed + 2 then Inl InvalidHeader
       else let padding_len = unat (u16_of_be (take 2 (drop consumed data)));
                payload_start = consumed + 2 + padding_len in
         if length data < payload_start then Inl InvalidHeader
         else let initial = drop payload_start data in
           if padding_len = 0 \<and> initial = [] then Inl InvalidHeader
           else Inr (take consumed data @ initial))"

definition aead_2022_response_fixed_header_len :: "Method \<Rightarrow> nat" where
  "aead_2022_response_fixed_header_len m = 1 + 8 + salt_len m + 2"

definition parse_aead_2022_response_fixed_header ::
  "u64 option \<Rightarrow> bytes \<Rightarrow> Method \<Rightarrow> bytes \<Rightarrow> ShadowsocksError + nat" where
  "parse_aead_2022_response_fixed_header now data m request_salt =
     (if length data \<noteq> aead_2022_response_fixed_header_len m then Inl InvalidHeader
      else if data ! 0 \<noteq> 1 then Inl InvalidHeader
      else bindr (validate_timestamp now (u64_of_be (take 8 (drop 1 data)))) (\<lambda>_.
        if drop 9 (take (9 + salt_len m) data) \<noteq> request_salt then Inl InvalidHeader
        else Inr (unat (u16_of_be (take 2 (drop (9 + salt_len m) data))))))"

definition encode_aead_2022_response_fixed_header :: "u64 option \<Rightarrow> bytes \<Rightarrow> nat \<Rightarrow> ShadowsocksError + bytes" where
  "encode_aead_2022_response_fixed_header now request_salt n =
     (if n > 65535 then Inl (ChunkTooLarge n)
      else bindr (ok_or InvalidTimestamp now) (\<lambda>t. Inr ([1] @ u64_be t @ request_salt @ u16_be (word_of_nat n))))"

section \<open>Address headers round-trip\<close>

lemma parse_request_header_write:
  assumes "wire_address a"
  shows "parse_request_header (write_request_header a p @ rest) = Inr (a, p, length (write_request_header a p))"
  using assms
  by (cases a; cases p)
    (auto simp: parse_request_header_def wire_address_def from_utf8_def unat_of_nat_u8 Let_def)

lemma parse_request_header_sound:
  assumes "parse_request_header data = Inr (a, p, n)"
  shows "wire_address a \<and> data = write_request_header a p @ drop n data \<and> n = length (write_request_header a p)"
proof -
  obtain t ds where d: "data = t # ds"
    using assms by (cases data) (auto simp: parse_request_header_def)
  consider "t = 1" | "t = 3" | "t = 4"
    using assms by (auto simp: parse_request_header_def d split: if_splits)
  then show ?thesis
  proof cases
    case 1
    with assms have l: "6 \<le> length ds" and r: "a = IPv4 (take 4 ds)" "p = Port (u16_of_be (take 2 (drop 4 ds)))" "n = 7"
      by (auto simp: parse_request_header_def d split: if_splits)
    have "ds = take 4 ds @ take 2 (drop 4 ds) @ drop 6 ds"
      using append_take_drop_id [of 4 ds] append_take_drop_id [of 2 "drop 4 ds"] by simp
    with l r 1 d show ?thesis by (simp add: wire_address_def u16_be_of_be)
  next
    case 3
    with assms have l: "18 \<le> length ds" and r: "a = IPv6 (take 16 ds)" "p = Port (u16_of_be (take 2 (drop 16 ds)))" "n = 19"
      by (auto simp: parse_request_header_def d split: if_splits)
    have "ds = take 16 ds @ take 2 (drop 16 ds) @ drop 18 ds"
      using append_take_drop_id [of 16 ds] append_take_drop_id [of 2 "drop 16 ds"] by simp
    with l r 3 d show ?thesis by (simp add: wire_address_def u16_be_of_be)
  next
    case 2
    with assms obtain l ds' where ds: "ds = l # ds'"
      by (cases ds) (auto simp: parse_request_header_def d)
    let ?n = "unat l"
    from assms 2 have len: "?n + 2 \<le> length ds'" and r: "a = Domain (take ?n ds')" "p = Port (u16_of_be (take 2 (drop ?n ds')))"
        "n = ?n + 4" and u: "utf8_valid (take ?n ds')"
      by (auto simp: parse_request_header_def d ds from_utf8_def Let_def split: if_splits option.splits)
    have "ds' = take ?n ds' @ take 2 (drop ?n ds') @ drop (?n + 2) ds'"
      using append_take_drop_id [of ?n ds'] append_take_drop_id [of 2 "drop ?n ds'"] by (simp add: add.commute)
    moreover have "drop (?n + 4) (t # l # ds') = drop (?n + 2) ds'" by (simp add: eval_nat_numeral)
    ultimately show ?thesis
      using len r u 2 d ds unat_u8_less [of l] by (simp add: wire_address_def u16_be_of_be)
  qed
qed

text \<open>
  The Shadowsocks address header is canonical. Parsing accepts exactly the byte strings that
  start with what the writer produces for an address that fits the format, and reports that address,
  its port and the number of bytes the header takes.
\<close>

theorem ss_request_header_iff:
  "parse_request_header data = Inr (a, p, n) \<longleftrightarrow>
     wire_address a \<and> n = length (write_request_header a p) \<and> (\<exists>rest. data = write_request_header a p @ rest)"
  using parse_request_header_write [of a p] parse_request_header_sound [of data a p n] by auto

section \<open>Nonces\<close>

fun from_le :: "bytes \<Rightarrow> nat" where
  "from_le [] = 0"
| "from_le (b # bs) = unat b + 256 * from_le bs"

lemma length_le_incr [simp]: "length (le_incr bs) = length bs"
  by (induction bs) auto

lemma from_le_less: "from_le bs < 256 ^ length bs"
proof (induction bs)
  case (Cons b bs)
  have "from_le (b # bs) < 256 + 256 * from_le bs" using unat_u8_less [of b] by simp
  also have "\<dots> \<le> 256 * 256 ^ length bs" using Cons by simp
  finally show ?case by simp
qed simp

lemma incr_u8_0_iff: "(b + 1 :: u8) = 0 \<longleftrightarrow> unat b = 255"
proof -
  have "b + 1 = 0 \<longleftrightarrow> b = 255"
  proof
    assume "b + 1 = 0"
    then have "b = - 1" by (simp only: eq_neg_iff_add_eq_0)
    then show "b = 255" by simp
  qed simp
  also have "\<dots> \<longleftrightarrow> unat b = unat (255 :: u8)" by (simp only: word_unat_eq_iff)
  also have "unat (255 :: u8) = 255" by simp
  finally show ?thesis .
qed

lemma unat_incr_u8: "b + 1 \<noteq> 0 \<Longrightarrow> unat (b + 1 :: u8) = unat b + 1"
proof -
  assume "b + 1 \<noteq> 0"
  then have "unat b \<noteq> 255" by (subst (asm) incr_u8_0_iff)
  then have "unat b + 1 < 256" using unat_u8_less [of b] by linarith
  then have "(unat b + 1) mod 256 = unat b + 1" by (rule mod_less)
  then show ?thesis by (simp add: unat_word_ariths)
qed

lemma from_le_incr: "from_le (le_incr bs) = (from_le bs + 1) mod 256 ^ length bs"
proof (induction bs)
  case (Cons b bs)
  show ?case
  proof (cases "b + 1 = 0")
    case True
    then have "unat b = 255" by (subst (asm) incr_u8_0_iff)
    then show ?thesis
      using True Cons by (simp add: mult_mod_right)
  next
    case False
    then have "from_le (le_incr (b # bs)) = from_le (b # bs) + 1" by (simp add: unat_incr_u8)
    moreover have "from_le (le_incr (b # bs)) < 256 ^ length (b # bs)"
      using from_le_less [of "le_incr (b # bs)"] by (simp only: length_le_incr)
    ultimately show ?thesis by simp
  qed
qed simp

lemma from_le_iterate:
  "from_le ((le_incr ^^ i) bs) = (from_le bs + i) mod 256 ^ length bs"
proof (induction i)
  case 0
  show ?case using from_le_less [of bs] by simp
next
  case (Suc i)
  have "length ((le_incr ^^ i) bs) = length bs" by (induction i) simp_all
  then show ?case using Suc by (simp add: from_le_incr mod_simps)
qed

lemma from_le_zeros [simp]: "from_le (replicate n 0) = 0"
  by (induction n) simp_all

lemma nonces_iterate: "fst (next_nonce (((\<lambda>s. snd (next_nonce s)) ^^ i) st)) = (le_incr ^^ i) (cs_nonce st)"
proof -
  have "cs_nonce (((\<lambda>s. snd (next_nonce s)) ^^ i) st) = (le_incr ^^ i) (cs_nonce st)"
    by (induction i) (simp_all add: next_nonce_def)
  then show ?thesis by (simp add: next_nonce_def)
qed

text \<open>
  C21: nonces are not reused. In the sequence of seal and open operations of one key, no two of the
  first two to the 96th use the same nonce, although the counter wraps byte by byte.
\<close>

theorem ss_nonces_distinct:
  assumes "CryptoState_new C m key salt = Inr st" and "i < 2 ^ 96" and "j < 2 ^ 96" and "i \<noteq> j"
  shows "fst (next_nonce (((\<lambda>s. snd (next_nonce s)) ^^ i) st)) \<noteq> fst (next_nonce (((\<lambda>s. snd (next_nonce s)) ^^ j) st))"
proof -
  have z: "cs_nonce st = replicate 12 0"
    using assms(1) by (auto simp: CryptoState_new_def bindr_eq_Inr_iff split: if_splits)
  have "from_le ((le_incr ^^ n) (replicate 12 0)) = n" if "n < 2 ^ 96" for n
    using that by (simp only: from_le_iterate from_le_zeros length_replicate) simp
  with assms(2-4) show ?thesis
    unfolding nonces_iterate z by metis
qed

section \<open>Clocks\<close>

definition clocks_agree :: "u64 \<Rightarrow> u64 \<Rightarrow> bool" where
  "clocks_agree a b = ((if a < b then b - a else a - b) \<le> AEAD_2022_MAX_TIME_DIFF_SECS)"

lemma validate_timestamp_ok: "clocks_agree tr tw \<Longrightarrow> validate_timestamp (Some tr) tw = Inr ()"
  by (simp add: validate_timestamp_def clocks_agree_def Let_def not_less)

text \<open>An instance of the third-party functions that satisfies the laws.\<close>

definition sample_crypto :: SsCrypto where
  "sample_crypto = \<lparr>c_md5 = \<lambda>_. replicate 16 7, c_b64_standard = \<lambda>_. None, c_b64_standard_no_pad = \<lambda>_. None,
     c_b64_url_safe = \<lambda>_. None, c_b64_url_safe_no_pad = \<lambda>_. Some (replicate 16 5),
     c_hkdf_sha1 = \<lambda>salt key info n. Some (take n (salt @ key)), c_blake3_derive_key = \<lambda>info km. km,
     c_block_encrypt = \<lambda>key b. rev b, c_block_decrypt = \<lambda>key b. rev b,
     c_seal = \<lambda>k key nonce p. Some (p @ replicate 16 0),
     c_open = \<lambda>k key nonce c. if length c < 16 then None else Some (take (length c - 16) c)\<rparr>"

lemma sample_crypto_laws: "aead_laws sample_crypto" "block_laws sample_crypto"
  by (simp_all add: aead_laws_def block_laws_def sample_crypto_def TAG_LEN_def)

theorem ss_nonces_distinct_witness:
  "fst (next_nonce (((\<lambda>s. snd (next_nonce s)) ^^ 5) \<lparr>cs_kind = KindAes128, cs_key = replicate 16 3, cs_nonce = replicate 12 0\<rparr>))
   \<noteq> fst (next_nonce (((\<lambda>s. snd (next_nonce s)) ^^ 300) \<lparr>cs_kind = KindAes128, cs_key = replicate 16 3, cs_nonce = replicate 12 0\<rparr>))"
proof (rule ss_nonces_distinct)
  show "CryptoState_new sample_crypto Aes128Gcm (replicate 16 7) (replicate 16 3)
    = Inr \<lparr>cs_kind = KindAes128, cs_key = replicate 16 3, cs_nonce = replicate 12 0\<rparr>"
    by code_simp
qed simp_all

end
