(* ===== verification/Ss_Stream.thy ===== *)
theory Ss_Stream
  imports Shadowsocks
begin

text \<open>
  Shadowsocks over TCP (\<open>crates/shadowsocks/src/lib.rs\<close>): \<open>ShadowsocksReader\<close> on a tape,
  \<open>ShadowsocksWriter\<close> on a sink that takes every byte, and the cache of salts that keeps a 2022
  request from being replayed. An \<open>Instant\<close> is an integer number of nanoseconds.
\<close>

section \<open>The salt cache\<close>

type_synonym replay_cache = "(int \<times> bytes) list"

definition AEAD_2022_REPLAY_WINDOW :: int where "AEAD_2022_REPLAY_WINDOW = 60 * 1000000000"

definition check_and_store_replay_salt ::
  "Method \<Rightarrow> int \<Rightarrow> bytes \<Rightarrow> replay_cache \<Rightarrow> (ShadowsocksError + unit) \<times> replay_cache" where
  "check_and_store_replay_salt m now salt cache =
     (if \<not> is_aead_2022 m then (Inr (), cache)
      else let cache = dropWhile (\<lambda>(seen, _). now - seen > AEAD_2022_REPLAY_WINDOW) cache in
        if list_ex (\<lambda>(_, cached). cached = salt) cache then (Inl ReplayDetected, cache)
        else (Inr (), cache @ [(now, salt)]))"

section \<open>The reader\<close>

record SsReader =
  r_inner :: tape
  r_crypto :: CryptoState
  r_method :: Method
  r_pending :: "bytes list"
  r_request_salt :: "bytes option"

text \<open>Read \<open>n\<close> bytes and their tag, and open them.\<close>

definition read_sealed :: "SsCrypto \<Rightarrow> nat \<Rightarrow> CryptoState \<Rightarrow> (ShadowsocksError, bytes \<times> CryptoState) reads" where
  "read_sealed C n st =
     bindT (read_exactT SsIo (n + TAG_LEN)) (\<lambda>c.
       case ss_open C c st of (Inl e, _) \<Rightarrow> errT e | (Inr p, st') \<Rightarrow> retT (p, st'))"

definition reader_fixed_header ::
  "SsCrypto \<Rightarrow> u64 option \<Rightarrow> CryptoState \<Rightarrow> (ShadowsocksError, nat \<times> CryptoState) reads" where
  "reader_fixed_header C now st =
     bindT (read_sealed C AEAD_2022_REQUEST_FIXED_HEADER_LEN st) (\<lambda>(h, st').
       bindT (liftT (parse_aead_2022_request_fixed_header now h)) (\<lambda>n. retT (n, st')))"

definition reader_variable_header ::
  "SsCrypto \<Rightarrow> nat \<Rightarrow> CryptoState \<Rightarrow> (ShadowsocksError, bytes \<times> CryptoState) reads" where
  "reader_variable_header C n st =
     bindT (read_sealed C n st) (\<lambda>(h, st').
       bindT (liftT (decode_aead_2022_request_variable_header h)) (\<lambda>c. retT (c, st')))"

definition reader_new_with_salt ::
  "SsCrypto \<Rightarrow> u64 option \<Rightarrow> int \<Rightarrow> SsServerConfig \<Rightarrow> replay_cache \<Rightarrow> bytes \<Rightarrow> tape
     \<Rightarrow> (ShadowsocksError + SsReader) \<times> replay_cache" where
  "reader_new_with_salt C now instant cfg cache salt t =
     (case bindr (master_key C cfg) (\<lambda>key. CryptoState_new C (ss_method cfg) key salt) of
        Inl e \<Rightarrow> (Inl e, cache)
      | Inr st \<Rightarrow>
          if \<not> is_aead_2022 (ss_method cfg) then
            (Inr \<lparr>r_inner = t, r_crypto = st, r_method = ss_method cfg, r_pending = [], r_request_salt = None\<rparr>, cache)
          else
            (case reader_fixed_header C now st t of
               (Inl e, _) \<Rightarrow> (Inl e, cache)
             | (Inr (n, st1), t1) \<Rightarrow>
                 (case check_and_store_replay_salt (ss_method cfg) instant salt cache of
                    (Inl e, cache') \<Rightarrow> (Inl e, cache')
                  | (Inr _, cache') \<Rightarrow>
                      (case reader_variable_header C n st1 t1 of
                         (Inl e, _) \<Rightarrow> (Inl e, cache')
                       | (Inr (first_chunk, st2), t2) \<Rightarrow>
                           (Inr \<lparr>r_inner = t2, r_crypto = st2, r_method = ss_method cfg,
                              r_pending = [first_chunk], r_request_salt = Some salt\<rparr>, cache')))))"

definition reader_new ::
  "SsCrypto \<Rightarrow> u64 option \<Rightarrow> int \<Rightarrow> SsServerConfig \<Rightarrow> replay_cache \<Rightarrow> tape
     \<Rightarrow> (ShadowsocksError + SsReader) \<times> replay_cache" where
  "reader_new C now instant cfg cache t =
     (case read_exactT SsIo (salt_len (ss_method cfg)) t of
        (Inl e, _) \<Rightarrow> (Inl e, cache)
      | (Inr salt, t1) \<Rightarrow> reader_new_with_salt C now instant cfg cache salt t1)"

definition reader_new_response ::
  "SsCrypto \<Rightarrow> u64 option \<Rightarrow> int \<Rightarrow> SsServerConfig \<Rightarrow> replay_cache \<Rightarrow> bytes option \<Rightarrow> tape
     \<Rightarrow> (ShadowsocksError + SsReader) \<times> replay_cache" where
  "reader_new_response C now instant cfg cache request_salt t =
     (let m = ss_method cfg in
      if \<not> is_aead_2022 m then reader_new C now instant cfg cache t
      else case request_salt of
        None \<Rightarrow> (Inl MissingRequestSalt, cache)
      | Some rs \<Rightarrow>
          if length rs \<noteq> salt_len m then (Inl (InvalidSaltLength (salt_len m) (length rs)), cache)
          else (fst (bindT (read_exactT SsIo (salt_len m)) (\<lambda>salt.
             bindT (liftT (bindr (master_key C cfg) (\<lambda>key. CryptoState_new C m key salt))) (\<lambda>st.
             bindT (read_sealed C (aead_2022_response_fixed_header_len m) st) (\<lambda>(h, st1).
             bindT (liftT (parse_aead_2022_response_fixed_header now h m rs)) (\<lambda>n.
             bindT (read_sealed C n st1) (\<lambda>(payload, st2) t2.
               (Inr \<lparr>r_inner = t2, r_crypto = st2, r_method = m, r_pending = [payload], r_request_salt = None\<rparr>, t2))))))
             t), cache))"

definition ss_read_chunk :: "SsCrypto \<Rightarrow> SsReader \<Rightarrow> (ShadowsocksError + bytes) \<times> SsReader" where
  "ss_read_chunk C r =
     (case r_pending r of
        c # cs \<Rightarrow> (Inr c, r\<lparr>r_pending := cs\<rparr>)
      | [] \<Rightarrow>
          (case read_sealed C LEN_SIZE (r_crypto r) (r_inner r) of
             (Inl e, t) \<Rightarrow> (Inl e, r\<lparr>r_inner := t\<rparr>)
           | (Inr (len_plain, st1), t1) \<Rightarrow>
               if length len_plain \<noteq> LEN_SIZE then
                 (Inl (InvalidChunkLength (length len_plain)), r\<lparr>r_inner := t1, r_crypto := st1\<rparr>)
               else let len = unat (u16_of_be len_plain) in
                 if len > max_chunk_len (r_method r) then
                   (Inl (ChunkTooLarge len), r\<lparr>r_inner := t1, r_crypto := st1\<rparr>)
                 else case read_sealed C len st1 t1 of
                   (Inl e, t2) \<Rightarrow> (Inl e, r\<lparr>r_inner := t2, r_crypto := st1\<rparr>)
                 | (Inr (p, st2), t2) \<Rightarrow> (Inr p, r\<lparr>r_inner := t2, r_crypto := st2\<rparr>)))"

text \<open>All chunks of a stream, and the error that ends it.\<close>

lemma read_sealed_iff:
  "read_sealed C n st t = (Inr (p, st'), t') \<longleftrightarrow>
     (\<exists>c. read_exactT SsIo (n + TAG_LEN) t = (Inr c, t') \<and> ss_open C c st = (Inr p, st'))"
proof -
  have "(case ss_open C c st of (Inl e, _) \<Rightarrow> errT e | (Inr p, st') \<Rightarrow> retT (p, st')) t1 = (Inr (p, st'), t')
    \<longleftrightarrow> ss_open C c st = (Inr p, st') \<and> t1 = t'" for c t1
    by (cases "ss_open C c st"; cases "fst (ss_open C c st)") auto
  then show ?thesis by (auto simp: read_sealed_def bindT_eq_Inr_iff)
qed

lemma read_sealed_shrinks: "read_sealed C n st t = (Inr (p, st'), t') \<Longrightarrow> length t' < length t"
  by (auto simp: read_sealed_iff TAG_LEN_def dest!: read_exactT_shrinks)

lemma ss_read_chunk_shrinks:
  assumes "ss_read_chunk C r = (Inr c, r')"
  shows "length (r_pending r') + length (r_inner r') < length (r_pending r) + length (r_inner r)"
  using assms
  by (auto simp: ss_read_chunk_def Let_def split: list.splits sum.splits prod.splits if_splits
      dest!: read_sealed_shrinks)

function read_all :: "SsCrypto \<Rightarrow> SsReader \<Rightarrow> bytes list \<times> ShadowsocksError" where
  "read_all C r =
     (case ss_read_chunk C r of
        (Inl e, _) \<Rightarrow> ([], e)
      | (Inr c, r') \<Rightarrow> (case read_all C r' of (cs, e) \<Rightarrow> (c # cs, e)))"
  by pat_completeness auto
termination
  by (relation "measure (\<lambda>(C, r). length (r_pending r) + length (r_inner r))")
    (auto dest!: ss_read_chunk_shrinks [OF sym])

declare read_all.simps [simp del]

section \<open>The writer\<close>

record SsWriter =
  w_out :: bytes
  w_crypto :: CryptoState
  w_method :: Method
  w_response_header :: "(bytes \<times> bytes) option"

definition writer_new_with_salt :: "SsCrypto \<Rightarrow> SsServerConfig \<Rightarrow> bytes \<Rightarrow> ShadowsocksError + SsWriter" where
  "writer_new_with_salt C cfg salt =
     (let m = ss_method cfg in
      if is_aead_2022 m then Inl MissingRequestSalt
      else if length salt \<noteq> salt_len m then Inl (InvalidSaltLength (salt_len m) (length salt))
      else bindr (bindr (master_key C cfg) (\<lambda>key. CryptoState_new C m key salt)) (\<lambda>st.
        Inr \<lparr>w_out = salt, w_crypto = st, w_method = m, w_response_header = None\<rparr>))"

definition writer_new_response_with_salt ::
  "SsCrypto \<Rightarrow> SsServerConfig \<Rightarrow> bytes option \<Rightarrow> bytes \<Rightarrow> ShadowsocksError + SsWriter" where
  "writer_new_response_with_salt C cfg request_salt salt =
     (let m = ss_method cfg in
      if \<not> is_aead_2022 m then writer_new_with_salt C cfg salt
      else case request_salt of
        None \<Rightarrow> Inl MissingRequestSalt
      | Some rs \<Rightarrow>
          if length rs \<noteq> salt_len m then Inl (InvalidSaltLength (salt_len m) (length rs))
          else if length salt \<noteq> salt_len m then Inl (InvalidSaltLength (salt_len m) (length salt))
          else bindr (bindr (master_key C cfg) (\<lambda>key. CryptoState_new C m key salt)) (\<lambda>st.
            Inr \<lparr>w_out = [], w_crypto = st, w_method = m, w_response_header = Some (salt, rs)\<rparr>))"

text \<open>Seal and write.\<close>

definition write_sealed :: "SsCrypto \<Rightarrow> bytes \<Rightarrow> SsWriter \<Rightarrow> (ShadowsocksError + unit) \<times> SsWriter" where
  "write_sealed C p w =
     (case ss_seal C p (w_crypto w) of
        (Inl e, st) \<Rightarrow> (Inl e, w\<lparr>w_crypto := st\<rparr>)
      | (Inr c, st) \<Rightarrow> (Inr (), w\<lparr>w_crypto := st, w_out := w_out w @ c\<rparr>))"

definition write_one :: "SsCrypto \<Rightarrow> u64 option \<Rightarrow> bytes \<Rightarrow> SsWriter \<Rightarrow> (ShadowsocksError + unit) \<times> SsWriter" where
  "write_one C now payload w =
     (case w_response_header w of
        Some (salt, rs) \<Rightarrow>
          (let w = w\<lparr>w_response_header := None, w_out := w_out w @ salt\<rparr> in
           case encode_aead_2022_response_fixed_header now rs (length payload) of
             Inl e \<Rightarrow> (Inl e, w)
           | Inr h \<Rightarrow>
               (case write_sealed C h w of
                  (Inl e, w) \<Rightarrow> (Inl e, w)
                | (Inr _, w) \<Rightarrow> write_sealed C payload w))
      | None \<Rightarrow>
          (case ss_seal C (u16_be (word_of_nat (length payload))) (w_crypto w) of
             (Inl e, st) \<Rightarrow> (Inl e, w\<lparr>w_crypto := st\<rparr>)
           | (Inr l, st1) \<Rightarrow>
               (case ss_seal C payload st1 of
                  (Inl e, st2) \<Rightarrow> (Inl e, w\<lparr>w_crypto := st2\<rparr>)
                | (Inr c, st2) \<Rightarrow> (Inr (), w\<lparr>w_crypto := st2, w_out := w_out w @ l @ c\<rparr>))))"

fun write_each :: "SsCrypto \<Rightarrow> u64 option \<Rightarrow> bytes list \<Rightarrow> SsWriter \<Rightarrow> (ShadowsocksError + unit) \<times> SsWriter" where
  "write_each C now [] w = (Inr (), w)"
| "write_each C now (c # cs) w =
     (case write_one C now c w of (Inl e, w) \<Rightarrow> (Inl e, w) | (Inr _, w) \<Rightarrow> write_each C now cs w)"

text \<open>A payload above the limit is cut; the pieces are within it, so the inner calls do not cut again.\<close>

definition write_chunk :: "SsCrypto \<Rightarrow> u64 option \<Rightarrow> bytes \<Rightarrow> SsWriter \<Rightarrow> (ShadowsocksError + unit) \<times> SsWriter" where
  "write_chunk C now payload w =
     (if length payload > max_chunk_len (w_method w)
      then write_each C now (chunks (max_chunk_len (w_method w)) payload) w
      else write_one C now payload w)"

definition writer_new_request_with_salt ::
  "SsCrypto \<Rightarrow> u64 option \<Rightarrow> u8 \<Rightarrow> SsServerConfig \<Rightarrow> Address \<Rightarrow> Port \<Rightarrow> bytes \<Rightarrow> bytes
     \<Rightarrow> ShadowsocksError + SsWriter \<times> bytes" where
  "writer_new_request_with_salt C now pad cfg a p initial salt =
     (let m = ss_method cfg in
      if \<not> is_aead_2022 m then
        bindr (writer_new_with_salt C cfg salt) (\<lambda>w.
          case write_chunk C now (write_request_header a p @ initial) w of
            (Inl e, _) \<Rightarrow> Inl e
          | (Inr _, w) \<Rightarrow> Inr (w, []))
      else if length salt \<noteq> salt_len m then Inl (InvalidSaltLength (salt_len m) (length salt))
      else
        bindr (bindr (master_key C cfg) (\<lambda>key. CryptoState_new C m key salt)) (\<lambda>st.
        bindr (encode_aead_2022_request_variable_header pad a p initial) (\<lambda>vh.
        bindr (encode_aead_2022_request_fixed_header now (length vh)) (\<lambda>fh.
          case write_sealed C fh \<lparr>w_out = salt, w_crypto = st, w_method = m, w_response_header = None\<rparr> of
            (Inl e, _) \<Rightarrow> Inl e
          | (Inr _, w) \<Rightarrow>
              (case write_sealed C vh w of
                 (Inl e, _) \<Rightarrow> Inl e
               | (Inr _, w) \<Rightarrow> Inr (w, salt))))))"

fun write_chunks :: "SsCrypto \<Rightarrow> u64 option \<Rightarrow> bytes list \<Rightarrow> SsWriter \<Rightarrow> (ShadowsocksError + unit) \<times> SsWriter" where
  "write_chunks C now [] w = (Inr (), w)"
| "write_chunks C now (p # ps) w =
     (case write_chunk C now p w of (Inl e, w) \<Rightarrow> (Inl e, w) | (Inr _, w) \<Rightarrow> write_chunks C now ps w)"

section \<open>What is written is read\<close>

lemma seal_open:
  assumes "aead_laws C" and "ss_seal C p st = (Inr c, st')"
  shows "length c = length p + TAG_LEN" and "ss_open C c st = (Inr p, st')"
proof -
  have c: "c_seal C (cs_kind st) (cs_key st) (cs_nonce st) p = Some c" and st': "st' = snd (next_nonce st)"
    using assms(2) by (auto simp: ss_seal_def next_nonce_def)
  have "length c = length p + TAG_LEN \<and> c_open C (cs_kind st) (cs_key st) (cs_nonce st) c = Some p"
    using assms(1) c unfolding aead_laws_def by blast
  then show "length c = length p + TAG_LEN" and "ss_open C c st = (Inr p, st')"
    by (simp_all add: ss_open_def st' next_nonce_def)
qed

lemma read_sealed_bytes:
  assumes "aead_laws C" and "ss_seal C p st = (Inr c, st')"
  shows "read_sealed C (length p) st (bytesT c @ t) = (Inr (p, st'), t)"
  using seal_open [OF assms] by (simp add: read_sealed_iff)

text \<open>
  \<open>carries C m st bs ps st'\<close>: the bytes \<open>bs\<close> hold the chunks \<open>ps\<close>, sealed from state \<open>st\<close> on,
  which becomes \<open>st'\<close>.
\<close>

inductive carries :: "SsCrypto \<Rightarrow> Method \<Rightarrow> CryptoState \<Rightarrow> bytes \<Rightarrow> bytes list \<Rightarrow> CryptoState \<Rightarrow> bool"
  for C m where
  carries_Nil: "carries C m st [] [] st"
| carries_Cons: "ss_seal C (u16_be (word_of_nat (length p))) st = (Inr l, st1) \<Longrightarrow> ss_seal C p st1 = (Inr c, st2)
    \<Longrightarrow> length p \<le> max_chunk_len m \<Longrightarrow> carries C m st2 bs ps st' \<Longrightarrow> carries C m st (l @ c @ bs) (p # ps) st'"

lemma carries_append:
  "carries C m st bs ps st1 \<Longrightarrow> carries C m st1 bs' ps' st' \<Longrightarrow> carries C m st (bs @ bs') (ps @ ps') st'"
  by (induction rule: carries.induct) (auto intro: carries.intros)

lemma max_chunk_len_less: "max_chunk_len m < 65536" "0 < max_chunk_len m"
  by (simp_all add: max_chunk_len_def MAX_CHUNK_LEN_def MAX_2022_CHUNK_LEN_def)

lemma ss_read_chunk_one:
  assumes C: "aead_laws C" and l: "ss_seal C (u16_be (word_of_nat (length p))) (r_crypto r) = (Inr l, st1)"
    and c: "ss_seal C p st1 = (Inr c, st2)" and "length p \<le> max_chunk_len (r_method r)"
    and "r_pending r = []" and "r_inner r = bytesT (l @ c) @ t"
  shows "ss_read_chunk C r = (Inr p, r\<lparr>r_inner := t, r_crypto := st2\<rparr>)"
proof -
  have len: "length p < 65536" using assms(4) max_chunk_len_less(1) [of "r_method r"] by simp
  have "read_sealed C LEN_SIZE (r_crypto r) (bytesT l @ bytesT c @ t)
      = (Inr (u16_be (word_of_nat (length p)), st1), bytesT c @ t)"
    using read_sealed_bytes [OF C l] by (simp add: LEN_SIZE_def)
  then show ?thesis
    using assms(4-6) read_sealed_bytes [OF C c] len
    by (simp add: ss_read_chunk_def Let_def LEN_SIZE_def unat_of_nat)
qed

lemma read_all_carries:
  assumes "carries C m st bs ps st'" and C: "aead_laws C"
    and "r_inner r = bytesT bs" and "r_crypto r = st" and "r_method r = m" and "r_pending r = []"
  shows "read_all C r = (ps, SsIo UnexpectedEof)"
  using assms
proof (induction arbitrary: r rule: carries.induct)
  case (carries_Nil st)
  then have "ss_read_chunk C r = (Inl (SsIo UnexpectedEof), r)"
    by (simp add: ss_read_chunk_def read_sealed_def bindT_def LEN_SIZE_def TAG_LEN_def numeral_eq_Suc)
  then show ?case by (simp add: read_all.simps [of C r])
next
  case (carries_Cons p st l st1 c st2 bs ps st')
  let ?r = "r\<lparr>r_inner := bytesT bs, r_crypto := st2\<rparr>"
  have "ss_read_chunk C r = (Inr p, ?r)"
    using carries_Cons by (intro ss_read_chunk_one) auto
  moreover have "read_all C ?r = (ps, SsIo UnexpectedEof)"
    using carries_Cons by (intro carries_Cons.IH) auto
  ultimately show ?case by (simp add: read_all.simps [of C r])
qed

lemma read_all_pending:
  assumes "r_pending r = [p]" and "read_all C (r\<lparr>r_pending := []\<rparr>) = (ps, e)"
  shows "read_all C r = (p # ps, e)"
  using assms by (subst read_all.simps) (simp add: ss_read_chunk_def)

lemma write_one_carries:
  assumes "write_one C now p w = (Inr (), w')" and "w_response_header w = None"
    and "length p \<le> max_chunk_len (w_method w)"
  shows "\<exists>bs. w_out w' = w_out w @ bs \<and> carries C (w_method w) (w_crypto w) bs [p] (w_crypto w')
    \<and> w_method w' = w_method w \<and> w_response_header w' = None"
proof -
  obtain l st1 c st2 where "ss_seal C (u16_be (word_of_nat (length p))) (w_crypto w) = (Inr l, st1)"
      "ss_seal C p st1 = (Inr c, st2)" "w' = w\<lparr>w_crypto := st2, w_out := w_out w @ l @ c\<rparr>"
    using assms(1,2) by (auto simp: write_one_def split: prod.splits sum.splits)
  then show ?thesis
    using carries.carries_Cons [OF _ _ assms(3) carries.carries_Nil] assms(2)
    by (auto intro!: exI [of _ "l @ c"])
qed

lemma write_each_carries:
  assumes "write_each C now ps w = (Inr (), w')" and "w_response_header w = None"
    and "\<forall>p \<in> set ps. length p \<le> max_chunk_len (w_method w)"
  shows "\<exists>bs. w_out w' = w_out w @ bs \<and> carries C (w_method w) (w_crypto w) bs ps (w_crypto w')
    \<and> w_method w' = w_method w \<and> w_response_header w' = None"
  using assms
proof (induction ps arbitrary: w)
  case Nil
  then show ?case by (auto intro: carries.intros)
next
  case (Cons p ps)
  from Cons.prems(1) obtain w1 where w1: "write_one C now p w = (Inr (), w1)" "write_each C now ps w1 = (Inr (), w')"
    by (auto split: prod.splits sum.splits)
  obtain b1 where b1: "w_out w1 = w_out w @ b1" "carries C (w_method w) (w_crypto w) b1 [p] (w_crypto w1)"
      "w_method w1 = w_method w" "w_response_header w1 = None"
    using write_one_carries [OF w1(1) Cons.prems(2)] Cons.prems(3) by auto
  obtain b2 where b2: "w_out w' = w_out w1 @ b2" "carries C (w_method w1) (w_crypto w1) b2 ps (w_crypto w')"
      "w_method w' = w_method w1" "w_response_header w' = None"
    using Cons.IH [OF w1(2) b1(4)] Cons.prems(3) b1(3) by auto
  have "carries C (w_method w) (w_crypto w) (b1 @ b2) (p # ps) (w_crypto w')"
    using carries_append [OF b1(2), of b2 ps] b2(2) b1(3) by simp
  with b1 b2 show ?case by auto
qed

text \<open>What a write sends: the payload itself, or its pieces.\<close>

definition pieces :: "Method \<Rightarrow> bytes \<Rightarrow> bytes list" where
  "pieces m p = (if length p > max_chunk_len m then chunks (max_chunk_len m) p else [p])"

lemma concat_pieces [simp]: "concat (pieces m p) = p"
  using max_chunk_len_less(2) [of m] by (simp add: pieces_def)

lemma pieces_short: "q \<in> set (pieces m p) \<Longrightarrow> length q \<le> max_chunk_len m"
  using chunks_length [of q "max_chunk_len m" p] by (auto simp: pieces_def split: if_splits)

lemma write_chunk_pieces: "write_chunk C now p w = write_each C now (pieces (w_method w) p) w"
  by (auto simp: write_chunk_def pieces_def split: prod.split sum.split)

lemma write_chunks_carries:
  assumes "write_chunks C now ps w = (Inr (), w')" and "w_response_header w = None"
  shows "\<exists>bs cs. w_out w' = w_out w @ bs \<and> carries C (w_method w) (w_crypto w) bs cs (w_crypto w')
    \<and> concat cs = concat ps"
  using assms
proof (induction ps arbitrary: w)
  case Nil
  then show ?case by (auto intro!: exI [of _ "[]"] carries.intros)
next
  case (Cons p ps)
  from Cons.prems(1) obtain w1 where w1: "write_chunk C now p w = (Inr (), w1)" "write_chunks C now ps w1 = (Inr (), w')"
    by (auto split: prod.splits sum.splits)
  obtain b1 where b1: "w_out w1 = w_out w @ b1"
      "carries C (w_method w) (w_crypto w) b1 (pieces (w_method w) p) (w_crypto w1)"
      "w_method w1 = w_method w" "w_response_header w1 = None"
    using write_each_carries [of C now "pieces (w_method w) p" w w1] w1(1) Cons.prems(2) pieces_short
    by (auto simp: write_chunk_pieces)
  obtain b2 cs where b2: "w_out w' = w_out w1 @ b2" "carries C (w_method w1) (w_crypto w1) b2 cs (w_crypto w')"
      "concat cs = concat ps"
    using Cons.IH [OF w1(2) b1(4)] by auto
  have "carries C (w_method w) (w_crypto w) (b1 @ b2) (pieces (w_method w) p @ cs) (w_crypto w')"
    using carries_append [OF b1(2)] b2(2) b1(3) by simp
  moreover have "concat (pieces (w_method w) p @ cs) = concat (p # ps)" using b2(3) by simp
  ultimately show ?case using b1(1) b2(1) by (metis append_assoc)
qed

section \<open>Requests and responses\<close>

lemma request_fixed_header_roundtrip:
  assumes "encode_aead_2022_request_fixed_header (Some tw) n = Inr h" and "clocks_agree tr tw"
  shows "length h = AEAD_2022_REQUEST_FIXED_HEADER_LEN \<and> parse_aead_2022_request_fixed_header (Some tr) h = Inr n"
proof -
  have h: "h = [0] @ u64_be tw @ u16_be (word_of_nat n)" and n: "n < 65536"
    using assms(1) by (auto simp: encode_aead_2022_request_fixed_header_def split: if_splits)
  show ?thesis
    using n validate_timestamp_ok [OF assms(2)]
    by (simp add: h parse_aead_2022_request_fixed_header_def AEAD_2022_REQUEST_FIXED_HEADER_LEN_def unat_of_nat)
qed

lemma request_variable_header_roundtrip:
  assumes "encode_aead_2022_request_variable_header pad a p initial = Inr h" and "wire_address a"
  shows "decode_aead_2022_request_variable_header h = Inr (write_request_header a p @ initial)"
proof -
  have h: "h = write_request_header a p @ (if initial = [] then u16_be 1 @ [pad] else u16_be 0 @ initial)"
    using assms(1) by (auto simp: encode_aead_2022_request_variable_header_def Let_def split: if_splits)
  show ?thesis
    using parse_request_header_write [OF assms(2), of p]
    by (simp add: h decode_aead_2022_request_variable_header_def Let_def)
qed

lemma write_sealed_eq:
  assumes "write_sealed C p w = (Inr x, w')"
  shows "\<exists>c st. ss_seal C p (w_crypto w) = (Inr c, st) \<and> w' = w\<lparr>w_crypto := st, w_out := w_out w @ c\<rparr>"
  using assms by (auto simp: write_sealed_def split: prod.splits sum.splits)

lemma check_salt_fresh:
  assumes "salt \<notin> snd ` set cache"
  shows "\<exists>cache'. check_and_store_replay_salt m now salt cache = (Inr (), cache')"
  using assms
  by (force simp: check_and_store_replay_salt_def Let_def list_ex_iff dest!: set_dropWhileD)

lemma writer_new_with_salt_ok:
  assumes "writer_new_with_salt C cfg salt = Inr w"
  shows "\<not> is_aead_2022 (ss_method cfg) \<and> length salt = salt_len (ss_method cfg)
    \<and> bindr (master_key C cfg) (\<lambda>key. CryptoState_new C (ss_method cfg) key salt) = Inr (w_crypto w)
    \<and> w = \<lparr>w_out = salt, w_crypto = w_crypto w, w_method = ss_method cfg, w_response_header = None\<rparr>"
  using assms by (auto simp: writer_new_with_salt_def Let_def bindr_eq_Inr_iff split: if_splits)

lemma ss_legacy_read:
  assumes C: "aead_laws C" and w0: "writer_new_with_salt C cfg salt = Inr w0"
    and b: "carries C (ss_method cfg) (w_crypto w0) bs cs st'"
  shows "\<exists>r. reader_new C now instant cfg cache (bytesT (salt @ bs)) = (Inr r, cache)
    \<and> read_all C r = (cs, SsIo UnexpectedEof)"
proof -
  let ?r = "\<lparr>r_inner = bytesT bs, r_crypto = w_crypto w0, r_method = ss_method cfg, r_pending = [], r_request_salt = None\<rparr>"
  have "reader_new C now instant cfg cache (bytesT (salt @ bs)) = (Inr ?r, cache)"
    using writer_new_with_salt_ok [OF w0] by (simp add: reader_new_def reader_new_with_salt_def)
  moreover have "read_all C ?r = (cs, SsIo UnexpectedEof)"
    by (rule read_all_carries [OF b C]) simp_all
  ultimately show ?thesis by blast
qed

lemma case_run_Inr:
  "(case x of (Inl e, w) \<Rightarrow> Inl e | (Inr u, w) \<Rightarrow> f u w) = Inr y \<longleftrightarrow> (\<exists>u w. x = (Inr u, w) \<and> f u w = Inr y)"
  by (cases x; cases "fst x") auto

lemma ss_2022_request_head:
  assumes C: "aead_laws C" and m: "is_aead_2022 (ss_method cfg)"
    and req: "writer_new_request_with_salt C (Some tw) pad cfg a p initial salt = Inr (w0, salt')"
    and near: "clocks_agree tr tw" and fresh: "salt \<notin> snd ` set cache" and a: "wire_address a"
  shows "\<exists>bs cache'. w_out w0 = salt @ bs \<and> length salt = salt_len (ss_method cfg)
    \<and> w_response_header w0 = None \<and> w_method w0 = ss_method cfg
    \<and> (\<forall>t. reader_new_with_salt C (Some tr) instant cfg cache salt (bytesT bs @ t) =
        (Inr \<lparr>r_inner = t, r_crypto = w_crypto w0, r_method = ss_method cfg,
              r_pending = [write_request_header a p @ initial], r_request_salt = Some salt\<rparr>, cache'))"
proof -
  let ?m = "ss_method cfg"
  let ?w = "\<lambda>st. \<lparr>w_out = salt, w_crypto = st, w_method = ?m, w_response_header = None\<rparr>"
  from req m obtain st vh fh w1 where st: "bindr (master_key C cfg) (\<lambda>key. CryptoState_new C ?m key salt) = Inr st"
      and vh: "encode_aead_2022_request_variable_header pad a p initial = Inr vh"
      and fh: "encode_aead_2022_request_fixed_header (Some tw) (length vh) = Inr fh"
      and w1: "write_sealed C fh (?w st) = (Inr (), w1)" and w0: "write_sealed C vh w1 = (Inr (), w0)"
      and len: "length salt = salt_len ?m"
    unfolding writer_new_request_with_salt_def
    by (auto simp: Let_def bindr_eq_Inr_iff case_run_Inr split: if_splits)
  obtain c1 st1 where c1: "ss_seal C fh st = (Inr c1, st1)" "w1 = (?w st)\<lparr>w_crypto := st1, w_out := salt @ c1\<rparr>"
    using write_sealed_eq [OF w1] by auto
  obtain c2 st2 where c2: "ss_seal C vh st1 = (Inr c2, st2)" "w0 = w1\<lparr>w_crypto := st2, w_out := salt @ c1 @ c2\<rparr>"
    using write_sealed_eq [OF w0] c1(2) by auto
  note fr = request_fixed_header_roundtrip [OF fh near] and vr = request_variable_header_roundtrip [OF vh a]
  obtain cache' where ch: "check_and_store_replay_salt ?m instant salt cache = (Inr (), cache')"
    using check_salt_fresh [OF fresh] by blast
  have f: "reader_fixed_header C (Some tr) st (bytesT c1 @ t) = (Inr (length vh, st1), t)" for t
    using read_sealed_bytes [OF C c1(1)] fr by (simp add: reader_fixed_header_def bindT_def)
  have v: "reader_variable_header C (length vh) st1 (bytesT c2 @ t) = (Inr (write_request_header a p @ initial, st2), t)" for t
    using read_sealed_bytes [OF C c2(1)] vr by (simp add: reader_variable_header_def bindT_def)
  have "reader_new_with_salt C (Some tr) instant cfg cache salt (bytesT (c1 @ c2) @ t) =
        (Inr \<lparr>r_inner = t, r_crypto = w_crypto w0, r_method = ?m,
              r_pending = [write_request_header a p @ initial], r_request_salt = Some salt\<rparr>, cache')" for t
    using st m f [of "bytesT c2 @ t"] v ch by (simp add: reader_new_with_salt_def c2(2))
  with len c1(2) c2(2) show ?thesis by auto
qed

text \<open>
  C16: a Shadowsocks request arrives whole. With a cipher that opens what it sealed, in every method
  of both editions: when a client opens a request for an address with first data and writes further
  data, in pieces of any size, a server whose clock is within thirty seconds and who has not seen the
  salt reads chunks whose concatenation is the address header, the first data and everything written,
  and then reaches the end of the stream.
\<close>

theorem ss_request_stream:
  assumes "aead_laws C"
    and "writer_new_request_with_salt C (Some tw) pad cfg a p initial salt = Inr (w0, salt')"
    and "write_chunks C now ps w0 = (Inr (), w)"
    and "clocks_agree tr tw" and "salt \<notin> snd ` set cache" and "wire_address a"
  shows "\<exists>r cache' cs. reader_new C (Some tr) instant cfg cache (bytesT (w_out w)) = (Inr r, cache')
    \<and> read_all C r = (cs, SsIo UnexpectedEof) \<and> concat cs = write_request_header a p @ initial @ concat ps"
proof (cases "is_aead_2022 (ss_method cfg)")
  case False
  then obtain w1 where w1: "writer_new_with_salt C cfg salt = Inr w1"
      and hd: "write_chunk C (Some tw) (write_request_header a p @ initial) w1 = (Inr (), w0)"
    using assms(2) unfolding writer_new_request_with_salt_def
    by (auto simp: Let_def bindr_eq_Inr_iff case_run_Inr)
  let ?m = "ss_method cfg"
  have n: "w_response_header w1 = None" "w_method w1 = ?m" "w_out w1 = salt"
    using writer_new_with_salt_ok [OF w1] by (metis SsWriter.select_convs)+
  let ?ph = "pieces ?m (write_request_header a p @ initial)"
  obtain b1 where b1: "w_out w0 = salt @ b1" "carries C ?m (w_crypto w1) b1 ?ph (w_crypto w0)"
      "w_method w0 = ?m" "w_response_header w0 = None"
    using write_each_carries [of C "Some tw" ?ph w1 w0] hd n pieces_short by (auto simp: write_chunk_pieces)
  obtain b2 cs where b2: "w_out w = w_out w0 @ b2" "carries C ?m (w_crypto w0) b2 cs (w_crypto w)"
      "concat cs = concat ps"
    using write_chunks_carries [OF assms(3) b1(4)] b1(3) by auto
  have "w_out w = salt @ b1 @ b2" using b1(1) b2(1) by simp
  moreover have "concat (?ph @ cs) = write_request_header a p @ initial @ concat ps" using b2(3) by simp
  ultimately show ?thesis
    using ss_legacy_read [OF assms(1) w1 carries_append [OF b1(2) b2(2)]] by metis
next
  case True
  obtain bs cache' where h: "w_out w0 = salt @ bs" "length salt = salt_len (ss_method cfg)"
      "w_response_header w0 = None" "w_method w0 = ss_method cfg"
      "\<forall>t. reader_new_with_salt C (Some tr) instant cfg cache salt (bytesT bs @ t) =
        (Inr \<lparr>r_inner = t, r_crypto = w_crypto w0, r_method = ss_method cfg,
              r_pending = [write_request_header a p @ initial], r_request_salt = Some salt\<rparr>, cache')"
    using ss_2022_request_head [OF assms(1) True assms(2,4,5,6), of instant] by blast
  obtain b2 cs where b: "w_out w = w_out w0 @ b2" "carries C (w_method w0) (w_crypto w0) b2 cs (w_crypto w)"
      "concat cs = concat ps"
    using write_chunks_carries [OF assms(3) h(3)] by blast
  let ?r = "\<lparr>r_inner = bytesT b2, r_crypto = w_crypto w0, r_method = ss_method cfg,
      r_pending = [write_request_header a p @ initial], r_request_salt = Some salt\<rparr>"
  have "reader_new C (Some tr) instant cfg cache (bytesT (w_out w)) = (Inr ?r, cache')"
    using h(2,5) by (simp add: b(1) h(1) reader_new_def)
  moreover have "read_all C ?r = ((write_request_header a p @ initial) # cs, SsIo UnexpectedEof)"
    by (rule read_all_pending) (simp_all add: read_all_carries [OF b(2) assms(1)] h(4))
  ultimately show ?thesis using b(3) by auto
qed

lemma response_fixed_header_roundtrip:
  assumes "encode_aead_2022_response_fixed_header (Some tw) rs n = Inr h" and "clocks_agree tr tw"
    and "length rs = salt_len m"
  shows "length h = aead_2022_response_fixed_header_len m
    \<and> parse_aead_2022_response_fixed_header (Some tr) h m rs' = (if rs' = rs then Inr n else Inl InvalidHeader)"
proof -
  have h: "h = [1] @ u64_be tw @ rs @ u16_be (word_of_nat n)" and n: "n < 65536"
    using assms(1) by (auto simp: encode_aead_2022_response_fixed_header_def split: if_splits)
  define H where "H = [1] @ u64_be tw"
  have H: "length H = 9" "h = H @ rs @ u16_be (word_of_nat n)" by (simp_all add: H_def h)
  have "drop 9 (take (9 + salt_len m) h) = rs" "take 2 (drop (9 + salt_len m) h) = u16_be (word_of_nat n)"
    using assms(3) H(1) by (simp_all add: H(2))
  then show ?thesis
    using n validate_timestamp_ok [OF assms(2)] assms(3)
    by (simp add: parse_aead_2022_response_fixed_header_def aead_2022_response_fixed_header_len_def unat_of_nat)
      (simp add: h)
qed

lemma ss_2022_response_head:
  assumes C: "aead_laws C" and m: "is_aead_2022 (ss_method cfg)" and near: "clocks_agree tr tw"
    and w0: "writer_new_response_with_salt C cfg (Some rs) salt = Inr w0"
    and w1: "write_one C (Some tw) q w0 = (Inr (), w1)"
  shows "\<exists>bs. w_out w1 = bs \<and> w_response_header w1 = None \<and> w_method w1 = ss_method cfg
    \<and> (\<forall>t. reader_new_response C (Some tr) instant cfg cache (Some rs) (bytesT bs @ t) =
        (Inr \<lparr>r_inner = t, r_crypto = w_crypto w1, r_method = ss_method cfg, r_pending = [q], r_request_salt = None\<rparr>, cache))
    \<and> (\<forall>t rs'. rs' \<noteq> rs \<and> length rs' = salt_len (ss_method cfg) \<longrightarrow>
        reader_new_response C (Some tr) instant cfg cache (Some rs') (bytesT bs @ t) = (Inl InvalidHeader, cache))"
proof -
  let ?m = "ss_method cfg"
  from w0 m obtain st where st: "bindr (master_key C cfg) (\<lambda>key. CryptoState_new C ?m key salt) = Inr st"
      and len: "length salt = salt_len ?m" "length rs = salt_len ?m"
      and e: "w0 = \<lparr>w_out = [], w_crypto = st, w_method = ?m, w_response_header = Some (salt, rs)\<rparr>"
    by (auto simp: writer_new_response_with_salt_def Let_def bindr_eq_Inr_iff split: if_splits)
  let ?w = "\<lparr>w_out = salt, w_crypto = st, w_method = ?m, w_response_header = None\<rparr>"
  from w1 obtain h v where h: "encode_aead_2022_response_fixed_header (Some tw) rs (length q) = Inr h"
      and v: "write_sealed C h ?w = (Inr (), v)" "write_sealed C q v = (Inr (), w1)"
    by (auto simp: write_one_def e Let_def split: sum.splits prod.splits)
  obtain c1 st1 where c1: "ss_seal C h st = (Inr c1, st1)" "v = ?w\<lparr>w_crypto := st1, w_out := salt @ c1\<rparr>"
    using write_sealed_eq [OF v(1)] by auto
  obtain c2 st2 where c2: "ss_seal C q st1 = (Inr c2, st2)" "w1 = v\<lparr>w_crypto := st2, w_out := salt @ c1 @ c2\<rparr>"
    using write_sealed_eq [OF v(2)] c1(2) by auto
  note r = response_fixed_header_roundtrip [OF h near len(2)]
  have s1: "read_sealed C (aead_2022_response_fixed_header_len ?m) st (bytesT c1 @ t) = (Inr (h, st1), t)" for t
    using read_sealed_bytes [OF C c1(1)] r by simp
  have "reader_new_response C (Some tr) instant cfg cache (Some rs) (bytesT (salt @ c1 @ c2) @ t) =
        (Inr \<lparr>r_inner = t, r_crypto = st2, r_method = ?m, r_pending = [q], r_request_salt = None\<rparr>, cache)" for t
    using m len st s1 r read_sealed_bytes [OF C c2(1)]
    by (simp add: reader_new_response_def Let_def bindT_def)
  moreover have "reader_new_response C (Some tr) instant cfg cache (Some rs') (bytesT (salt @ c1 @ c2) @ t) = (Inl InvalidHeader, cache)"
    if "rs' \<noteq> rs" "length rs' = salt_len ?m" for rs' t
    using m len st s1 r that by (simp add: reader_new_response_def Let_def bindT_def)
  ultimately show ?thesis using c1(2) c2(2) by auto
qed

text \<open>
  C18: a Shadowsocks response arrives whole and is tied to its request. A client that opens the
  response with the salt of its request, its clock within thirty seconds of the server's, reads
  exactly what the server wrote, in every method of both editions and whatever the sizes of the
  writes; in the 2022 edition a client with any other salt of the right length is refused.
\<close>

theorem ss_response_stream:
  assumes C: "aead_laws C" and w0: "writer_new_response_with_salt C cfg rs salt = Inr w0"
    and wr: "write_chunks C (Some tw) (q # qs) w0 = (Inr (), w)" and near: "clocks_agree tr tw"
  shows "\<exists>r cs. reader_new_response C (Some tr) instant cfg cache rs (bytesT (w_out w)) = (Inr r, cache)
    \<and> read_all C r = (cs, SsIo UnexpectedEof) \<and> concat cs = concat (q # qs)
    \<and> (\<forall>rs'. is_aead_2022 (ss_method cfg) \<and> Some rs' \<noteq> rs \<and> length rs' = salt_len (ss_method cfg) \<longrightarrow>
         reader_new_response C (Some tr) instant cfg cache (Some rs') (bytesT (w_out w)) = (Inl InvalidHeader, cache))"
proof (cases "is_aead_2022 (ss_method cfg)")
  case False
  then have w0': "writer_new_with_salt C cfg salt = Inr w0"
    using w0 by (simp add: writer_new_response_with_salt_def)
  have n: "w_response_header w0 = None" "w_method w0 = ss_method cfg" "w_out w0 = salt"
    using writer_new_with_salt_ok [OF w0'] by (metis SsWriter.select_convs)+
  obtain bs cs where b: "w_out w = salt @ bs" "carries C (ss_method cfg) (w_crypto w0) bs cs (w_crypto w)"
      "concat cs = concat (q # qs)"
    using write_chunks_carries [OF wr n(1)] n(2,3) by auto
  show ?thesis
    using ss_legacy_read [OF C w0' b(2), of "Some tr" instant cache] b(1,3) False
    by (auto simp: reader_new_response_def Let_def)
next
  case True
  let ?m = "ss_method cfg"
  obtain rs' where rs: "rs = Some rs'"
    using w0 True by (cases rs) (auto simp: writer_new_response_with_salt_def Let_def)
  have wm: "w_method w0 = ?m"
    using w0 True by (auto simp: writer_new_response_with_salt_def Let_def bindr_eq_Inr_iff rs split: if_splits)
  obtain v where v: "write_each C (Some tw) (pieces ?m q) w0 = (Inr (), v)" "write_chunks C (Some tw) qs v = (Inr (), w)"
    using wr by (auto simp: write_chunk_pieces wm split: prod.splits sum.splits)
  have ne: "pieces ?m q \<noteq> []"
    using max_chunk_len_less(2) [of ?m] by (auto simp: pieces_def chunks.simps [of "max_chunk_len ?m" q])
  then obtain p0 ps0 where p0: "pieces ?m q = p0 # ps0" by (cases "pieces ?m q") auto
  obtain w1 where w1: "write_one C (Some tw) p0 w0 = (Inr (), w1)" "write_each C (Some tw) ps0 w1 = (Inr (), v)"
    using v(1) by (auto simp: p0 split: prod.splits sum.splits)
  obtain b0 where h: "w_out w1 = b0" "w_response_header w1 = None" "w_method w1 = ?m"
      "\<forall>t. reader_new_response C (Some tr) instant cfg cache rs (bytesT b0 @ t) =
        (Inr \<lparr>r_inner = t, r_crypto = w_crypto w1, r_method = ?m, r_pending = [p0], r_request_salt = None\<rparr>, cache)"
      "\<forall>t rs'. Some rs' \<noteq> rs \<and> length rs' = salt_len ?m \<longrightarrow>
        reader_new_response C (Some tr) instant cfg cache (Some rs') (bytesT b0 @ t) = (Inl InvalidHeader, cache)"
    using ss_2022_response_head [OF C True near _ w1(1), of rs' salt instant cache] w0 unfolding rs option.inject by blast
  obtain b1 where b1: "w_out v = b0 @ b1" "carries C ?m (w_crypto w1) b1 ps0 (w_crypto v)"
      "w_response_header v = None" "w_method v = ?m"
    using write_each_carries [OF w1(2) h(2)] pieces_short [of _ ?m q] h by (auto simp: p0)
  obtain b2 cs where b2: "w_out w = b0 @ b1 @ b2" "carries C ?m (w_crypto v) b2 cs (w_crypto w)" "concat cs = concat qs"
    using write_chunks_carries [OF v(2) b1(3)] b1(1,4) by auto
  let ?r = "\<lparr>r_inner = bytesT (b1 @ b2), r_crypto = w_crypto w1, r_method = ?m, r_pending = [p0], r_request_salt = None\<rparr>"
  have "read_all C ?r = (p0 # ps0 @ cs, SsIo UnexpectedEof)"
    by (rule read_all_pending) (simp_all add: read_all_carries [OF carries_append [OF b1(2) b2(2)] C])
  moreover have "concat (p0 # ps0 @ cs) = concat (q # qs)"
    using concat_pieces [of ?m q] b2(3) by (simp add: p0 flip: append_assoc)
  moreover have "reader_new_response C (Some tr) instant cfg cache rs (bytesT (w_out w)) = (Inr ?r, cache)"
    using h(4) by (simp add: b2(1))
  moreover have "\<forall>rs'. Some rs' \<noteq> rs \<and> length rs' = salt_len ?m \<longrightarrow>
      reader_new_response C (Some tr) instant cfg cache (Some rs') (bytesT (w_out w)) = (Inl InvalidHeader, cache)"
    using h(5) by (simp add: b2(1))
  ultimately show ?thesis by blast
qed

section \<open>Replayed salts\<close>

fun check_salts :: "Method \<Rightarrow> (int \<times> bytes) list \<Rightarrow> replay_cache \<Rightarrow> replay_cache" where
  "check_salts m [] cache = cache"
| "check_salts m ((now, salt) # qs) cache = check_salts m qs (snd (check_and_store_replay_salt m now salt cache))"

lemma set_dropWhile_keeps: "x \<in> set xs \<Longrightarrow> \<not> P x \<Longrightarrow> x \<in> set (dropWhile P xs)"
  by (induction xs) auto

lemma check_salt_keeps:
  assumes "(t, salt) \<in> set cache" and "now - t \<le> AEAD_2022_REPLAY_WINDOW"
  shows "(t, salt) \<in> set (snd (check_and_store_replay_salt m now s cache))"
  using assms by (auto simp: check_and_store_replay_salt_def Let_def intro: set_dropWhile_keeps)

text \<open>
  C19: a 2022 request cannot be replayed within the window. Once a salt has been accepted, it is
  refused for the following sixty seconds, whatever other salts are presented in between.
\<close>

theorem ss_salt_replay_rejected:
  assumes m: "is_aead_2022 m" and ok: "check_and_store_replay_salt m t salt cache = (Inr (), cache')"
    and "\<forall>(now, _) \<in> set qs. now - t \<le> AEAD_2022_REPLAY_WINDOW" and "t' - t \<le> AEAD_2022_REPLAY_WINDOW"
  shows "fst (check_and_store_replay_salt m t' salt (check_salts m qs cache')) = Inl ReplayDetected"
proof -
  have "(t, salt) \<in> set cache'"
    using m ok by (auto simp: check_and_store_replay_salt_def Let_def split: if_splits)
  with assms(3) have "(t, salt) \<in> set (check_salts m qs cache')"
    by (induction qs arbitrary: cache') (auto simp: check_salt_keeps)
  then have "(t, salt) \<in> set (dropWhile (\<lambda>(seen, _). t' - seen > AEAD_2022_REPLAY_WINDOW) (check_salts m qs cache'))"
    using assms(4) by (auto intro: set_dropWhile_keeps)
  then show ?thesis
    using m by (auto simp: check_and_store_replay_salt_def Let_def list_ex_iff)
qed

section \<open>Instances\<close>

definition sample_ss :: SsServerConfig where
  "sample_ss = \<lparr>ss_method = Aes128Gcm, ss_password = [1], ss_tcp_prefix = [], ss_udp_prefix = []\<rparr>"

definition sample_writer :: SsWriter where
  "sample_writer = \<lparr>w_out = replicate 16 3,
     w_crypto = \<lparr>cs_kind = KindAes128, cs_key = replicate 16 3, cs_nonce = replicate 12 0\<rparr>,
     w_method = Aes128Gcm, w_response_header = None\<rparr>"

lemma sample_writer_new: "writer_new_with_salt sample_crypto sample_ss (replicate 16 3) = Inr sample_writer"
  by code_simp

text \<open>With the sample cipher a write of a few bytes succeeds.\<close>

lemma sample_write:
  assumes "w_method w = Aes128Gcm" and "w_response_header w = None" and "length p < 100"
  shows "\<exists>w'. write_chunk sample_crypto now p w = (Inr (), w') \<and> w_method w' = Aes128Gcm \<and> w_response_header w' = None"
  using assms
  by (simp add: write_chunk_def write_one_def max_chunk_len_def is_aead_2022_def MAX_CHUNK_LEN_def
      ss_seal_def next_nonce_def sample_crypto_def)

theorem ss_request_stream_witness:
  "\<exists>(w :: SsWriter) r cache' cs. reader_new sample_crypto (Some 100) 0 sample_ss [] (bytesT (w_out w)) = (Inr r, cache')
    \<and> read_all sample_crypto r = (cs, SsIo UnexpectedEof) \<and> concat cs = [1, 127, 0, 0, 1, 0, 80] @ [9] @ [8, 8]"
proof -
  let ?a = "IPv4 [127, 0, 0, 1]"
  obtain w0 where w0: "write_chunk sample_crypto (Some 110) (write_request_header ?a (Port 80) @ [9]) sample_writer = (Inr (), w0)"
      "w_method w0 = Aes128Gcm" "w_response_header w0 = None"
    using sample_write [of sample_writer "write_request_header ?a (Port 80) @ [9]"] by (auto simp: sample_writer_def)
  obtain w where w: "write_chunk sample_crypto None [8, 8] w0 = (Inr (), w)"
    using sample_write [OF w0(2,3), of "[8, 8]"] by auto
  have "\<exists>r cache' cs. reader_new sample_crypto (Some 100) 0 sample_ss [] (bytesT (w_out w)) = (Inr r, cache')
    \<and> read_all sample_crypto r = (cs, SsIo UnexpectedEof)
    \<and> concat cs = write_request_header ?a (Port 80) @ [9] @ concat [[8, 8]]"
  proof (rule ss_request_stream)
    show "writer_new_request_with_salt sample_crypto (Some 110) 0 sample_ss ?a (Port 80) [9] (replicate 16 3) = Inr (w0, [])"
      using sample_writer_new w0(1)
      by (simp add: writer_new_request_with_salt_def Let_def) (simp add: sample_ss_def is_aead_2022_def)
    show "write_chunks sample_crypto None [[8, 8]] w0 = (Inr (), w)" using w by simp
    show "clocks_agree 100 110" by (simp add: clocks_agree_def AEAD_2022_MAX_TIME_DIFF_SECS_def)
  qed (simp_all add: sample_crypto_laws wire_address_def)
  moreover have "write_request_header ?a (Port 80) = [1, 127, 0, 0, 1, 0, 80]" by code_simp
  ultimately show ?thesis by auto
qed

theorem ss_response_stream_witness:
  "\<exists>(w :: SsWriter) r cs. reader_new_response sample_crypto (Some 100) 0 sample_ss [] None (bytesT (w_out w)) = (Inr r, [])
    \<and> read_all sample_crypto r = (cs, SsIo UnexpectedEof) \<and> concat cs = [8, 9]"
proof -
  obtain w where w: "write_chunk sample_crypto (Some 110) [8, 9] sample_writer = (Inr (), w)"
    using sample_write [of sample_writer "[8, 9]"] by (auto simp: sample_writer_def)
  have "writer_new_response_with_salt sample_crypto sample_ss None (replicate 16 3) = Inr sample_writer"
    using sample_writer_new by (simp add: writer_new_response_with_salt_def Let_def) (simp add: sample_ss_def is_aead_2022_def)
  moreover have "write_chunks sample_crypto (Some 110) [[8, 9]] sample_writer = (Inr (), w)" using w by simp
  moreover have "clocks_agree 100 110" by (simp add: clocks_agree_def AEAD_2022_MAX_TIME_DIFF_SECS_def)
  ultimately show ?thesis
    using ss_response_stream [OF sample_crypto_laws(1), of sample_ss None "replicate 16 3" sample_writer 110 "[8, 9]" "[]" w 100 0 "[]"]
    by auto
qed

theorem ss_salt_replay_rejected_witness:
  "fst (check_and_store_replay_salt Aead2022Blake3Aes128Gcm 5000000000 [1]
     (check_salts Aead2022Blake3Aes128Gcm [(1000000000, [2])] [(0, [1])])) = Inl ReplayDetected"
  by (rule ss_salt_replay_rejected [where t = 0 and cache = "[]"])
    (simp_all add: is_aead_2022_def check_and_store_replay_salt_def AEAD_2022_REPLAY_WINDOW_def)

end
