(* ===== verification/Ss_Udp.thy ===== *)
theory Ss_Udp
  imports Shadowsocks
begin

unbundle bit_operations_syntax

text \<open>
  Shadowsocks over UDP (\<open>crates/shadowsocks/src/lib.rs\<close>): packets of both editions, the sliding window
  of 128 packet numbers that keeps a packet from being accepted twice, and the table of sessions. The
  window is shown to implement a set of packet numbers.
\<close>

section \<open>The replay window\<close>

record UdpReplayWindow =
  highest :: u64
  bitmap :: u128
  initialized :: bool

definition window_default :: UdpReplayWindow where
  "window_default = \<lparr>highest = 0, bitmap = 0, initialized = False\<rparr>"

definition AEAD_2022_UDP_REPLAY_WINDOW :: u64 where "AEAD_2022_UDP_REPLAY_WINDOW = 128"

definition window_check :: "u64 \<Rightarrow> UdpReplayWindow \<Rightarrow> (ShadowsocksError + unit) \<times> UdpReplayWindow" where
  "window_check packet_id w =
     (if \<not> initialized w then (Inr (), w\<lparr>initialized := True, highest := packet_id, bitmap := 1\<rparr>)
      else if packet_id > highest w then
        (let shift = packet_id - highest w;
             b = (if shift \<ge> AEAD_2022_UDP_REPLAY_WINDOW then 0 else push_bit (unat shift) (bitmap w))
         in (Inr (), w\<lparr>highest := packet_id, bitmap := b OR 1\<rparr>))
      else let offset = highest w - packet_id in
        if offset \<ge> AEAD_2022_UDP_REPLAY_WINDOW then (Inl ReplayDetected, w)
        else let bt = push_bit (unat offset) 1 in
          if bitmap w AND bt \<noteq> 0 then (Inl ReplayDetected, w)
          else (Inr (), w\<lparr>bitmap := bitmap w OR bt\<rparr>))"

section \<open>Sessions\<close>

record Aead2022UdpSession =
  us_last_seen :: int
  us_server_session_id :: bytes
  us_next_server_packet_id :: u64
  us_replay_window :: UdpReplayWindow

definition accept_aead_2022_udp_packet ::
  "Method \<Rightarrow> int \<Rightarrow> bytes \<Rightarrow> bytes \<Rightarrow> u64 \<Rightarrow> (bytes \<times> Aead2022UdpSession) list
     \<Rightarrow> (ShadowsocksError + bytes \<times> u64) \<times> (bytes \<times> Aead2022UdpSession) list" where
  "accept_aead_2022_udp_packet m now rnd client_session_id packet_id cache =
     (if \<not> is_aead_2022 m then (Inl (UnsupportedUdpMethod (method_name m)), cache)
      else
        let kept = filter (\<lambda>(_, s). now - us_last_seen s \<le> 60 * 1000000000) cache;
            s = (case map_of kept client_session_id of
                   Some s \<Rightarrow> s
                 | None \<Rightarrow> \<lparr>us_last_seen = now, us_server_session_id = rnd, us_next_server_packet_id = 0,
                             us_replay_window = window_default\<rparr>)
        in case window_check packet_id (us_replay_window s) of
             (Inl e, _) \<Rightarrow> (Inl e, kept)
           | (Inr _, w) \<Rightarrow>
               (Inr (us_server_session_id s, us_next_server_packet_id s),
                (client_session_id, s\<lparr>us_replay_window := w, us_last_seen := now,
                   us_next_server_packet_id := us_next_server_packet_id s + 1\<rparr>)
                # filter (\<lambda>(k, _). k \<noteq> client_session_id) kept))"

section \<open>Packets of the first edition\<close>

definition decrypt_udp_packet :: "SsCrypto \<Rightarrow> SsServerConfig \<Rightarrow> bytes \<Rightarrow> ShadowsocksError + bytes" where
  "decrypt_udp_packet C cfg packet =
     (let m = ss_method cfg in
      if is_aead_2022 m then Inl (UnsupportedUdpMethod (method_name m))
      else if length packet < salt_len m + TAG_LEN then Inl ShortUdpPacket
      else bindr (bindr (master_key C cfg) (\<lambda>key. CryptoState_new C m key (take (salt_len m) packet))) (\<lambda>st.
        fst (ss_open C (drop (salt_len m) packet) st)))"

definition encrypt_udp_packet_with_salt :: "SsCrypto \<Rightarrow> SsServerConfig \<Rightarrow> bytes \<Rightarrow> bytes \<Rightarrow> ShadowsocksError + bytes" where
  "encrypt_udp_packet_with_salt C cfg payload salt =
     (let m = ss_method cfg in
      if is_aead_2022 m then Inl (UnsupportedUdpMethod (method_name m))
      else bindr (bindr (master_key C cfg) (\<lambda>key. CryptoState_new C m key salt)) (\<lambda>st.
        bindr (fst (ss_seal C payload st)) (\<lambda>c. Inr (salt @ c))))"

definition encrypt_udp_packet :: "SsCrypto \<Rightarrow> bytes \<Rightarrow> SsServerConfig \<Rightarrow> bytes \<Rightarrow> ShadowsocksError + bytes" where
  "encrypt_udp_packet C rnd cfg payload =
     (let m = ss_method cfg in
      if is_aead_2022 m then Inl (UnsupportedUdpMethod (method_name m))
      else bindr (random_salt rnd m (ss_udp_prefix cfg)) (encrypt_udp_packet_with_salt C cfg payload))"

section \<open>Packets of the 2022 edition\<close>

definition build_separate_header :: "bytes \<Rightarrow> u64 \<Rightarrow> bytes" where
  "build_separate_header session_id packet_id = session_id @ u64_be packet_id"

definition session_id_from_header :: "bytes \<Rightarrow> bytes" where
  "session_id_from_header header = take 8 header"

definition packet_id_from_header :: "bytes \<Rightarrow> u64" where
  "packet_id_from_header header = u64_of_be (drop 8 header)"

definition nonce_from_separate_header :: "bytes \<Rightarrow> bytes" where
  "nonce_from_separate_header header = drop 4 (take 8 header) @ drop 8 (take 16 header)"

definition crypt_aead_2022_separate_header ::
  "SsCrypto \<Rightarrow> Method \<Rightarrow> bytes \<Rightarrow> bytes \<Rightarrow> bool \<Rightarrow> ShadowsocksError + bytes" where
  "crypt_aead_2022_separate_header C m key input encrypt =
     (if is_aead_2022 m then
        (if length key \<noteq> key_len m then Inl InvalidKey
         else Inr (if encrypt then c_block_encrypt C key input else c_block_decrypt C key input))
      else Inl (UnsupportedUdpMethod (method_name m)))"

definition aead_2022_seal_once ::
  "SsCrypto \<Rightarrow> Method \<Rightarrow> bytes \<Rightarrow> bytes \<Rightarrow> bytes \<Rightarrow> bytes \<Rightarrow> ShadowsocksError + bytes" where
  "aead_2022_seal_once C m key session_id nonce plaintext =
     (let subkey = derive_aead_2022_subkey C m key session_id in
      if is_aead_2022 m then
        (if length subkey \<noteq> key_len m then Inl InvalidKey
         else ok_or SsEncrypt (c_seal C (cipher_kind m) subkey nonce plaintext))
      else Inl (UnsupportedUdpMethod (method_name m)))"

definition aead_2022_open_once ::
  "SsCrypto \<Rightarrow> Method \<Rightarrow> bytes \<Rightarrow> bytes \<Rightarrow> bytes \<Rightarrow> bytes \<Rightarrow> ShadowsocksError + bytes" where
  "aead_2022_open_once C m key session_id nonce ciphertext =
     (let subkey = derive_aead_2022_subkey C m key session_id in
      if is_aead_2022 m then
        (if length subkey \<noteq> key_len m then Inl InvalidKey
         else ok_or SsDecrypt (c_open C (cipher_kind m) subkey nonce ciphertext))
      else Inl (UnsupportedUdpMethod (method_name m)))"

definition decrypt_aead_2022_udp_packet :: "SsCrypto \<Rightarrow> SsServerConfig \<Rightarrow> bytes \<Rightarrow> ShadowsocksError + bytes \<times> bytes" where
  "decrypt_aead_2022_udp_packet C cfg packet =
     (let m = ss_method cfg in
      if \<not> is_aead_2022 m then Inl (UnsupportedUdpMethod (method_name m))
      else if length packet < 16 + TAG_LEN then Inl ShortUdpPacket
      else bindr (master_key C cfg) (\<lambda>key.
        bindr (crypt_aead_2022_separate_header C m key (take 16 packet) False) (\<lambda>header.
        bindr (aead_2022_open_once C m key (session_id_from_header header) (nonce_from_separate_header header)
                 (drop 16 packet)) (\<lambda>body. Inr (header, body)))))"

definition encrypt_aead_2022_udp_body :: "SsCrypto \<Rightarrow> SsServerConfig \<Rightarrow> bytes \<Rightarrow> u64 \<Rightarrow> bytes \<Rightarrow> ShadowsocksError + bytes" where
  "encrypt_aead_2022_udp_body C cfg session_id packet_id body =
     (let m = ss_method cfg in
      if \<not> is_aead_2022 m then Inl (UnsupportedUdpMethod (method_name m))
      else bindr (master_key C cfg) (\<lambda>key.
        let header = build_separate_header session_id packet_id in
        bindr (aead_2022_seal_once C m key session_id (nonce_from_separate_header header) body) (\<lambda>encrypted_body.
        bindr (crypt_aead_2022_separate_header C m key header True) (\<lambda>encrypted_header.
          Inr (encrypted_header @ encrypted_body)))))"

text \<open>\<open>read_u8\<close>, \<open>read_u16_be\<close> and \<open>read_u64_be\<close> with the position as the bytes not yet read.\<close>

definition ss_read_u8 :: "bytes \<Rightarrow> ShadowsocksError + u8 \<times> bytes" where
  "ss_read_u8 data = (if data = [] then Inl InvalidHeader else Inr (hd data, tl data))"

definition ss_read_u16_be :: "bytes \<Rightarrow> ShadowsocksError + u16 \<times> bytes" where
  "ss_read_u16_be data = (if length data < 2 then Inl InvalidHeader else Inr (u16_of_be (take 2 data), drop 2 data))"

definition ss_read_u64_be :: "bytes \<Rightarrow> ShadowsocksError + u64 \<times> bytes" where
  "ss_read_u64_be data = (if length data < 8 then Inl InvalidHeader else Inr (u64_of_be (take 8 data), drop 8 data))"

record Aead2022UdpRequest =
  uq_client_session_id :: bytes
  uq_packet_id :: u64
  uq_address :: Address
  uq_port :: Port
  uq_payload :: bytes

record Aead2022UdpResponse =
  ur_server_session_id :: bytes
  ur_packet_id :: u64
  ur_client_session_id :: bytes
  ur_address :: Address
  ur_port :: Port
  ur_payload :: bytes

text \<open>The end of a body: padding, address, payload.\<close>

definition udp_body_tail :: "bytes \<Rightarrow> ShadowsocksError + Address \<times> Port \<times> bytes" where
  "udp_body_tail body =
     bindr (ss_read_u16_be body) (\<lambda>(padding_len, body).
       if length body < unat padding_len then Inl InvalidHeader
       else let body = drop (unat padding_len) body in
         bindr (parse_request_header body) (\<lambda>(a, p, consumed). Inr (a, p, drop consumed body)))"

definition decrypt_aead_2022_udp_request ::
  "SsCrypto \<Rightarrow> u64 option \<Rightarrow> SsServerConfig \<Rightarrow> bytes \<Rightarrow> ShadowsocksError + Aead2022UdpRequest" where
  "decrypt_aead_2022_udp_request C now cfg packet =
     bindr (decrypt_aead_2022_udp_packet C cfg packet) (\<lambda>(header, body).
     bindr (ss_read_u8 body) (\<lambda>(header_type, body).
       if header_type \<noteq> 0 then Inl InvalidHeader
       else bindr (ss_read_u64_be body) (\<lambda>(timestamp, body).
            bindr (validate_timestamp now timestamp) (\<lambda>_.
            bindr (udp_body_tail body) (\<lambda>(a, p, payload).
              Inr \<lparr>uq_client_session_id = session_id_from_header header,
                   uq_packet_id = packet_id_from_header header, uq_address = a, uq_port = p,
                   uq_payload = payload\<rparr>)))))"

definition encrypt_aead_2022_udp_request ::
  "SsCrypto \<Rightarrow> u64 option \<Rightarrow> SsServerConfig \<Rightarrow> Aead2022UdpRequest \<Rightarrow> ShadowsocksError + bytes" where
  "encrypt_aead_2022_udp_request C now cfg q =
     bindr (ok_or InvalidTimestamp now) (\<lambda>t.
       encrypt_aead_2022_udp_body C cfg (uq_client_session_id q) (uq_packet_id q)
         ([0] @ u64_be t @ u16_be 0 @ write_request_header (uq_address q) (uq_port q) @ uq_payload q))"

definition decrypt_aead_2022_udp_response ::
  "SsCrypto \<Rightarrow> u64 option \<Rightarrow> SsServerConfig \<Rightarrow> bytes \<Rightarrow> ShadowsocksError + Aead2022UdpResponse" where
  "decrypt_aead_2022_udp_response C now cfg packet =
     bindr (decrypt_aead_2022_udp_packet C cfg packet) (\<lambda>(header, body).
     bindr (ss_read_u8 body) (\<lambda>(header_type, body).
       if header_type \<noteq> 1 then Inl InvalidHeader
       else bindr (ss_read_u64_be body) (\<lambda>(timestamp, body).
            bindr (validate_timestamp now timestamp) (\<lambda>_.
              if length body < 8 then Inl InvalidHeader
              else bindr (udp_body_tail (drop 8 body)) (\<lambda>(a, p, payload).
                Inr \<lparr>ur_server_session_id = session_id_from_header header,
                     ur_packet_id = packet_id_from_header header,
                     ur_client_session_id = take 8 body, ur_address = a, ur_port = p,
                     ur_payload = payload\<rparr>)))))"

definition encrypt_aead_2022_udp_response ::
  "SsCrypto \<Rightarrow> u64 option \<Rightarrow> SsServerConfig \<Rightarrow> Aead2022UdpResponse \<Rightarrow> ShadowsocksError + bytes" where
  "encrypt_aead_2022_udp_response C now cfg q =
     bindr (ok_or InvalidTimestamp now) (\<lambda>t.
       encrypt_aead_2022_udp_body C cfg (ur_server_session_id q) (ur_packet_id q)
         ([1] @ u64_be t @ ur_client_session_id q @ u16_be 0
          @ write_request_header (ur_address q) (ur_port q) @ ur_payload q))"

section \<open>The window implements a set\<close>

text \<open>
  The specification: accept a number if none has been accepted, if it is above all accepted ones, or if
  it is less than 128 below the highest and has not been accepted.
\<close>

definition spec_check :: "nat \<Rightarrow> nat set \<Rightarrow> bool \<times> nat set" where
  "spec_check n S =
     (if S = {} \<or> n > Max S \<or> (Max S - n < 128 \<and> n \<notin> S) then (True, insert n S) else (False, S))"

fun spec_run :: "nat list \<Rightarrow> nat set \<Rightarrow> bool list" where
  "spec_run [] S = []"
| "spec_run (n # ns) S = (case spec_check n S of (ok, S') \<Rightarrow> ok # spec_run ns S')"

fun window_run :: "u64 list \<Rightarrow> UdpReplayWindow \<Rightarrow> bool list" where
  "window_run [] w = []"
| "window_run (n # ns) w = (case window_check n w of (r, w') \<Rightarrow> is_ok r # window_run ns w')"

definition window_rel :: "UdpReplayWindow \<Rightarrow> nat set \<Rightarrow> bool" where
  "window_rel w S =
     (finite S \<and> (initialized w \<longleftrightarrow> S \<noteq> {})
      \<and> (S \<noteq> {} \<longrightarrow> unat (highest w) = Max S
          \<and> (\<forall>i < 128. bit (bitmap w) i \<longleftrightarrow> i \<le> Max S \<and> Max S - i \<in> S)))"

lemma and_exp_iff: "(b :: u128) AND 2 ^ n \<noteq> 0 \<longleftrightarrow> n < 128 \<and> bit b n"
  unfolding bit_eq_iff [of "b AND 2 ^ n" 0] by (auto simp: bit_and_iff bit_exp_iff)

lemma window_first:
  assumes "window_rel w S" and "S = {}"
  shows "is_ok (fst (window_check n w)) \<and> window_rel (snd (window_check n w)) {unat n}"
  using assms by (auto simp: window_rel_def window_check_def bit_1_iff)

lemma window_above:
  assumes rel: "window_rel w S" and "S \<noteq> {}" and "unat n > Max S"
  shows "is_ok (fst (window_check n w)) \<and> window_rel (snd (window_check n w)) (insert (unat n) S)"
proof -
  let ?h = "Max S" and ?n = "unat n"
  have fin: "finite S" and h: "unat (highest w) = ?h" and i: "initialized w"
    and bits: "\<And>i. i < 128 \<Longrightarrow> bit (bitmap w) i \<longleftrightarrow> i \<le> ?h \<and> ?h - i \<in> S"
    using rel assms(2) by (auto simp: window_rel_def)
  have gt: "n > highest w" using assms(3) h by (simp add: word_less_nat_alt)
  have sh: "unat (n - highest w) = ?n - ?h" using gt h by (simp add: unat_sub)
  have big: "n - highest w \<ge> AEAD_2022_UDP_REPLAY_WINDOW \<longleftrightarrow> ?n - ?h \<ge> 128"
    using sh by (simp add: word_le_nat_alt AEAD_2022_UDP_REPLAY_WINDOW_def)
  let ?b = "(if ?n - ?h \<ge> 128 then 0 else push_bit (?n - ?h) (bitmap w)) OR 1"
  have c: "window_check n w = (Inr (), w\<lparr>highest := n, bitmap := ?b\<rparr>)"
    using i gt big sh by (simp add: window_check_def Let_def)
  have max: "Max (insert ?n S) = ?n"
    using Max_insert [OF fin assms(2), of ?n] max_absorb1 [OF less_imp_le [OF assms(3)]] by argo
  have "bit ?b i \<longleftrightarrow> i \<le> ?n \<and> ?n - i \<in> insert ?n S" if "i < 128" for i
  proof (cases "i = 0")
    case True
    then show ?thesis by (simp add: bit_or_iff bit_1_iff)
  next
    case False
    have b: "bit ?b i \<longleftrightarrow> \<not> 128 \<le> ?n - ?h \<and> ?n - ?h \<le> i \<and> bit (bitmap w) (i - (?n - ?h))"
      using that False by (auto simp: bit_or_iff bit_1_iff bit_push_bit_iff)
    have le: "x \<in> S \<Longrightarrow> x \<le> ?h" for x using fin by simp
    show ?thesis
    proof (cases "?n - ?h \<le> i")
      case True
      then have "i - (?n - ?h) < 128" "?h - (i - (?n - ?h)) = ?n - i \<or> \<not> i \<le> ?n" "i - (?n - ?h) \<le> ?h \<longleftrightarrow> i \<le> ?n"
        using that assms(3) by auto
      then show ?thesis
        using b bits [of "i - (?n - ?h)"] True that False assms(3) by auto
    next
      case nle: False
      then have "?n - i \<notin> S" using le [of "?n - i"] assms(3) by auto
      then show ?thesis using b nle False by auto
    qed
  qed
  then show ?thesis
    using fin max i by (simp add: c window_rel_def)
qed

lemma window_below:
  assumes rel: "window_rel w S" and ne: "S \<noteq> {}" and le: "unat n \<le> Max S"
  shows "is_ok (fst (window_check n w)) \<longleftrightarrow> Max S - unat n < 128 \<and> unat n \<notin> S"
    and "window_rel (snd (window_check n w)) (if Max S - unat n < 128 then insert (unat n) S else S)"
proof -
  let ?h = "Max S" and ?n = "unat n"
  have fin: "finite S" and h: "unat (highest w) = ?h" and i: "initialized w"
    and bits: "\<And>i. i < 128 \<Longrightarrow> bit (bitmap w) i \<longleftrightarrow> i \<le> ?h \<and> ?h - i \<in> S"
    using rel ne by (auto simp: window_rel_def)
  have ngt: "\<not> n > highest w" using le h by (simp add: word_less_nat_alt)
  have off: "unat (highest w - n) = ?h - ?n" using ngt h by (simp add: unat_sub)
  have big: "highest w - n \<ge> AEAD_2022_UDP_REPLAY_WINDOW \<longleftrightarrow> ?h - ?n \<ge> 128"
    using off by (simp add: word_le_nat_alt AEAD_2022_UDP_REPLAY_WINDOW_def)
  let ?o = "?h - ?n"
  have hit: "bitmap w AND push_bit ?o 1 \<noteq> 0 \<longleftrightarrow> ?n \<in> S" if "?o < 128"
    using bits [OF that] that le by (simp add: and_exp_iff)
  have c: "window_check n w =
      (if ?o \<ge> 128 \<or> ?n \<in> S then (Inl ReplayDetected, w) else (Inr (), w\<lparr>bitmap := bitmap w OR push_bit ?o 1\<rparr>))"
    using i big off hit ngt [unfolded not_less, THEN leD] by (auto simp: window_check_def Let_def)
  show "is_ok (fst (window_check n w)) \<longleftrightarrow> ?o < 128 \<and> ?n \<notin> S"
    by (auto simp: c)
  have max: "Max (insert ?n S) = ?h" using fin ne le by (simp add: max_def)
  have "bit (bitmap w OR push_bit ?o 1) j \<longleftrightarrow> j \<le> ?h \<and> ?h - j \<in> insert ?n S" if "j < 128" "?o < 128" for j
    using bits [OF that(1)] that le by (auto simp: bit_or_iff bit_exp_iff)
  then show "window_rel (snd (window_check n w)) (if ?o < 128 then insert ?n S else S)"
    using rel fin ne max i h by (auto simp: c window_rel_def insert_absorb)
qed

lemma window_check_refines:
  assumes "window_rel w S"
  shows "is_ok (fst (window_check n w)) = fst (spec_check (unat n) S)
    \<and> window_rel (snd (window_check n w)) (snd (spec_check (unat n) S))"
proof -
  consider "S = {}" | "S \<noteq> {}" "unat n > Max S" | "S \<noteq> {}" "unat n \<le> Max S" by fastforce
  then show ?thesis
  proof cases
    case 1
    with window_first [OF assms] show ?thesis by (simp add: spec_check_def)
  next
    case 2
    with window_above [OF assms] show ?thesis by (simp add: spec_check_def)
  next
    case 3
    from 3 window_below [OF assms 3] show ?thesis
      by (cases "Max S - unat n < 128"; cases "unat n \<in> S") (simp_all add: spec_check_def insert_absorb not_less del: Max_less_iff Max_ge_iff)
  qed
qed

text \<open>
  C17: the replay window is a set of packet numbers. For every sequence of 64-bit packet numbers,
  the bitmap accepts exactly those the specification accepts: above all accepted so far, or less than
  128 below the highest and never accepted before.
\<close>

theorem udp_window_refines:
  "window_run ns window_default = spec_run (map unat ns) {}"
proof -
  have "window_rel w S \<Longrightarrow> window_run ns w = spec_run (map unat ns) S" for w S
  proof (induction ns arbitrary: w S)
    case (Cons n ns)
    from window_check_refines [OF Cons.prems, of n] Cons.IH show ?case
      by (simp add: split_def)
  qed simp
  then show ?thesis by (simp add: window_rel_def window_default_def)
qed

section \<open>Packets round-trip\<close>

lemma udp_body_roundtrip:
  assumes C: "aead_laws C" "block_laws C" and sid: "length sid = 8"
    and enc: "encrypt_aead_2022_udp_body C cfg sid pid body = Inr packet"
  shows "decrypt_aead_2022_udp_packet C cfg packet = Inr (build_separate_header sid pid, body)"
proof -
  let ?m = "ss_method cfg" and ?h = "build_separate_header sid pid"
  have h: "length ?h = 16" "session_id_from_header ?h = sid" using sid
    by (simp_all add: build_separate_header_def session_id_from_header_def)
  from enc obtain key eb where m: "is_aead_2022 ?m" and key: "master_key C cfg = Inr key"
      and eb: "aead_2022_seal_once C ?m key sid (nonce_from_separate_header ?h) body = Inr eb"
      and kl: "length key = key_len ?m" and p: "packet = c_block_encrypt C key ?h @ eb"
    by (auto simp: encrypt_aead_2022_udp_body_def Let_def bindr_eq_Inr_iff crypt_aead_2022_separate_header_def
        split: if_splits)
  let ?sk = "derive_aead_2022_subkey C ?m key sid"
  from eb m have sk: "length ?sk = key_len ?m" "c_seal C (cipher_kind ?m) ?sk (nonce_from_separate_header ?h) body = Some eb"
    by (auto simp: aead_2022_seal_once_def Let_def split: if_splits)
  have l: "length eb = length body + TAG_LEN" "c_open C (cipher_kind ?m) ?sk (nonce_from_separate_header ?h) eb = Some body"
    using C(1) sk(2) unfolding aead_laws_def by blast+
  have b: "length (c_block_encrypt C key ?h) = 16" "c_block_decrypt C key (c_block_encrypt C key ?h) = ?h"
    using C(2) h(1) unfolding block_laws_def by blast+
  show ?thesis
    using m key kl sk(1) l b h
    by (simp add: decrypt_aead_2022_udp_packet_def p crypt_aead_2022_separate_header_def aead_2022_open_once_def Let_def)
qed

lemma udp_body_tail_write:
  assumes "wire_address a"
  shows "udp_body_tail (u16_be 0 @ write_request_header a p @ payload) = Inr (a, p, payload)"
  using parse_request_header_write [OF assms, of p payload]
  by (simp add: udp_body_tail_def ss_read_u16_be_def Let_def)

lemma ss_read_simps [simp]:
  "ss_read_u8 (b # bs) = Inr (b, bs)" "ss_read_u64_be (u64_be n @ bs) = Inr (n, bs)"
  by (simp_all add: ss_read_u8_def ss_read_u64_be_def)

lemma separate_header_fields [simp]:
  "length sid = 8 \<Longrightarrow> session_id_from_header (build_separate_header sid pid) = sid"
  "length sid = 8 \<Longrightarrow> packet_id_from_header (build_separate_header sid pid) = pid"
  by (simp_all add: session_id_from_header_def packet_id_from_header_def build_separate_header_def)

text \<open>
  C20: 2022 UDP packets round-trip in both directions. With a cipher and a block cipher that undo
  themselves and clocks within thirty seconds, decrypting an encrypted request gives the session, the
  packet number, the address, the port and the payload it was made of, and so does decrypting an
  encrypted response, with both sessions.
\<close>

theorem ss_udp_roundtrip:
  assumes C: "aead_laws C" "block_laws C" and near: "clocks_agree tr tw"
    and q: "encrypt_aead_2022_udp_request C (Some tw) cfg q = Inr packet" "length (uq_client_session_id q) = 8"
      "wire_address (uq_address q)"
    and r: "encrypt_aead_2022_udp_response C (Some tw) cfg r = Inr packet'" "length (ur_server_session_id r) = 8"
      "length (ur_client_session_id r) = 8" "wire_address (ur_address r)"
  shows "decrypt_aead_2022_udp_request C (Some tr) cfg packet = Inr q
    \<and> decrypt_aead_2022_udp_response C (Some tr) cfg packet' = Inr r"
proof -
  have p: "decrypt_aead_2022_udp_packet C cfg packet = Inr (build_separate_header (uq_client_session_id q) (uq_packet_id q),
      [0] @ u64_be tw @ u16_be 0 @ write_request_header (uq_address q) (uq_port q) @ uq_payload q)"
    using q(1) by (intro udp_body_roundtrip [OF C q(2)]) (simp add: encrypt_aead_2022_udp_request_def)
  have p': "decrypt_aead_2022_udp_packet C cfg packet' = Inr (build_separate_header (ur_server_session_id r) (ur_packet_id r),
      [1] @ u64_be tw @ ur_client_session_id r @ u16_be 0 @ write_request_header (ur_address r) (ur_port r) @ ur_payload r)"
    using r(1) by (intro udp_body_roundtrip [OF C r(2)]) (simp add: encrypt_aead_2022_udp_response_def)
  show ?thesis
    using q(2) r(2,3) validate_timestamp_ok [OF near] udp_body_tail_write [OF q(3)] udp_body_tail_write [OF r(4)]
    by (simp add: decrypt_aead_2022_udp_request_def decrypt_aead_2022_udp_response_def p p')
qed

definition sample_2022 :: SsServerConfig where
  "sample_2022 = \<lparr>ss_method = Aead2022Blake3Aes128Gcm, ss_password = [0x61], ss_tcp_prefix = [], ss_udp_prefix = []\<rparr>"

definition sample_request :: Aead2022UdpRequest where
  "sample_request = \<lparr>uq_client_session_id = replicate 8 1, uq_packet_id = 5, uq_address = IPv4 [1, 2, 3, 4],
     uq_port = Port 53, uq_payload = [9]\<rparr>"

definition sample_response :: Aead2022UdpResponse where
  "sample_response = \<lparr>ur_server_session_id = replicate 8 2, ur_packet_id = 0, ur_client_session_id = replicate 8 1,
     ur_address = IPv4 [1, 2, 3, 4], ur_port = Port 53, ur_payload = [8]\<rparr>"

theorem ss_udp_roundtrip_witness:
  "\<exists>packet packet'. decrypt_aead_2022_udp_request sample_crypto (Some 90) sample_2022 packet = Inr sample_request
    \<and> decrypt_aead_2022_udp_response sample_crypto (Some 90) sample_2022 packet' = Inr sample_response"
proof -
  have "is_ok (encrypt_aead_2022_udp_request sample_crypto (Some 100) sample_2022 sample_request)" by code_simp
  moreover have "is_ok (encrypt_aead_2022_udp_response sample_crypto (Some 100) sample_2022 sample_response)" by code_simp
  ultimately obtain packet packet' where
      "encrypt_aead_2022_udp_request sample_crypto (Some 100) sample_2022 sample_request = Inr packet"
      "encrypt_aead_2022_udp_response sample_crypto (Some 100) sample_2022 sample_response = Inr packet'"
    by (auto simp: is_ok_def split: sum.splits)
  moreover have "clocks_agree 90 100" by (simp add: clocks_agree_def AEAD_2022_MAX_TIME_DIFF_SECS_def)
  ultimately show ?thesis
    using ss_udp_roundtrip [OF sample_crypto_laws, of 90 100 sample_2022 sample_request packet sample_response packet']
    by (auto simp: sample_request_def sample_response_def wire_address_def)
qed

end
