(* ===== verification/Incremental.thy ===== *)
theory Incremental
  imports Prelude
begin

text \<open>
  Parsers over a growing buffer. A stream reader appends what arrives to a buffer and asks its parser
  again; the parser says that more bytes are needed, or rejects, or returns a value and how many bytes
  it used. The interface \<open>incremental\<close> states what such a loop relies on, and its lemmas show that the
  way the transport cuts the bytes does not matter.
\<close>

type_synonym ('e, 'a) parser = "bytes \<Rightarrow> 'e + ('a \<times> nat) option"

text \<open>\<open>data[a..b]\<close>.\<close>

definition subrange :: "'a list \<Rightarrow> nat \<Rightarrow> nat \<Rightarrow> 'a list" where
  "subrange xs a b = take (b - a) (drop a xs)"

lemma subrange_append [simp]: "b \<le> length xs \<Longrightarrow> subrange (xs @ ys) a b = subrange xs a b"
  by (simp add: subrange_def)

lemma length_subrange [simp]: "b \<le> length xs \<Longrightarrow> length (subrange xs a b) = b - a"
  by (simp add: subrange_def)

lemma subrange_all: "subrange xs 0 (length xs) = xs"
  by (simp add: subrange_def)

lemma subrange_join:
  assumes "a \<le> b" and "b \<le> c"
  shows "subrange xs a b @ subrange xs b c = subrange xs a c"
proof -
  obtain i where i: "b = a + i" using assms(1) le_Suc_ex by blast
  obtain j where j: "c = a + i + j" using assms(2) i le_Suc_ex by blast
  show ?thesis by (simp add: subrange_def i j take_add add.commute)
qed

lemma subrange_one: "a < length xs \<Longrightarrow> subrange xs a (Suc a) = [xs ! a]"
  by (simp add: subrange_def hd_drop_conv_nth take_Suc)

lemma subrange_middle: "subrange (pre @ xs @ post) (length pre) (length pre + length xs) = xs"
  by (simp add: subrange_def)

lemma subrange_at:
  "d = pre @ xs @ post \<Longrightarrow> length pre = a \<Longrightarrow> a + length xs = b \<Longrightarrow> subrange d a b = xs"
  using subrange_middle by blast

lemma drop_subrange:
  assumes "a \<le> b"
  shows "drop a xs = subrange xs a b @ drop b xs"
proof -
  obtain i where i: "b = a + i" using assms le_Suc_ex by blast
  have "drop b xs = drop i (drop a xs)" by (simp add: i add.commute)
  then show ?thesis by (simp only: subrange_def i append_take_drop_id add_diff_cancel_left')
qed

text \<open>
  The loop \<open>while let Some(x) = parse(&buf)? { ...; buf.drain(..x.consumed) }\<close>: the values in order, the
  error that ends it if any, and the bytes left. It stops at a parser that uses no bytes, which none
  of the parsers below does.
\<close>

function drain :: "('e, 'a) parser \<Rightarrow> bytes \<Rightarrow> 'a list \<times> 'e option \<times> bytes" where
  "drain parse buf =
     (case parse buf of
        Inl e \<Rightarrow> ([], Some e, buf)
      | Inr None \<Rightarrow> ([], None, buf)
      | Inr (Some (x, n)) \<Rightarrow>
          if 0 < n \<and> buf \<noteq> [] then (case drain parse (drop n buf) of (xs, r) \<Rightarrow> (x # xs, r))
          else ([], None, buf))"
  by pat_completeness auto
termination
  by (relation "measure (\<lambda>(p, b). length b)") auto

declare drain.simps [simp del]

text \<open>Running the loop after every piece that arrives, until an error.\<close>

fun drain_pieces :: "('e, 'a) parser \<Rightarrow> bytes \<Rightarrow> bytes list \<Rightarrow> 'a list \<times> 'e option \<times> bytes" where
  "drain_pieces parse buf [] = drain parse buf"
| "drain_pieces parse buf (p # ps) =
     (case drain parse buf of
        (xs, Some e, r) \<Rightarrow> (xs, Some e, r)
      | (xs, None, r) \<Rightarrow> (case drain_pieces parse (r @ p) ps of (ys, r') \<Rightarrow> (xs @ ys, r')))"

locale incremental =
  fixes parse :: "('e, 'a) parser"
  assumes reject_stable: "parse d = Inl e \<Longrightarrow> parse (d @ m) = Inl e"
    and accept_stable: "parse d = Inr (Some y) \<Longrightarrow> parse (d @ m) = Inr (Some y)"
    and progress: "parse d = Inr (Some (x, n)) \<Longrightarrow> 0 < n \<and> n \<le> length d"
begin

lemma drain_step:
  "parse d = Inr (Some (x, n)) \<Longrightarrow> drain parse d = (case drain parse (drop n d) of (xs, r) \<Rightarrow> (x # xs, r))"
  using progress [of d x n] by (subst drain.simps) auto

lemma drain_more:
  "drain parse d = (xs, None, r) \<Longrightarrow>
     drain parse (d @ m) = (case drain parse (r @ m) of (ys, q) \<Rightarrow> (xs @ ys, q))"
proof (induction d arbitrary: xs rule: measure_induct_rule [where f = length])
  case (less d)
  show ?case
  proof (cases "\<exists>x n. parse d = Inr (Some (x, n))")
    case True
    then obtain x n where p: "parse d = Inr (Some (x, n))" by blast
    note n = progress [OF p]
    obtain ys where ys: "drain parse (drop n d) = (ys, None, r)" "xs = x # ys"
      using less.prems drain_step [OF p] by (auto split: prod.splits)
    have "drain parse (drop n d @ m) = (case drain parse (r @ m) of (zs, q) \<Rightarrow> (ys @ zs, q))"
      by (rule less.IH [OF _ ys(1)]) (use n in auto)
    then show ?thesis
      using drain_step [OF accept_stable [OF p]] n ys(2) by (simp split: prod.splits)
  next
    case False
    then have "xs = [] \<and> r = d"
      using less.prems drain.simps [of parse d] by (auto split: sum.splits option.splits)
    then show ?thesis by simp
  qed
qed

lemma drain_error:
  "drain parse d = (xs, Some e, r) \<Longrightarrow> drain parse (d @ m) = (xs, Some e, r @ m)"
proof (induction d arbitrary: xs rule: measure_induct_rule [where f = length])
  case (less d)
  show ?case
  proof (cases "parse d")
    case (Inl e')
    then show ?thesis
      using less.prems drain.simps [of parse d] drain.simps [of parse "d @ m"] reject_stable [OF Inl] by simp
  next
    case (Inr y)
    then obtain x n where p: "parse d = Inr (Some (x, n))"
      using less.prems drain.simps [of parse d] by (auto split: option.splits)
    note n = progress [OF p]
    obtain ys where ys: "drain parse (drop n d) = (ys, Some e, r)" "xs = x # ys"
      using less.prems drain_step [OF p] by (auto split: prod.splits)
    have "drain parse (drop n d @ m) = (ys, Some e, r @ m)"
      by (rule less.IH [OF _ ys(1)]) (use n in auto)
    then show ?thesis
      using drain_step [OF accept_stable [OF p]] n ys(2) by simp
  qed
qed

text \<open>However the bytes are cut, the same values come out, and the same error.\<close>

lemma drain_pieces_whole:
  "fst (drain_pieces parse buf ps) = fst (drain parse (buf @ concat ps))"
  "fst (snd (drain_pieces parse buf ps)) = fst (snd (drain parse (buf @ concat ps)))"
  "fst (snd (drain_pieces parse buf ps)) = None \<Longrightarrow>
     snd (snd (drain_pieces parse buf ps)) = snd (snd (drain parse (buf @ concat ps)))"
proof -
  have "case drain parse (buf @ concat ps) of (xs, e, r) \<Rightarrow>
      (\<exists>r'. drain_pieces parse buf ps = (xs, e, r') \<and> (e = None \<longrightarrow> r' = r))"
  proof (induction ps arbitrary: buf)
    case Nil
    show ?case by (simp split: prod.splits)
  next
    case (Cons p ps)
    obtain xs e r where d: "drain parse buf = (xs, e, r)" by (metis prod_cases3)
    show ?case
    proof (cases e)
      case None
      have "drain parse (buf @ concat (p # ps))
          = (case drain parse ((r @ p) @ concat ps) of (ys, q) \<Rightarrow> (xs @ ys, q))"
        using drain_more [OF d [unfolded None], of "concat (p # ps)"] by simp
      then show ?thesis
        using Cons.IH [of "r @ p"] d None by (auto split: prod.splits)
    next
      case (Some e')
      then show ?thesis
        using drain_error [OF d [unfolded Some], of "concat (p # ps)"] d by simp
    qed
  qed
  moreover obtain xs e r where d: "drain parse (buf @ concat ps) = (xs, e, r)" by (metis prod_cases3)
  ultimately obtain r' where "drain_pieces parse buf ps = (xs, e, r')" and "e = None \<longrightarrow> r' = r"
    by auto
  with d show "fst (drain_pieces parse buf ps) = fst (drain parse (buf @ concat ps))"
    "fst (snd (drain_pieces parse buf ps)) = fst (snd (drain parse (buf @ concat ps)))"
    "fst (snd (drain_pieces parse buf ps)) = None \<Longrightarrow>
     snd (snd (drain_pieces parse buf ps)) = snd (snd (drain parse (buf @ concat ps)))"
    by simp_all
qed

end

end
