(* ===== verification/Trojan.thy ===== *)
theory Trojan
  imports Protocol Uuid Anytls_Codec Incremental
begin

text \<open>
  The Trojan inbound: \<open>server/src/trojan.rs\<close> (the request head, the UDP packet format) and
  \<open>server/src/handler/trojan_handler.rs\<close> (the configured passwords, the fallback, the UDP relay). SHA-224
  (crate \<open>sha2\<close>) is a parameter.
\<close>

section \<open>Types\<close>

record TrojanPasswordEntry =
  tp_hash :: bytes
  tp_email :: "rstr option"

datatype TrojanCommand = TrConnect | TrUdpAssociate

record TrojanRequest =
  tr_command :: TrojanCommand
  tr_address :: Address
  tr_port :: Port
  tr_initial_data :: bytes
  tr_email :: "rstr option"

record TrojanUdpPacket =
  tu_address :: Address
  tu_port :: Port
  tu_payload :: bytes
  tu_consumed :: nat

datatype TrojanError =
    TrIo io_error | TrTls rstr | TrInvalidRequest | TrAuthFailed | TrUnsupportedCommand u8
  | TrRequestHeadTooLarge | TrUnexpectedEof

record TrojanAcceptError =
  ta_error :: TrojanError
  ta_buffered_data :: bytes

definition TrojanCommand_from_byte :: "u8 \<Rightarrow> TrojanError + TrojanCommand" where
  "TrojanCommand_from_byte b =
     (if b = 1 then Inr TrConnect else if b = 3 then Inr TrUdpAssociate
      else Inl (TrUnsupportedCommand b))"

section \<open>Passwords\<close>

definition lower_hex_digit :: "u8 \<Rightarrow> u8" where
  "lower_hex_digit nibble = (if nibble \<le> 9 then 0x30 + nibble else 0x61 + (nibble - 10))"

definition password_hash_hex :: "(bytes \<Rightarrow> bytes) \<Rightarrow> rstr \<Rightarrow> bytes" where
  "password_hash_hex sha224 password =
     concat (map (\<lambda>b. [lower_hex_digit (drop_bit 4 b), lower_hex_digit (b AND 0x0f)]) (sha224 password))"

definition is_ascii_hexdigit :: "u8 \<Rightarrow> bool" where
  "is_ascii_hexdigit b \<longleftrightarrow>
     (0x30 \<le> b \<and> b \<le> 0x39) \<or> (0x61 \<le> b \<and> b \<le> 0x66) \<or> (0x41 \<le> b \<and> b \<le> 0x46)"

definition has_non_hex_password_prefix :: "bytes \<Rightarrow> bool" where
  "has_non_hex_password_prefix data \<longleftrightarrow> list_ex (\<lambda>b. \<not> is_ascii_hexdigit b) (take 56 data)"

definition hash_eq_ignore_ascii_case :: "bytes \<Rightarrow> bytes \<Rightarrow> bool" where
  "hash_eq_ignore_ascii_case received expected \<longleftrightarrow>
     hash_acc 0 (map ascii_lower (take 56 received)) (take 56 expected) = 0"

section \<open>Addresses\<close>

text \<open>The position after the address is returned with it.\<close>

definition parse_socks5_address :: "bytes \<Rightarrow> nat \<Rightarrow> u8 \<Rightarrow> TrojanError + (Address \<times> nat) option" where
  "parse_socks5_address data pos address_type =
     (if address_type = 1 then
        (if length data < pos + 4 then Inr None
         else Inr (Some (IPv4 (subrange data pos (pos + 4)), pos + 4)))
      else if address_type = 3 then
        (if length data < pos + 1 then Inr None
         else let len = unat (data ! pos); pos = pos + 1 in
           if len = 0 then Inl TrInvalidRequest
           else if length data < pos + len then Inr None
           else (case from_utf8 (subrange data pos (pos + len)) of
                   None \<Rightarrow> Inl TrInvalidRequest
                 | Some domain \<Rightarrow> Inr (Some (Domain domain, pos + len))))
      else if address_type = 4 then
        (if length data < pos + 16 then Inr None
         else Inr (Some (IPv6 (subrange data pos (pos + 16)), pos + 16)))
      else Inl TrInvalidRequest)"

fun write_socks5_address :: "bytes \<Rightarrow> Address \<Rightarrow> TrojanError + bytes" where
  "write_socks5_address out (IPv4 octets) = Inr (out @ [1] @ octets)"
| "write_socks5_address out (Domain domain) =
     (if length domain > 255 then Inl TrInvalidRequest
      else Inr (out @ [3, word_of_nat (length domain)] @ domain))"
| "write_socks5_address out (IPv6 octets) = Inr (out @ [4] @ octets)"

section \<open>The request head\<close>

abbreviation CRLF :: bytes where
  "CRLF \<equiv> [0x0d, 0x0a]"

text \<open>What follows the address: the port, a line end, and the client's first data.\<close>

definition parse_request_end ::
  "bytes \<Rightarrow> TrojanCommand \<Rightarrow> rstr option \<Rightarrow> Address \<Rightarrow> nat \<Rightarrow> TrojanError + TrojanRequest option" where
  "parse_request_end data cmd em addr pos =
     (if length data < pos + 4 then Inr None
      else let port = u16_of_be (subrange data pos (pos + 2)) in
        if port = 0 \<and> cmd = TrConnect then Inl TrInvalidRequest
        else if subrange data (pos + 2) (pos + 4) \<noteq> CRLF then Inl TrInvalidRequest
        else Inr (Some \<lparr>tr_command = cmd, tr_address = addr, tr_port = Port port,
                        tr_initial_data = drop (pos + 4) data, tr_email = em\<rparr>))"

definition parse_request :: "TrojanPasswordEntry list \<Rightarrow> bytes \<Rightarrow> TrojanError + TrojanRequest option" where
  "parse_request passwords data =
     (if has_non_hex_password_prefix data then Inl TrInvalidRequest
      else if length data < 58 then Inr None
      else if subrange data 56 58 \<noteq> CRLF then Inl TrInvalidRequest
      else bindr (ok_or TrAuthFailed
          (find (\<lambda>entry. hash_eq_ignore_ascii_case (take 56 data) (tp_hash entry)) passwords)) (\<lambda>matched.
        if length data < 60 then Inr None
        else bindr (TrojanCommand_from_byte (data ! 58)) (\<lambda>command.
          bindr (parse_socks5_address data 60 (data ! 59)) (\<lambda>r. case r of
            None \<Rightarrow> Inr None
          | Some (addr, pos) \<Rightarrow> parse_request_end data command (tp_email matched) addr pos))))"

text \<open>
  \<open>read_request\<close> on the outcomes of its \<open>read\<close> calls: each is an error or the bytes read, none of them
  being end of file, as is the end of the list.
\<close>

fun read_request_loop ::
  "TrojanPasswordEntry list \<Rightarrow> bytes \<Rightarrow> (io_error + bytes) list \<Rightarrow>
     (TrojanAcceptError + TrojanRequest) \<times> (io_error + bytes) list" where
  "read_request_loop passwords data evs =
     (case parse_request passwords data of
        Inr (Some request) \<Rightarrow> (Inr request, evs)
      | Inl e \<Rightarrow> (Inl \<lparr>ta_error = e, ta_buffered_data = data\<rparr>, evs)
      | Inr None \<Rightarrow>
          if length data \<ge> 8192 then (Inl \<lparr>ta_error = TrRequestHeadTooLarge, ta_buffered_data = data\<rparr>, evs)
          else (case evs of
            [] \<Rightarrow> (Inl \<lparr>ta_error = TrUnexpectedEof, ta_buffered_data = data\<rparr>, [])
          | Inr buf # evs' \<Rightarrow>
              if buf = [] then (Inl \<lparr>ta_error = TrUnexpectedEof, ta_buffered_data = data\<rparr>, evs')
              else read_request_loop passwords (data @ buf) evs'
          | Inl e # evs' \<Rightarrow>
              if e = WouldBlock \<or> e = TimedOut then read_request_loop passwords data evs'
              else (Inl \<lparr>ta_error = TrIo e, ta_buffered_data = data\<rparr>, evs')))"

declare read_request_loop.simps [simp del]

definition read_request ::
  "TrojanPasswordEntry list \<Rightarrow> (io_error + bytes) list \<Rightarrow>
     (TrojanAcceptError + TrojanRequest) \<times> (io_error + bytes) list" where
  "read_request passwords evs = read_request_loop passwords [] evs"

section \<open>UDP packets\<close>

definition parse_udp_packet_end :: "bytes \<Rightarrow> Address \<Rightarrow> nat \<Rightarrow> TrojanError + TrojanUdpPacket option" where
  "parse_udp_packet_end data addr pos =
     (if length data < pos + 6 then Inr None
      else let port = u16_of_be (subrange data pos (pos + 2)) in
        if port = 0 then Inl TrInvalidRequest
        else let payload_len = unat (u16_of_be (subrange data (pos + 2) (pos + 4))) in
          if subrange data (pos + 4) (pos + 6) \<noteq> CRLF then Inl TrInvalidRequest
          else if length data < pos + 6 + payload_len then Inr None
          else Inr (Some \<lparr>tu_address = addr, tu_port = Port port,
                          tu_payload = subrange data (pos + 6) (pos + 6 + payload_len),
                          tu_consumed = pos + 6 + payload_len\<rparr>))"

definition parse_udp_packet :: "bytes \<Rightarrow> TrojanError + TrojanUdpPacket option" where
  "parse_udp_packet data =
     (if data = [] then Inr None
      else bindr (parse_socks5_address data 1 (data ! 0)) (\<lambda>r. case r of
        None \<Rightarrow> Inr None
      | Some (addr, pos) \<Rightarrow> parse_udp_packet_end data addr pos))"

fun write_udp_packet :: "bytes \<Rightarrow> Address \<Rightarrow> Port \<Rightarrow> bytes \<Rightarrow> TrojanError + bytes" where
  "write_udp_packet out addr (Port prt) payload =
     (if prt = 0 \<or> length payload > 65535 then Inl TrInvalidRequest
      else bindr (write_socks5_address out addr) (\<lambda>out.
        Inr (out @ u16_be prt @ u16_be (word_of_nat (length payload)) @ CRLF @ payload)))"

section \<open>The handler\<close>

record TrojanUserConfig =
  tuc_email :: rstr
  tuc_password :: rstr

text \<open>The entries that \<open>parse_trojan_config\<close> collects; its TLS part is rustls's.\<close>

definition trojan_passwords ::
  "(bytes \<Rightarrow> bytes) \<Rightarrow> rstr option \<Rightarrow> TrojanUserConfig list \<Rightarrow> TrojanPasswordEntry list" where
  "trojan_passwords sha224 password users =
     (case password of None \<Rightarrow> []
      | Some p \<Rightarrow> [\<lparr>tp_hash = password_hash_hex sha224 p, tp_email = None\<rparr>])
     @ map (\<lambda>u. \<lparr>tp_hash = password_hash_hex sha224 (tuc_password u), tp_email = Some (tuc_email u)\<rparr>) users"

text \<open>What \<open>handle_trojan_connection\<close> does with the outcome of \<open>read_request\<close>.\<close>

datatype TrojanAction =
    TrojanFallback rstr bytes
  | TrojanFail TrojanError
  | TrojanUdpRelay bytes "rstr option"
  | TrojanTcpRelay Address Port bytes "rstr option"

definition handle_trojan_connection ::
  "rstr option \<Rightarrow> TrojanPasswordEntry list \<Rightarrow> (io_error + bytes) list \<Rightarrow> TrojanAction \<times> (io_error + bytes) list" where
  "handle_trojan_connection dest passwords evs =
     (case read_request passwords evs of
        (Inl accept_err, rest) \<Rightarrow>
          ((case dest of
              Some d \<Rightarrow> TrojanFallback d (ta_buffered_data accept_err)
            | None \<Rightarrow> TrojanFail (ta_error accept_err)), rest)
      | (Inr request, rest) \<Rightarrow>
          (if tr_command request = TrUdpAssociate
           then TrojanUdpRelay (tr_initial_data request) (tr_email request)
           else TrojanTcpRelay (tr_address request) (tr_port request) (tr_initial_data request) (tr_email request),
           rest))"

section \<open>Basic facts\<close>

lemma parse_socks5_address_append:
  assumes "parse_socks5_address d pos ty = r" and "r \<noteq> Inr None"
  shows "parse_socks5_address (d @ m) pos ty = r"
  using assms
  by (auto simp: parse_socks5_address_def Let_def nth_append split: if_splits option.splits)

lemma parse_socks5_address_sound:
  assumes "parse_socks5_address d pos ty = Inr (Some (a, p))"
  shows "pos \<le> p" and "p \<le> length d" and "p \<le> pos + 256" and "wf_address a" and "a \<noteq> Domain []"
    and "write_socks5_address out a = Inr (out @ ty # subrange d pos p)"
proof -
  have dom: "write_socks5_address out (Domain (subrange d (Suc pos) (Suc (pos + n))))
      = Inr (out @ 3 # subrange d pos (Suc (pos + n)))"
    if "n = unat (d ! pos)" "\<not> length d < Suc (pos + n)" for n
  proof -
    have "subrange d pos (Suc (pos + n)) = [d ! pos] @ subrange d (Suc pos) (Suc (pos + n))"
      using that subrange_join [of pos "Suc pos" "Suc (pos + n)" d] subrange_one [of pos d] by simp
    moreover have "n \<le> 255" using that(1) by simp
    ultimately show ?thesis using that by (simp add: not_less)
  qed
  show "pos \<le> p" and "p \<le> length d" and "p \<le> pos + 256" and "wf_address a" and "a \<noteq> Domain []"
    and "write_socks5_address out a = Inr (out @ ty # subrange d pos p)"
    using assms dom
    by (auto simp: parse_socks5_address_def Let_def from_utf8_def not_less split: if_splits option.splits)
      (auto simp: subrange_def)
qed

lemma parse_socks5_address_None:
  "parse_socks5_address d pos ty = Inr None \<Longrightarrow> length d < pos + 256"
  using unat_u8_le [of "d ! pos"]
  by (auto simp: parse_socks5_address_def Let_def split: if_splits option.splits simp del: unat_u8_le)

lemma parse_socks5_address_complete:
  assumes "write_socks5_address [] a = Inr (ty # body)" and "wf_address a" and "a \<noteq> Domain []"
  shows "parse_socks5_address (pre @ body @ post) (length pre) ty = Inr (Some (a, length pre + length body))"
proof (cases a)
  case (IPv4 ip)
  then show ?thesis using assms subrange_middle [of pre body post] by (simp add: parse_socks5_address_def)
next
  case (IPv6 ip)
  then show ?thesis using assms subrange_middle [of pre body post] by (simp add: parse_socks5_address_def)
next
  case (Domain dom)
  then have b: "ty = 3" "body = word_of_nat (length dom) # dom" "length dom \<le> 255"
    using assms(1) by (auto split: if_splits)
  then have "unat ((pre @ body @ post) ! length pre) = length dom"
    by (simp add: nth_append unat_of_nat_u8)
  moreover have "subrange (pre @ body @ post) (Suc (length pre)) (Suc (length pre + length dom)) = dom"
    using subrange_middle [of "pre @ [word_of_nat (length dom)]" dom post] b by simp
  ultimately show ?thesis
    using Domain assms b by (simp add: parse_socks5_address_def from_utf8_def)
qed

section \<open>The request head\<close>

text \<open>The head without its end: the matched entry, the command, and the address if it is complete.\<close>

lemma parse_request_split:
  "parse_request passwords d =
     (if has_non_hex_password_prefix d then Inl TrInvalidRequest
      else if length d < 58 then Inr None
      else if subrange d 56 58 \<noteq> CRLF then Inl TrInvalidRequest
      else (case find (\<lambda>entry. hash_eq_ignore_ascii_case (take 56 d) (tp_hash entry)) passwords of
        None \<Rightarrow> Inl TrAuthFailed
      | Some matched \<Rightarrow>
        if length d < 60 then Inr None
        else (case TrojanCommand_from_byte (d ! 58) of
          Inl e \<Rightarrow> Inl e
        | Inr cmd \<Rightarrow> (case parse_socks5_address d 60 (d ! 59) of
            Inl e \<Rightarrow> Inl e
          | Inr None \<Rightarrow> Inr None
          | Inr (Some x) \<Rightarrow> parse_request_end d cmd (tp_email matched) (fst x) (snd x)))))"
  by (simp add: parse_request_def bindr_def ok_or_def case_prod_unfold split: option.splits sum.splits)

lemma parse_request_end_append:
  assumes "parse_request_end d c em a p = r" and "r \<noteq> Inr None"
  shows "parse_request_end (d @ m) c em a p =
    map_sum id (map_option (\<lambda>q. q\<lparr>tr_initial_data := tr_initial_data q @ m\<rparr>)) r"
  using assms by (auto simp: parse_request_end_def Let_def split: if_splits)

lemma parse_request_append:
  assumes "parse_request passwords d = r" and "r \<noteq> Inr None"
  shows "parse_request passwords (d @ m) =
    map_sum id (map_option (\<lambda>q. q\<lparr>tr_initial_data := tr_initial_data q @ m\<rparr>)) r"
proof (cases "has_non_hex_password_prefix d \<or> length d < 60")
  case True
  then show ?thesis
    using assms by (auto simp: parse_request_split has_non_hex_password_prefix_def split: if_splits option.splits)
next
  case False
  then have "\<not> has_non_hex_password_prefix (d @ m)" by (simp add: has_non_hex_password_prefix_def)
  moreover have "parse_socks5_address (d @ m) 60 (d ! 59) = parse_socks5_address d 60 (d ! 59)
      \<or> parse_socks5_address d 60 (d ! 59) = Inr None"
    using parse_socks5_address_append by blast
  ultimately show ?thesis
    using assms False
    by (auto simp: parse_request_split nth_append parse_request_end_append split: if_splits option.splits sum.splits)
qed

lemma parse_request_None:
  assumes "parse_request passwords d = Inr None"
  shows "length d < 320"
proof -
  have "length d < 320" if "parse_socks5_address d 60 ty = Inr (Some (a, p))" "length d < p + 4" for ty a p
    using parse_socks5_address_sound(3) [OF that(1)] that(2) by simp
  moreover have "length d < 320" if "parse_socks5_address d 60 ty = Inr None" for ty
    using parse_socks5_address_None [OF that] by simp
  ultimately show ?thesis
    using assms by (auto simp: parse_request_split parse_request_end_def Let_def
        split: if_splits option.splits sum.splits)
qed

text \<open>The bytes that a list of reads delivers; reads that neither fail for good nor end the stream.\<close>

definition evs_bytes :: "(io_error + bytes) list \<Rightarrow> bytes" where
  "evs_bytes evs = concat (map (case_sum (\<lambda>_. []) id) evs)"

definition benign :: "(io_error + bytes) list \<Rightarrow> bool" where
  "benign evs \<longleftrightarrow> list_all (case_sum (\<lambda>e. e = WouldBlock \<or> e = TimedOut) (\<lambda>b. b \<noteq> [])) evs"

definition loop_outcome ::
  "TrojanPasswordEntry list \<Rightarrow> bytes \<Rightarrow> (TrojanAcceptError + TrojanRequest) \<times> (io_error + bytes) list \<Rightarrow> bool" where
  "loop_outcome passwords stream res \<longleftrightarrow>
     (case parse_request passwords stream of
        Inr (Some r) \<Rightarrow> (\<exists>d. fst res = Inr (r\<lparr>tr_initial_data := d\<rparr>) \<and> d @ evs_bytes (snd res) = tr_initial_data r)
      | Inr None \<Rightarrow> res = (Inl \<lparr>ta_error = TrUnexpectedEof, ta_buffered_data = stream\<rparr>, [])
      | Inl e \<Rightarrow> (\<exists>d. fst res = Inl \<lparr>ta_error = e, ta_buffered_data = d\<rparr> \<and> d @ evs_bytes (snd res) = stream))"

lemma read_request_loop_outcome:
  "benign evs \<Longrightarrow> loop_outcome passwords (data @ evs_bytes evs) (read_request_loop passwords data evs)"
proof (induction evs arbitrary: data)
  case Nil
  have "parse_request passwords data = Inr None \<Longrightarrow> \<not> 8192 \<le> length data"
    using parse_request_None [of passwords data] by auto
  then show ?case
    by (subst read_request_loop.simps)
      (auto simp: loop_outcome_def evs_bytes_def split: sum.splits option.splits)
next
  case (Cons ev evs)
  show ?case
  proof (cases "parse_request passwords data = Inr None")
    case True
    then have "\<not> 8192 \<le> length data" using parse_request_None [of passwords data] by auto
    then have "read_request_loop passwords data (ev # evs)
        = read_request_loop passwords (data @ case_sum (\<lambda>_. []) id ev) evs"
      using True Cons.prems by (subst read_request_loop.simps) (auto simp: benign_def split: sum.splits)
    then show ?thesis
      using Cons.IH [of "data @ case_sum (\<lambda>_. []) id ev"] Cons.prems by (simp add: benign_def evs_bytes_def)
  next
    case False
    then show ?thesis
      using parse_request_append [OF refl False, of "evs_bytes (ev # evs)"]
      by (subst read_request_loop.simps) (auto simp: loop_outcome_def split: sum.splits option.splits)
  qed
qed

text \<open>
  C34: what the server makes of a Trojan head depends on the client's bytes only, not on how TLS
  cuts them into reads or how often a read times out. An accepted request is that of the whole
  stream, and its first data with the reads not yet made are all that follows the head; a rejected
  one hands every byte to the fallback, those buffered and those not yet read; an unfinished one ends
  with the end of the stream. The limit on the head is never what ends the loop.
\<close>

theorem trojan_read_request_cut:
  assumes "benign evs"
  shows "case parse_request passwords (evs_bytes evs) of
      Inr (Some r) \<Rightarrow> (\<exists>d rest. read_request passwords evs = (Inr (r\<lparr>tr_initial_data := d\<rparr>), rest)
                             \<and> d @ evs_bytes rest = tr_initial_data r)
    | Inr None \<Rightarrow> read_request passwords evs
                     = (Inl \<lparr>ta_error = TrUnexpectedEof, ta_buffered_data = evs_bytes evs\<rparr>, [])
    | Inl e \<Rightarrow> (\<exists>d rest. read_request passwords evs = (Inl \<lparr>ta_error = e, ta_buffered_data = d\<rparr>, rest)
                      \<and> d @ evs_bytes rest = evs_bytes evs)"
proof -
  obtain r rest where rr: "read_request passwords evs = (r, rest)" by fastforce
  with read_request_loop_outcome [OF assms, of passwords "[]"] show ?thesis
    by (auto simp: loop_outcome_def read_request_def split: sum.splits option.splits)
qed

subsection \<open>Exactly the well-formed, authenticated heads\<close>

fun trojan_command_byte :: "TrojanCommand \<Rightarrow> u8" where
  "trojan_command_byte TrConnect = 1"
| "trojan_command_byte TrUdpAssociate = 3"

lemma from_byte_iff: "TrojanCommand_from_byte b = Inr c \<longleftrightarrow> b = trojan_command_byte c"
  by (cases c) (auto simp: TrojanCommand_from_byte_def)

lemma hash_eq_iff:
  "length r = 56 \<Longrightarrow> length e = 56 \<Longrightarrow> hash_eq_ignore_ascii_case r e \<longleftrightarrow> e = to_ascii_lowercase r"
  by (auto simp: hash_eq_ignore_ascii_case_def hash_acc_zero to_ascii_lowercase_def)

lemma find_hash:
  assumes "list_all (\<lambda>e. length (tp_hash e) = 56) passwords" and "length h = 56"
  shows "find (\<lambda>e. hash_eq_ignore_ascii_case h (tp_hash e)) passwords
    = find (\<lambda>e. tp_hash e = to_ascii_lowercase h) passwords"
  using assms by (induction passwords) (simp_all add: hash_eq_iff)

lemma parse_request_end_iff:
  assumes "p \<le> length d"
  shows "parse_request_end d c em a p = Inr (Some r) \<longleftrightarrow>
    (\<exists>q. tr_port r = Port q \<and> tr_command r = c \<and> tr_address r = a \<and> tr_email r = em
      \<and> (q = 0 \<longrightarrow> c = TrUdpAssociate) \<and> drop p d = u16_be q @ CRLF @ tr_initial_data r)"
    (is "?l \<longleftrightarrow> ?r")
proof
  assume ?l
  then have l: "p + 4 \<le> length d" and "subrange d (p + 2) (p + 4) = CRLF"
    by (auto simp: parse_request_end_def Let_def split: if_splits)
  then have "drop p d = u16_be (u16_of_be (subrange d p (p + 2))) @ CRLF @ drop (p + 4) d"
    using drop_subrange [of p "p + 2" d] drop_subrange [of "p + 2" "p + 4" d] u16_be_of_be by simp
  with \<open>?l\<close> l show ?r
    by (cases c) (auto simp: parse_request_end_def Let_def split: if_splits)
next
  assume ?r
  then obtain q where r: "tr_port r = Port q" "tr_command r = c" "tr_address r = a" "tr_email r = em"
    "q = 0 \<longrightarrow> c = TrUdpAssociate" and d: "drop p d = u16_be q @ CRLF @ tr_initial_data r" by blast
  have "d = take p d @ u16_be q @ CRLF @ tr_initial_data r" using d by (metis append_take_drop_id)
  moreover have "length (take p d) = p" using assms by simp
  ultimately obtain x where x: "d = x @ u16_be q @ CRLF @ tr_initial_data r" "length x = p" by metis
  have "subrange d p (p + 2) = u16_be q" "subrange d (p + 2) (p + 4) = CRLF"
    "drop (p + 4) d = tr_initial_data r"
    using x(2) by (simp_all add: x(1) subrange_def)
  moreover have "p + 4 \<le> length d" using x by simp
  ultimately show ?l using r by (simp add: parse_request_end_def Let_def)
qed

lemma parse_request_Some:
  "parse_request passwords d = Inr (Some r) \<longleftrightarrow>
     60 \<le> length d \<and> list_all is_ascii_hexdigit (take 56 d) \<and> subrange d 56 58 = CRLF
     \<and> (\<exists>entry a p. find (\<lambda>e. hash_eq_ignore_ascii_case (take 56 d) (tp_hash e)) passwords = Some entry
       \<and> d ! 58 = trojan_command_byte (tr_command r)
       \<and> parse_socks5_address d 60 (d ! 59) = Inr (Some (a, p))
       \<and> parse_request_end d (tr_command r) (tp_email entry) a p = Inr (Some r))"
proof -
  have hex: "has_non_hex_password_prefix d \<longleftrightarrow> \<not> list_all is_ascii_hexdigit (take 56 d)"
    by (auto simp: has_non_hex_password_prefix_def list_ex_iff list_all_iff)
  have cmd: "parse_request_end d c em a p = Inr (Some r) \<Longrightarrow> tr_command r = c" for c em a p
    by (auto simp: parse_request_end_def Let_def split: if_splits)
  show ?thesis
    by (auto simp: parse_request_split hex from_byte_iff [symmetric] dest: cmd
        split: if_splits option.splits sum.splits)
qed

definition trojan_head ::
  "TrojanPasswordEntry list \<Rightarrow> TrojanRequest \<Rightarrow> bytes \<Rightarrow> TrojanPasswordEntry \<Rightarrow> bytes \<Rightarrow> u16 \<Rightarrow> bool" where
  "trojan_head passwords r hash entry body p \<longleftrightarrow> length hash = 56 \<and> list_all is_ascii_hexdigit hash
      \<and> find (\<lambda>e. tp_hash e = to_ascii_lowercase hash) passwords = Some entry
      \<and> tr_email r = tp_email entry \<and> tr_port r = Port p \<and> (p = 0 \<longrightarrow> tr_command r = TrUdpAssociate)
      \<and> wf_address (tr_address r) \<and> tr_address r \<noteq> Domain []
      \<and> write_socks5_address [] (tr_address r) = Inr body"

lemma parse_request_sound:
  assumes "list_all (\<lambda>e. length (tp_hash e) = 56) passwords"
    and "parse_request passwords data = Inr (Some r)"
  shows "\<exists>hash entry body p. trojan_head passwords r hash entry body p
    \<and> data = hash @ CRLF @ [trojan_command_byte (tr_command r)] @ body @ u16_be p @ CRLF @ tr_initial_data r"
proof -
  obtain entry a p where l: "60 \<le> length data" and hex: "list_all is_ascii_hexdigit (take 56 data)"
    and crlf: "subrange data 56 58 = CRLF"
    and f: "find (\<lambda>e. hash_eq_ignore_ascii_case (take 56 data) (tp_hash e)) passwords = Some entry"
    and c: "data ! 58 = trojan_command_byte (tr_command r)"
    and a: "parse_socks5_address data 60 (data ! 59) = Inr (Some (a, p))"
    and e: "parse_request_end data (tr_command r) (tp_email entry) a p = Inr (Some r)"
    using assms(2) unfolding parse_request_Some by blast
  note sound = parse_socks5_address_sound [OF a]
  from e obtain q where r: "tr_port r = Port q" "tr_address r = a" "tr_email r = tp_email entry"
    "q = 0 \<longrightarrow> tr_command r = TrUdpAssociate" and d: "drop p data = u16_be q @ CRLF @ tr_initial_data r"
    unfolding parse_request_end_iff [OF sound(2)] by blast
  have d1: "drop 56 data = CRLF @ drop 58 data"
    using drop_subrange [of 56 58 data] crlf by simp
  have d2: "drop 58 data = trojan_command_byte (tr_command r) # data ! 59 # drop 60 data"
    using Cons_nth_drop_Suc [of 58 data] Cons_nth_drop_Suc [of 59 data] l c by simp
  have d3: "drop 60 data = subrange data 60 p @ drop p data"
    using drop_subrange [OF sound(1)] .
  have "data = take 56 data @ drop 56 data" by simp
  then have "data = take 56 data @ CRLF @ [trojan_command_byte (tr_command r)]
      @ (data ! 59 # subrange data 60 p) @ u16_be q @ CRLF @ tr_initial_data r"
    unfolding d1 d2 d3 d by simp
  moreover have "trojan_head passwords r (take 56 data) entry (data ! 59 # subrange data 60 p) q"
    using sound(4,5) sound(6) [of "[]"] r hex f l find_hash [OF assms(1), of "take 56 data"]
    by (simp add: trojan_head_def)
  ultimately show ?thesis by blast
qed

lemma parse_request_complete:
  assumes "list_all (\<lambda>e. length (tp_hash e) = 56) passwords" and "trojan_head passwords r h entry body q"
    and d: "data = h @ CRLF @ [trojan_command_byte (tr_command r)] @ body @ u16_be q @ CRLF @ tr_initial_data r"
  shows "parse_request passwords data = Inr (Some r)"
proof -
  have h: "length h = 56" "list_all is_ascii_hexdigit h"
    and f: "find (\<lambda>e. tp_hash e = to_ascii_lowercase h) passwords = Some entry"
    and r: "tr_email r = tp_email entry" "tr_port r = Port q" "q = 0 \<longrightarrow> tr_command r = TrUdpAssociate"
    and a: "wf_address (tr_address r)" "tr_address r \<noteq> Domain []"
    and w: "write_socks5_address [] (tr_address r) = Inr body"
    using assms(2) by (simp_all add: trojan_head_def)
  from w obtain ty b where b: "body = ty # b" by (cases "tr_address r") (auto split: if_splits)
  define pre where "pre = h @ CRLF @ [trojan_command_byte (tr_command r), ty]"
  have pre: "length pre = 60" "data = pre @ b @ u16_be q @ CRLF @ tr_initial_data r"
    using h d b by (simp_all add: pre_def)
  have "data ! 59 = ty" using h pre by (simp add: pre_def nth_append)
  then have p: "parse_socks5_address data 60 (data ! 59) = Inr (Some (tr_address r, 60 + length b))"
    using parse_socks5_address_complete [OF w [unfolded b] a, of pre "u16_be q @ CRLF @ tr_initial_data r"] pre
    by simp
  have "parse_request_end data (tr_command r) (tp_email entry) (tr_address r) (60 + length b) = Inr (Some r)"
    using pre r by (subst parse_request_end_iff) simp_all
  moreover have "take 56 data = h" "subrange data 56 58 = CRLF" "data ! 58 = trojan_command_byte (tr_command r)"
    "60 \<le> length data"
    using h pre by (simp_all add: pre_def subrange_def nth_append)
  ultimately show ?thesis
    unfolding parse_request_Some using p h f find_hash [OF assms(1) h(1)] by auto
qed

text \<open>
  The parser accepts exactly the complete heads of configured clients. The head is the
  hexadecimal hash of one of the passwords, in either case, a command, a non-empty address, a port
  that is not 0 for a connection, with line ends between; the request carries the email of the first
  matching entry and everything after the head.
\<close>

theorem trojan_request_iff:
  assumes "list_all (\<lambda>e. length (tp_hash e) = 56) passwords"
  shows "parse_request passwords data = Inr (Some r) \<longleftrightarrow>
    (\<exists>hash entry body p. length hash = 56 \<and> list_all is_ascii_hexdigit hash
      \<and> find (\<lambda>e. tp_hash e = to_ascii_lowercase hash) passwords = Some entry
      \<and> tr_email r = tp_email entry \<and> tr_port r = Port p \<and> (p = 0 \<longrightarrow> tr_command r = TrUdpAssociate)
      \<and> wf_address (tr_address r) \<and> tr_address r \<noteq> Domain []
      \<and> write_socks5_address [] (tr_address r) = Inr body
      \<and> data = hash @ CRLF @ [trojan_command_byte (tr_command r)] @ body @ u16_be p @ CRLF @ tr_initial_data r)"
  using parse_request_sound [OF assms] parse_request_complete [OF assms]
  unfolding trojan_head_def by blast

definition sample_entry :: TrojanPasswordEntry where
  "sample_entry = \<lparr>tp_hash = replicate 56 0x61, tp_email = Some (str ''a'')\<rparr>"

definition sample_head :: bytes where
  "sample_head = replicate 56 0x41 @ CRLF @ [1, 1, 127, 0, 0, 1, 0, 80] @ CRLF"

definition sample_trojan_request :: "bytes \<Rightarrow> TrojanRequest" where
  "sample_trojan_request d = \<lparr>tr_command = TrConnect, tr_address = IPv4 [127, 0, 0, 1], tr_port = Port 80,
     tr_initial_data = d, tr_email = Some (str ''a'')\<rparr>"

lemma sample_parse: "parse_request [sample_entry] (sample_head @ [7, 8, 9]) = Inr (Some (sample_trojan_request [7, 8, 9]))"
  by code_simp

theorem trojan_request_iff_witness:
  "list_all (\<lambda>e. length (tp_hash e) = 56) [sample_entry] \<and>
   (\<exists>hash entry body p. length hash = 56
      \<and> find (\<lambda>e. tp_hash e = to_ascii_lowercase hash) [sample_entry] = Some entry
      \<and> tr_port (sample_trojan_request [7, 8, 9]) = Port p
      \<and> write_socks5_address [] (tr_address (sample_trojan_request [7, 8, 9])) = Inr body
      \<and> sample_head @ [7, 8, 9]
          = hash @ CRLF @ [1] @ body @ u16_be p @ CRLF @ tr_initial_data (sample_trojan_request [7, 8, 9]))"
proof -
  have e: "list_all (\<lambda>e. length (tp_hash e) = 56) [sample_entry]" by (simp add: sample_entry_def)
  have c: "trojan_command_byte (tr_command (sample_trojan_request [7, 8, 9])) = 1" by (simp add: sample_trojan_request_def)
  show ?thesis
    using e iffD1 [OF trojan_request_iff [OF e] sample_parse] unfolding c by blast
qed

theorem trojan_read_request_cut_witness:
  "\<exists>d rest. read_request [sample_entry]
      [Inr (take 30 sample_head), Inl TimedOut, Inr (drop 30 sample_head @ [7]), Inr [8, 9]]
        = (Inr ((sample_trojan_request [7, 8, 9])\<lparr>tr_initial_data := d\<rparr>), rest) \<and> d @ evs_bytes rest = [7, 8, 9]"
proof -
  let ?evs = "[Inr (take 30 sample_head), Inl TimedOut, Inr (drop 30 sample_head @ [7]), Inr [8, 9]]"
  have "benign ?evs" by (simp add: benign_def sample_head_def)
  moreover have "evs_bytes ?evs = sample_head @ [7, 8, 9]"
    by (simp add: evs_bytes_def append_assoc [symmetric] del: append_assoc)
  moreover have "tr_initial_data (sample_trojan_request [7, 8, 9]) = [7, 8, 9]" by (simp add: sample_trojan_request_def)
  ultimately show ?thesis
    using trojan_read_request_cut [of ?evs "[sample_entry]"] sample_parse by simp
qed

section \<open>Only configured clients get through\<close>

lemma trojan_passwords_wf:
  "hash_len 28 sha224 \<Longrightarrow> list_all (\<lambda>e. length (tp_hash e) = 56) (trojan_passwords sha224 password users)"
  by (auto simp: trojan_passwords_def password_hash_hex_def hash_len_def list_all_iff length_concat
      comp_def sum_list_triv split: option.splits)

lemma read_request_loop_parsed:
  "read_request_loop passwords data evs = (Inr r, rest) \<Longrightarrow>
     \<exists>d. parse_request passwords d = Inr (Some r) \<and> data @ evs_bytes evs = d @ evs_bytes rest"
proof (induction evs arbitrary: data)
  case Nil
  then show ?case
    by (subst (asm) read_request_loop.simps) (auto split: sum.splits option.splits if_splits)
next
  case (Cons ev evs)
  show ?case
  proof (cases "parse_request passwords data = Inr (Some r) \<and> rest = ev # evs")
    case False
    then have "read_request_loop passwords (data @ case_sum (\<lambda>_. []) id ev) evs = (Inr r, rest)"
      using Cons.prems by (subst (asm) read_request_loop.simps) (auto split: sum.splits option.splits if_splits)
    from Cons.IH [OF this] show ?thesis by (simp add: evs_bytes_def)
  qed auto
qed

text \<open>
  C33: no connection is relayed to a target of the client's choosing unless the client sent the
  SHA-224 of a configured password; the traffic is booked on that password's user.
\<close>

theorem trojan_authenticated:
  assumes "hash_len 28 sha224"
    and "handle_trojan_connection dest (trojan_passwords sha224 password users) evs = (act, rest)"
    and "act = TrojanUdpRelay d em \<or> act = TrojanTcpRelay a p d em"
  shows "\<exists>hash tail. evs_bytes evs = hash @ tail
    \<and> ((\<exists>pw. password = Some pw \<and> to_ascii_lowercase hash = password_hash_hex sha224 pw \<and> em = None)
     \<or> (\<exists>u \<in> set users. to_ascii_lowercase hash = password_hash_hex sha224 (tuc_password u) \<and> em = Some (tuc_email u)))"
proof -
  obtain r where r: "read_request (trojan_passwords sha224 password users) evs = (Inr r, rest)" "em = tr_email r"
    using assms(2,3) by (auto simp: handle_trojan_connection_def split: prod.splits sum.splits option.splits if_splits)
  from read_request_loop_parsed [OF r(1) [unfolded read_request_def]]
  obtain data where d: "parse_request (trojan_passwords sha224 password users) data = Inr (Some r)"
    and e: "evs_bytes evs = data @ evs_bytes rest" by auto
  from parse_request_sound [OF trojan_passwords_wf [OF assms(1)] d]
  obtain hash entry body q where h: "trojan_head (trojan_passwords sha224 password users) r hash entry body q"
    "data = hash @ CRLF @ [trojan_command_byte (tr_command r)] @ body @ u16_be q @ CRLF @ tr_initial_data r" by blast
  then have "entry \<in> set (trojan_passwords sha224 password users)" "to_ascii_lowercase hash = tp_hash entry"
    "em = tp_email entry"
    using r(2) find_SomeD by (fastforce simp: trojan_head_def)+
  then have "(\<exists>pw. password = Some pw \<and> to_ascii_lowercase hash = password_hash_hex sha224 pw \<and> em = None)
     \<or> (\<exists>u \<in> set users. to_ascii_lowercase hash = password_hash_hex sha224 (tuc_password u) \<and> em = Some (tuc_email u))"
    by (auto simp: trojan_passwords_def split: option.splits)
  moreover have "\<exists>tail. evs_bytes evs = hash @ tail" using e h(2) by simp
  ultimately show ?thesis by blast
qed

theorem trojan_authenticated_witness:
  "\<exists>act rest d a p. handle_trojan_connection None (trojan_passwords (\<lambda>_. replicate 28 0xaa) (Some [1]) [])
       [Inr (sample_head @ [7])] = (act, rest)
     \<and> act = TrojanTcpRelay a p d None
     \<and> (\<exists>hash tail. sample_head @ [7] = hash @ tail
          \<and> to_ascii_lowercase hash = password_hash_hex (\<lambda>_. replicate 28 0xaa) [1])"
proof -
  let ?pws = "trojan_passwords (\<lambda>_. replicate 28 0xaa) (Some [1]) []"
  let ?act = "TrojanTcpRelay (IPv4 [127, 0, 0, 1]) (Port 80) [7] None"
  have h: "hash_len 28 (\<lambda>_. replicate 28 0xaa)" by (simp add: hash_len_def)
  have "read_request_loop ?pws [] [Inr (sample_head @ [7])] = read_request_loop ?pws (sample_head @ [7]) []"
    by (subst read_request_loop.simps) (simp add: parse_request_def has_non_hex_password_prefix_def)
  also have "\<dots> = (Inr ((sample_trojan_request [7])\<lparr>tr_email := None\<rparr>), [])"
  proof -
    have "parse_request ?pws (sample_head @ [7]) = Inr (Some ((sample_trojan_request [7])\<lparr>tr_email := None\<rparr>))"
      by code_simp
    then show ?thesis by (subst read_request_loop.simps) simp
  qed
  finally have a: "handle_trojan_connection None ?pws [Inr (sample_head @ [7])] = (?act, [])"
    by (simp add: handle_trojan_connection_def read_request_def sample_trojan_request_def)
  from trojan_authenticated [OF h a disjI2 [OF refl]] have "\<exists>hash tail. sample_head @ [7] = hash @ tail
      \<and> to_ascii_lowercase hash = password_hash_hex (\<lambda>_. replicate 28 0xaa) [1]"
    by (simp add: evs_bytes_def)
  with a show ?thesis by blast
qed

section \<open>UDP packets\<close>

definition udp_parser :: "bytes \<Rightarrow> TrojanError + (TrojanUdpPacket \<times> nat) option" where
  "udp_parser d = bindr (parse_udp_packet d) (\<lambda>r. Inr (map_option (\<lambda>p. (p, tu_consumed p)) r))"

lemma parse_udp_packet_end_append:
  assumes "parse_udp_packet_end d a p = r" and "r \<noteq> Inr None"
  shows "parse_udp_packet_end (d @ m) a p = r"
  using assms by (auto simp: parse_udp_packet_end_def Let_def split: if_splits)

lemma parse_udp_packet_append:
  assumes "parse_udp_packet d = r" and "r \<noteq> Inr None"
  shows "parse_udp_packet (d @ m) = r"
proof -
  have "d \<noteq> []" using assms by (auto simp: parse_udp_packet_def)
  moreover have "parse_socks5_address (d @ m) 1 (d ! 0) = parse_socks5_address d 1 (d ! 0)
      \<or> parse_socks5_address d 1 (d ! 0) = Inr None"
    using parse_socks5_address_append by blast
  ultimately show ?thesis
    using assms
    by (auto simp: parse_udp_packet_def bindr_def nth_append parse_udp_packet_end_append
        split: sum.splits option.splits)
qed

lemma parse_udp_packet_consumed:
  assumes "parse_udp_packet d = Inr (Some p)"
  shows "0 < tu_consumed p \<and> tu_consumed p \<le> length d"
proof -
  obtain a q where "parse_udp_packet_end d a q = Inr (Some p)"
    using assms by (auto simp: parse_udp_packet_def bindr_eq_Inr_iff split: option.splits if_splits)
  then show ?thesis by (auto simp: parse_udp_packet_end_def Let_def split: if_splits)
qed

interpretation trojan_udp: incremental udp_parser
proof
  show "udp_parser (d @ m) = Inl e" if "udp_parser d = Inl e" for d m e
    using that parse_udp_packet_append [OF refl, of d m] by (auto simp: udp_parser_def bindr_eq_Inl_iff)
  show "udp_parser (d @ m) = Inr (Some y)" if "udp_parser d = Inr (Some y)" for d m y
    using that parse_udp_packet_append [OF refl, of d m] by (auto simp: udp_parser_def bindr_eq_Inr_iff)
  show "0 < n \<and> n \<le> length d" if "udp_parser d = Inr (Some (x, n))" for d x n
    using that parse_udp_packet_consumed [of d x] by (auto simp: udp_parser_def bindr_eq_Inr_iff)
qed

lemma parse_write_udp_packet:
  assumes w: "write_udp_packet [] a p payload = Inr bs" and "wf_address a" and "a \<noteq> Domain []"
  shows "parse_udp_packet (bs @ rest)
    = Inr (Some \<lparr>tu_address = a, tu_port = p, tu_payload = payload, tu_consumed = length bs\<rparr>)"
proof -
  obtain q where q: "p = Port q" by (cases p)
  obtain ty body where b: "write_socks5_address [] a = Inr (ty # body)"
    by (cases a) (use w q in \<open>auto split: if_splits\<close>)
  have l: "q \<noteq> 0" "length payload \<le> 65535"
    and bs: "bs = ty # body @ u16_be q @ u16_be (word_of_nat (length payload)) @ CRLF @ payload"
    using w q b by (auto simp: bindr_eq_Inr_iff split: if_splits)
  let ?d = "bs @ rest"
  have d: "?d = [ty] @ body @ (u16_be q @ u16_be (word_of_nat (length payload)) @ CRLF @ payload @ rest)"
    by (simp add: bs)
  have a: "parse_socks5_address ?d 1 (?d ! 0) = Inr (Some (a, 1 + length body))"
    using parse_socks5_address_complete [OF b assms(2,3), of "[ty]"] unfolding d by simp
  have n: "unat (word_of_nat (length payload) :: u16) = length payload"
    using l by (simp add: unat_of_nat)
  let ?n = "u16_be (word_of_nat (length payload) :: u16)"
  have "subrange ?d (Suc (length body)) (Suc (length body) + 2) = u16_be q"
    by (rule subrange_at [of _ "ty # body" _ "?n @ CRLF @ payload @ rest"]) (simp_all add: d)
  moreover have "subrange ?d (Suc (length body) + 2) (Suc (length body) + 4) = ?n"
    by (rule subrange_at [of _ "ty # body @ u16_be q" _ "CRLF @ payload @ rest"]) (simp_all add: d)
  moreover have "subrange ?d (Suc (length body) + 4) (Suc (length body) + 6) = CRLF"
    by (rule subrange_at [of _ "ty # body @ u16_be q @ ?n" _ "payload @ rest"]) (simp_all add: d)
  moreover have "subrange ?d (Suc (length body) + 6) (Suc (length body) + 6 + length payload) = payload"
    by (rule subrange_at [of _ "ty # body @ u16_be q @ ?n @ CRLF" _ rest]) (simp_all add: d)
  ultimately have "parse_udp_packet_end ?d a (Suc (length body))
      = Inr (Some \<lparr>tu_address = a, tu_port = p, tu_payload = payload, tu_consumed = length bs\<rparr>)"
    using l q n by (simp add: parse_udp_packet_end_def Let_def bs)
  then show ?thesis using a by (simp add: parse_udp_packet_def bs)
qed

section \<open>The UDP relay\<close>

text \<open>
  \<open>send_trojan_udp_packet_to_target\<close>: name resolution and \<open>send_to\<close> are parameters; the addresses are
  tried in order.
\<close>

fun try_send :: "('sa \<Rightarrow> io_error + unit) \<Rightarrow> 'sa list \<Rightarrow> io_error \<Rightarrow> io_error + unit" where
  "try_send send_to [] last_error = Inl last_error"
| "try_send send_to (sa # sas) last_error =
     (case send_to sa of Inr _ \<Rightarrow> Inr () | Inl e \<Rightarrow> try_send send_to sas e)"

definition send_trojan_udp_packet_to_target ::
  "(Address \<Rightarrow> Port \<Rightarrow> io_error + 'sa list) \<Rightarrow> ('sa \<Rightarrow> bytes \<Rightarrow> io_error + unit) \<Rightarrow>
     Address \<Rightarrow> Port \<Rightarrow> bytes \<Rightarrow> io_error + unit" where
  "send_trojan_udp_packet_to_target resolve send_to addr prt payload =
     bindr (resolve addr prt) (\<lambda>sas. try_send (\<lambda>sa. send_to sa payload) sas OtherIo)"

text \<open>The inner loop: parse, send to the target, drop what was used.\<close>

function udp_forward ::
  "(Address \<Rightarrow> Port \<Rightarrow> bytes \<Rightarrow> io_error + unit) \<Rightarrow> bytes \<Rightarrow> TrojanUdpPacket list \<times> (TrojanError + bytes)" where
  "udp_forward send tls_buf =
     (case parse_udp_packet tls_buf of
        Inl e \<Rightarrow> ([], Inl e)
      | Inr None \<Rightarrow> ([], Inr tls_buf)
      | Inr (Some packet) \<Rightarrow>
          (case send (tu_address packet) (tu_port packet) (tu_payload packet) of
             Inl e \<Rightarrow> ([], Inl (TrIo e))
           | Inr _ \<Rightarrow>
               (case udp_forward send (drop (tu_consumed packet) tls_buf) of
                  (ps, r) \<Rightarrow> (packet # ps, r))))"
  by pat_completeness auto
termination
  by (relation "measure (\<lambda>(s, b). length b)") (auto dest!: parse_udp_packet_consumed)

declare udp_forward.simps [simp del]

text \<open>
  What one iteration of the loop meets: the datagram socket, the outcome of writing a response, the
  decrypted bytes at hand, and, when there are none, a read of TLS records and their processing.
\<close>

record UdpTick =
  tick_recv :: "io_error + bytes \<times> Address \<times> Port"
  tick_write :: "io_error + unit"
  tick_reader :: "io_error + bytes"
  tick_read_tls :: "io_error + nat"
  tick_process :: "io_error + unit"

record UdpRelay =
  tls_buf :: bytes
  client_closed :: bool
  udp_sent :: "TrojanUdpPacket list"
  tls_written :: bytes

definition is_wait :: "io_error \<Rightarrow> bool" where
  "is_wait e \<longleftrightarrow> e = WouldBlock \<or> e = TimedOut"

definition relay_response :: "UdpTick \<Rightarrow> UdpRelay \<times> bool \<Rightarrow> TrojanError + UdpRelay \<times> bool" where
  "relay_response tk sw =
     (case tick_recv tk of
        Inr (dat, addr, prt) \<Rightarrow>
          if length dat > 0 then
            bindr (write_udp_packet [] addr prt dat) (\<lambda>response.
              bindr (map_err TrIo (tick_write tk)) (\<lambda>_.
                Inr ((fst sw)\<lparr>tls_written := tls_written (fst sw) @ response\<rparr>, True)))
          else Inr sw
      | Inl e \<Rightarrow> if is_wait e then Inr sw else Inl (TrIo e))"

definition relay_read_tls :: "UdpTick \<Rightarrow> UdpRelay \<times> bool \<Rightarrow> TrojanError + UdpRelay \<times> bool" where
  "relay_read_tls tk sw =
     (case tick_read_tls tk of
        Inr n \<Rightarrow>
          if n = 0 then Inr ((fst sw)\<lparr>client_closed := True\<rparr>, True)
          else bindr (map_err TrIo (tick_process tk)) (\<lambda>_. Inr (fst sw, True))
      | Inl e \<Rightarrow> if is_wait e then Inr sw else Inl (TrIo e))"

definition relay_client :: "UdpTick \<Rightarrow> UdpRelay \<times> bool \<Rightarrow> TrojanError + UdpRelay \<times> bool" where
  "relay_client tk sw =
     (if client_closed (fst sw) then Inr sw
      else case tick_reader tk of
        Inr dat \<Rightarrow>
          if length dat > 0 then Inr ((fst sw)\<lparr>tls_buf := tls_buf (fst sw) @ dat\<rparr>, True)
          else relay_read_tls tk sw
      | Inl e \<Rightarrow> if e = WouldBlock then relay_read_tls tk sw else Inl (TrIo e))"

text \<open>One iteration: the state after it and whether the loop goes on.\<close>

definition relay_tick ::
  "(Address \<Rightarrow> Port \<Rightarrow> bytes \<Rightarrow> io_error + unit) \<Rightarrow> UdpTick \<Rightarrow> UdpRelay \<Rightarrow> TrojanError + UdpRelay \<times> bool" where
  "relay_tick send tk s =
     (case udp_forward send (tls_buf s) of
        (ps, Inl e) \<Rightarrow> Inl e
      | (ps, Inr buf) \<Rightarrow>
          bindr (relay_response tk (s\<lparr>tls_buf := buf, udp_sent := udp_sent s @ ps\<rparr>, ps \<noteq> [])) (\<lambda>sw.
          bindr (relay_client tk sw) (\<lambda>(s', did_work).
            Inr (s', \<not> (client_closed s' \<and> \<not> did_work)))))"

fun relay_ticks ::
  "(Address \<Rightarrow> Port \<Rightarrow> bytes \<Rightarrow> io_error + unit) \<Rightarrow> UdpTick list \<Rightarrow> UdpRelay \<Rightarrow>
     TrojanError + UdpRelay \<times> UdpTick list option" where
  "relay_ticks send [] s = Inr (s, None)"
| "relay_ticks send (tk # tks) s =
     bindr (relay_tick send tk s) (\<lambda>(s', going).
       if going then relay_ticks send tks s' else Inr (s', Some tks))"

definition relay_trojan_udp ::
  "(Address \<Rightarrow> Port \<Rightarrow> bytes \<Rightarrow> io_error + unit) \<Rightarrow> bytes \<Rightarrow> UdpTick list \<Rightarrow>
     TrojanError + UdpRelay \<times> UdpTick list option" where
  "relay_trojan_udp send initial_data tks =
     relay_ticks send tks \<lparr>tls_buf = initial_data, client_closed = False, udp_sent = [], tls_written = []\<rparr>"

text \<open>What the client says over a run, and what one iteration answers.\<close>

definition tick_input :: "bool \<Rightarrow> UdpTick \<Rightarrow> bytes" where
  "tick_input closed tk = (if closed then [] else case_sum (\<lambda>_. []) id (tick_reader tk))"

definition tick_closes :: "bool \<Rightarrow> UdpTick \<Rightarrow> bool" where
  "tick_closes closed tk \<longleftrightarrow> closed
     \<or> ((tick_reader tk = Inr [] \<or> tick_reader tk = Inl WouldBlock) \<and> tick_read_tls tk = Inr 0)"

fun client_input :: "bool \<Rightarrow> UdpTick list \<Rightarrow> bytes" where
  "client_input closed [] = []"
| "client_input closed (tk # tks) = tick_input closed tk @ client_input (tick_closes closed tk) tks"

definition tick_response :: "UdpTick \<Rightarrow> bytes" where
  "tick_response tk =
     (case tick_recv tk of
        Inr (dat, addr, prt) \<Rightarrow> if dat = [] then [] else case_sum (\<lambda>_. []) id (write_udp_packet [] addr prt dat)
      | Inl e \<Rightarrow> [])"

lemma udp_forward_drain: "udp_forward send buf = (ps, Inr r) \<Longrightarrow> drain udp_parser buf = (ps, None, r)"
proof (induction send buf arbitrary: ps rule: udp_forward.induct)
  case (1 send buf)
  show ?case
  proof (cases "parse_udp_packet buf")
    case (Inl e)
    then show ?thesis using "1.prems" by (simp add: udp_forward.simps [of send buf])
  next
    case (Inr o')
    show ?thesis
    proof (cases o')
      case None
      then have "udp_parser buf = Inr None" using Inr by (simp add: udp_parser_def)
      then have "drain udp_parser buf = ([], None, buf)" by (subst drain.simps) simp
      moreover have "ps = []" "r = buf"
        using "1.prems" Inr None by (simp_all add: udp_forward.simps [of send buf])
      ultimately show ?thesis by simp
    next
      case (Some p)
      note step = "1.prems" [unfolded udp_forward.simps [of send buf] Inr Some]
      from step have s: "send (tu_address p) (tu_port p) (tu_payload p) = Inr ()"
        by (cases "send (tu_address p) (tu_port p) (tu_payload p)") simp_all
      obtain qs r' where q': "udp_forward send (drop (tu_consumed p) buf) = (qs, r')" by fastforce
      then have q: "udp_forward send (drop (tu_consumed p) buf) = (qs, Inr r)" "ps = p # qs"
        using step by (simp_all add: s)
      have "udp_parser buf = Inr (Some (p, tu_consumed p))" using Inr Some by (simp add: udp_parser_def)
      from trojan_udp.drain_step [OF this] show ?thesis
        using "1.IH" [OF Inr Some s q(1)] q(2) by simp
    qed
  qed
qed

lemma relay_response_ok:
  "relay_response tk (s, w) = Inr (s', w') \<Longrightarrow>
     s' = s\<lparr>tls_written := tls_written s @ tick_response tk\<rparr> \<and> (w \<longrightarrow> w')"
  by (auto simp: relay_response_def tick_response_def bindr_eq_Inr_iff split: sum.splits if_splits prod.splits)

lemma relay_client_ok:
  "relay_client tk (s, w) = Inr (s', w') \<Longrightarrow>
     s' = s\<lparr>tls_buf := tls_buf s @ tick_input (client_closed s) tk, client_closed := tick_closes (client_closed s) tk\<rparr>
     \<and> (w \<longrightarrow> w') \<and> (client_closed s' \<longrightarrow> client_closed s \<or> w')"
  by (auto simp: relay_client_def relay_read_tls_def tick_input_def tick_closes_def bindr_eq_Inr_iff
      split: sum.splits if_splits)

lemma relay_tick_ok:
  assumes "relay_tick send tk s = Inr (s', going)"
  obtains ps buf where "drain udp_parser (tls_buf s) = (ps, None, buf)"
    and "tls_buf s' = buf @ tick_input (client_closed s) tk"
    and "client_closed s' = tick_closes (client_closed s) tk"
    and "udp_sent s' = udp_sent s @ ps" and "tls_written s' = tls_written s @ tick_response tk"
    and "going \<or> (client_closed s \<and> ps = [])"
proof -
  obtain ps r where f': "udp_forward send (tls_buf s) = (ps, r)" by fastforce
  then obtain buf where f: "udp_forward send (tls_buf s) = (ps, Inr buf)"
    using assms by (cases r) (simp_all add: relay_tick_def)
  let ?s = "s\<lparr>tls_buf := buf, udp_sent := udp_sent s @ ps\<rparr>"
  obtain s1 w1 w2 where r: "relay_response tk (?s, ps \<noteq> []) = Inr (s1, w1)" "relay_client tk (s1, w1) = Inr (s', w2)"
    and m: "going = (\<not> (client_closed s' \<and> \<not> w2))"
    using assms by (auto simp: relay_tick_def f bindr_eq_Inr_iff)
  note a = relay_response_ok [OF r(1)] and b = relay_client_ok [OF r(2)]
  show ?thesis
  proof (rule that [OF udp_forward_drain [OF f]])
    show "going \<or> (client_closed s \<and> ps = [])" using a b m by auto
  qed (use a b in simp_all)
qed

lemma client_input_closed: "client_input True tks = []"
  by (induction tks) (simp_all add: tick_input_def tick_closes_def)

lemma relay_ticks_ok:
  "relay_ticks send tks s = Inr (s', fin) \<Longrightarrow>
     \<exists>ps pend used. udp_sent s' = udp_sent s @ ps
       \<and> fst (drain udp_parser (tls_buf s @ client_input (client_closed s) tks)) = ps @ pend
       \<and> tks = used @ (case fin of None \<Rightarrow> [] | Some rest \<Rightarrow> rest)
       \<and> tls_written s' = tls_written s @ concat (map tick_response used)
       \<and> (fin \<noteq> None \<longrightarrow> pend = [] \<and> client_closed s'
            \<and> fst (snd (drain udp_parser (tls_buf s @ client_input (client_closed s) tks))) = None)"
proof (induction tks arbitrary: s)
  case Nil
  then show ?case by simp
next
  case (Cons tk tks)
  from Cons.prems obtain s1 going where t: "relay_tick send tk s = Inr (s1, going)"
    and n: "(if going then relay_ticks send tks s1 else Inr (s1, Some tks)) = Inr (s', fin)"
    by (auto simp: bindr_eq_Inr_iff)
  from relay_tick_ok [OF t] obtain ps buf where d: "drain udp_parser (tls_buf s) = (ps, None, buf)"
    and s1: "tls_buf s1 = buf @ tick_input (client_closed s) tk" "client_closed s1 = tick_closes (client_closed s) tk"
      "udp_sent s1 = udp_sent s @ ps" "tls_written s1 = tls_written s @ tick_response tk"
    and m: "going \<or> (client_closed s \<and> ps = [])" .
  note whole = trojan_udp.drain_more [OF d, of "client_input (client_closed s) (tk # tks)"]
  show ?case
  proof (cases going)
    case True
    with n have "relay_ticks send tks s1 = Inr (s', fin)" by simp
    from Cons.IH [OF this] obtain ps' pend used where
      i: "udp_sent s' = udp_sent s1 @ ps'"
        "fst (drain udp_parser (tls_buf s1 @ client_input (client_closed s1) tks)) = ps' @ pend"
        "tks = used @ (case fin of None \<Rightarrow> [] | Some rest \<Rightarrow> rest)"
        "tls_written s' = tls_written s1 @ concat (map tick_response used)"
        "fin \<noteq> None \<longrightarrow> pend = [] \<and> client_closed s'
            \<and> fst (snd (drain udp_parser (tls_buf s1 @ client_input (client_closed s1) tks))) = None"
      by blast
    show ?thesis
      by (rule exI [of _ "ps @ ps'"], rule exI [of _ pend], rule exI [of _ "tk # used"])
        (use i s1 whole in \<open>auto split: prod.splits\<close>)
  next
    case False
    then have "client_closed s" "ps = []" "s' = s1" "fin = Some tks" using m n by auto
    then show ?thesis
      using d s1 by (auto simp: client_input_closed tick_input_def tick_closes_def intro!: exI [of _ "[tk]"])
  qed
qed

text \<open>
  C35: the UDP relay loses nothing and invents nothing. At every moment the packets sent to targets
  are the first ones of the client's byte stream as one parse of the whole stream finds them, however
  TLS delivered it; the bytes written to the client are the framed datagrams received, in order; and
  when the loop ends by itself, the client has closed, and every packet of its stream was sent.
\<close>

theorem trojan_udp_relay:
  assumes "relay_trojan_udp send initial tks = Inr (s, fin)"
  shows "\<exists>pend used.
    fst (drain udp_parser (initial @ client_input False tks)) = udp_sent s @ pend
    \<and> tks = used @ (case fin of None \<Rightarrow> [] | Some rest \<Rightarrow> rest)
    \<and> tls_written s = concat (map tick_response used)
    \<and> (fin \<noteq> None \<longrightarrow> pend = [] \<and> client_closed s
         \<and> fst (snd (drain udp_parser (initial @ client_input False tks))) = None)"
  using relay_ticks_ok [OF assms [unfolded relay_trojan_udp_def]] by auto

text \<open>A client that sends one packet in two reads and closes.\<close>

definition sample_ticks :: "UdpTick list" where
  "sample_ticks =
     [\<lparr>tick_recv = Inl TimedOut, tick_write = Inr (), tick_reader = Inr [80, 0, 2, 0x0d, 0x0a, 7, 8],
       tick_read_tls = Inl WouldBlock, tick_process = Inr ()\<rparr>,
      \<lparr>tick_recv = Inl WouldBlock, tick_write = Inr (), tick_reader = Inl WouldBlock,
       tick_read_tls = Inr 0, tick_process = Inr ()\<rparr>,
      \<lparr>tick_recv = Inl TimedOut, tick_write = Inr (), tick_reader = Inr [], tick_read_tls = Inr 0,
       tick_process = Inr ()\<rparr>]"

theorem trojan_udp_relay_witness:
  "\<exists>s fin. relay_trojan_udp (\<lambda>a p d. Inr ()) [1, 127, 0, 0, 1, 0] sample_ticks = Inr (s, fin)
     \<and> fst (drain udp_parser ([1, 127, 0, 0, 1, 0] @ client_input False sample_ticks)) = udp_sent s
     \<and> map tu_payload (udp_sent s) = [[7, 8]] \<and> client_closed s"
proof -
  define out where "out = relay_trojan_udp (\<lambda>a p d. Inr ()) [1, 127, 0, 0, 1, 0] sample_ticks"
  have "map_sum (\<lambda>_. ()) (\<lambda>(s, fin). (map tu_payload (udp_sent s), Option.is_none fin)) out = Inr ([[7, 8]], False)"
    unfolding out_def by code_simp
  then obtain s fin where o': "out = Inr (s, fin)" and s: "map tu_payload (udp_sent s) = [[7, 8]]" "fin \<noteq> None"
    by (cases out) (auto simp: Option.is_none_def)
  from trojan_udp_relay [OF o' [unfolded out_def]] s show ?thesis
    unfolding o' [unfolded out_def] by auto
qed

end
