(* ===== verification/Net_Address.thy ===== *)
theory Net_Address
  imports Protocol Rust_Str Uuid
begin

text \<open>
  The text form of addresses (\<open>crates/net-types/src/address.rs\<close>): \<open>Address::parse\<close> and \<open>Display\<close>, with the
  parsers and printers of \<open>Ipv4Addr\<close> and \<open>Ipv6Addr\<close> that the standard library gives them.
\<close>

section \<open>Numbers\<close>

text \<open>\<open>char::to_digit\<close>.\<close>

definition to_digit :: "nat \<Rightarrow> u8 \<Rightarrow> nat option" where
  "to_digit radix b =
     (let d = (if 0x30 \<le> b \<and> b \<le> 0x39 then unat b - 48
               else if 0x61 \<le> b \<and> b \<le> 0x66 then unat b - 87
               else if 0x41 \<le> b \<and> b \<le> 0x46 then unat b - 55 else 16)
      in if d < radix then Some d else None)"

text \<open>The loop of \<open>Parser::read_number\<close>, which gives up after too many digits.\<close>

fun read_digits :: "nat \<Rightarrow> nat \<Rightarrow> nat \<Rightarrow> nat \<Rightarrow> bytes \<Rightarrow> (nat \<times> nat \<times> bytes) option" where
  "read_digits radix max_digits result digit_count [] = Some (result, digit_count, [])"
| "read_digits radix max_digits result digit_count (b # bs) =
     (case to_digit radix b of
        None \<Rightarrow> Some (result, digit_count, b # bs)
      | Some digit \<Rightarrow>
          if digit_count + 1 > max_digits then None
          else read_digits radix max_digits (result * radix + digit) (digit_count + 1) bs)"

definition read_number :: "nat \<Rightarrow> nat \<Rightarrow> bool \<Rightarrow> int \<Rightarrow> bytes \<Rightarrow> (nat \<times> bytes) option" where
  "read_number radix max_digits allow_zero_prefix bound s =
     (case read_digits radix max_digits 0 0 s of
        None \<Rightarrow> None
      | Some (result, digit_count, rest) \<Rightarrow>
          if digit_count = 0 then None
          else if \<not> allow_zero_prefix \<and> hd s = 0x30 \<and> digit_count > 1 then None
          else if int result < bound then Some (result, rest) else None)"

definition read_given_char :: "u8 \<Rightarrow> bytes \<Rightarrow> bytes option" where
  "read_given_char c s = (case s of b # bs \<Rightarrow> if b = c then Some bs else None | [] \<Rightarrow> None)"

definition read_separator :: "u8 \<Rightarrow> nat \<Rightarrow> (bytes \<Rightarrow> ('a \<times> bytes) option) \<Rightarrow> bytes \<Rightarrow> ('a \<times> bytes) option" where
  "read_separator sep index inner s =
     (if index > 0 then (case read_given_char sep s of None \<Rightarrow> None | Some s' \<Rightarrow> inner s') else inner s)"

section \<open>IPv4\<close>

fun read_octets :: "nat \<Rightarrow> nat \<Rightarrow> bytes \<Rightarrow> (nat list \<times> bytes) option" where
  "read_octets i 0 s = Some ([], s)"
| "read_octets i (Suc n) s =
     (case read_separator 0x2e i (read_number 10 3 False 256) s of
        None \<Rightarrow> None
      | Some (v, s') \<Rightarrow>
          (case read_octets (Suc i) n s' of None \<Rightarrow> None | Some (vs, r) \<Rightarrow> Some (v # vs, r)))"

definition read_ipv4_addr :: "bytes \<Rightarrow> (bytes \<times> bytes) option" where
  "read_ipv4_addr s = map_option (\<lambda>(vs, r). (map word_of_nat vs, r)) (read_octets 0 4 s)"

text \<open>\<open>parse_with\<close>: nothing may be left.\<close>

definition parse_all :: "('a \<times> bytes) option \<Rightarrow> 'a option" where
  "parse_all r = (case r of Some (v, []) \<Rightarrow> Some v | _ \<Rightarrow> None)"

definition parse_ipv4 :: "rstr \<Rightarrow> bytes option" where
  "parse_ipv4 s = (if length s > 15 then None else parse_all (read_ipv4_addr s))"

section \<open>IPv6\<close>

text \<open>
  \<open>read_groups\<close> from group \<open>i\<close> on: the groups read, and whether the last two are an embedded IPv4
  address.
\<close>

function read_groups :: "nat \<Rightarrow> nat \<Rightarrow> bytes \<Rightarrow> nat list \<times> bool \<times> bytes" where
  "read_groups i limit s =
     (if i \<ge> limit then ([], False, s)
      else case (if i < limit - 1 then read_separator 0x3a i read_ipv4_addr s else None) of
        Some (v4, s') \<Rightarrow> ([unat (v4 ! 0) * 256 + unat (v4 ! 1), unat (v4 ! 2) * 256 + unat (v4 ! 3)], True, s')
      | None \<Rightarrow>
          (case read_separator 0x3a i (read_number 16 4 True 65536) s of
             None \<Rightarrow> ([], False, s)
           | Some (g, s') \<Rightarrow> (case read_groups (Suc i) limit s' of (gs, v4, r) \<Rightarrow> (g # gs, v4, r))))"
  by pat_completeness auto
termination
  by (relation "measure (\<lambda>(i, limit, s). limit - i)") auto

declare read_groups.simps [simp del]

definition read_ipv6_addr :: "bytes \<Rightarrow> (nat list \<times> bytes) option" where
  "read_ipv6_addr s =
     (case read_groups 0 8 s of
        (head, head_ipv4, r) \<Rightarrow>
          if length head = 8 then Some (head, r)
          else if head_ipv4 then None
          else (case read_given_char 0x3a r of None \<Rightarrow> None | Some r1 \<Rightarrow>
            (case read_given_char 0x3a r1 of None \<Rightarrow> None | Some r2 \<Rightarrow>
              (case read_groups 0 (8 - (length head + 1)) r2 of
                 (tail, _, r3) \<Rightarrow>
                   Some (head @ replicate (8 - length head - length tail) 0 @ tail, r3)))))"

definition parse_ipv6 :: "rstr \<Rightarrow> bytes option" where
  "parse_ipv6 s = map_option (\<lambda>gs. concat (map (be 2) gs)) (parse_all (read_ipv6_addr s))"

section \<open>Addresses\<close>

definition Address_parse :: "rstr \<Rightarrow> Address" where
  "Address_parse s0 =
     (let s1 = trim s0;
          s = (if s1 \<noteq> [] \<and> hd s1 = 0x5b \<and> last s1 = 0x5d then drop 1 (take (length s1 - 1) s1) else s1)
      in case parse_ipv4 s of
           Some ip \<Rightarrow> IPv4 ip
         | None \<Rightarrow> (case parse_ipv6 s of Some ip \<Rightarrow> IPv6 ip | None \<Rightarrow> Domain s))"

fun show_hex :: "nat \<Rightarrow> rstr" where
  "show_hex n = (if n < 16 then [hex_digit n] else show_hex (n div 16) @ [hex_digit (n mod 16)])"

declare show_hex.simps [simp del]

definition show_ipv4 :: "bytes \<Rightarrow> rstr" where
  "show_ipv4 ip =
     show_nat (unat (ip ! 0)) @ [0x2e] @ show_nat (unat (ip ! 1)) @ [0x2e]
     @ show_nat (unat (ip ! 2)) @ [0x2e] @ show_nat (unat (ip ! 3))"

fun ip_segments :: "bytes \<Rightarrow> nat list" where
  "ip_segments (a # b # bs) = (unat a * 256 + unat b) # ip_segments bs"
| "ip_segments _ = []"

text \<open>The longest run of zero segments: its start and length.\<close>

fun zero_span :: "nat \<Rightarrow> nat list \<Rightarrow> nat \<times> nat \<Rightarrow> nat \<times> nat \<Rightarrow> nat \<times> nat" where
  "zero_span i [] current longest = longest"
| "zero_span i (s # ss) current longest =
     (if s = 0 then
        (let cur = (if snd current = 0 then i else fst current, snd current + 1);
             lon = (if snd cur > snd longest then cur else longest)
         in zero_span (i + 1) ss cur lon)
      else zero_span (i + 1) ss (0, 0) longest)"

fun fmt_subslice :: "nat list \<Rightarrow> rstr" where
  "fmt_subslice [] = []"
| "fmt_subslice (g # gs) = show_hex g @ concat (map (\<lambda>h. 0x3a # show_hex h) gs)"

definition show_ipv6 :: "bytes \<Rightarrow> rstr" where
  "show_ipv6 ip =
     (if take 12 ip = replicate 10 0 @ [0xff, 0xff] then str ''::ffff:'' @ show_ipv4 (drop 12 ip)
      else let segs = ip_segments ip; (start, len) = zero_span 0 segs (0, 0) (0, 0) in
        if len > 1
        then fmt_subslice (take start segs) @ str ''::'' @ fmt_subslice (drop (start + len) segs)
        else fmt_subslice segs)"

fun Address_display :: "Address \<Rightarrow> rstr" where
  "Address_display (IPv4 octets) = show_ipv4 octets"
| "Address_display (IPv6 octets) = str ''['' @ show_ipv6 octets @ str '']''"
| "Address_display (Domain d) = d"

fun Port_display :: "Port \<Rightarrow> rstr" where
  "Port_display (Port p) = show_nat (unat p)"

definition Destination_display :: "Destination \<Rightarrow> rstr" where
  "Destination_display d = Address_display (dest_address d) @ str '':'' @ Port_display (dest_port d)"

section \<open>Reading back what was printed\<close>

text \<open>Both number printers are one, at their radix.\<close>

function show_radix :: "nat \<Rightarrow> nat \<Rightarrow> rstr" where
  "show_radix r n =
     (if n < r \<or> r < 2 then [hex_digit n] else show_radix r (n div r) @ [hex_digit (n mod r)])"
  by pat_completeness auto
termination
  by (relation "measure snd") auto

declare show_radix.simps [simp del]

lemma show_nat_radix: "show_nat n = show_radix 10 n"
proof (induction n rule: show_nat.induct)
  case (1 n)
  then show ?case
    by (subst show_nat.simps, subst show_radix.simps) (simp add: hex_digit_def)
qed

lemma show_hex_radix: "show_hex n = show_radix 16 n"
proof (induction n rule: show_hex.induct)
  case (1 n)
  then show ?case by (subst show_hex.simps, subst show_radix.simps) simp
qed

lemma to_digit_hex_digit: "d < r \<Longrightarrow> r \<le> 16 \<Longrightarrow> to_digit r (hex_digit d) = Some d"
  using unat_hex_digit [of d] by (simp add: to_digit_def Let_def word_le_nat_alt)

lemma read_digits_append:
  "read_digits r mx a c (xs @ ys) =
     (case read_digits r mx a c xs of
        None \<Rightarrow> None
      | Some (a', c', zs) \<Rightarrow> if zs = [] then read_digits r mx a' c' ys else Some (a', c', zs @ ys))"
  by (induction xs arbitrary: a c) (auto split: option.splits)

lemma read_digits_show:
  "2 \<le> r \<Longrightarrow> r \<le> 16 \<Longrightarrow> length (show_radix r n) \<le> mx \<Longrightarrow>
     read_digits r mx 0 0 (show_radix r n) = Some (n, length (show_radix r n), [])"
proof (induction r n rule: show_radix.induct)
  case (1 r n)
  show ?case
  proof (cases "n < r")
    case True
    then show ?thesis using 1 by (subst show_radix.simps) (simp add: show_radix.simps [of r n] to_digit_hex_digit)
  next
    case False
    then have s: "show_radix r n = show_radix r (n div r) @ [hex_digit (n mod r)]"
      using 1 by (subst show_radix.simps) simp
    have "read_digits r mx 0 0 (show_radix r (n div r)) = Some (n div r, length (show_radix r (n div r)), [])"
      using 1 False s by simp
    then show ?thesis
      using 1 s by (simp add: read_digits_append to_digit_hex_digit)
  qed
qed

lemma length_show_radix: "2 \<le> r \<Longrightarrow> n < r ^ Suc k \<Longrightarrow> length (show_radix r n) \<le> Suc k"
proof (induction k arbitrary: n)
  case 0
  then show ?case by (subst show_radix.simps) simp
next
  case (Suc k)
  then have "n div r < r ^ Suc k" by (simp add: less_mult_imp_div_less mult.commute)
  with Suc show ?case by (subst show_radix.simps) simp
qed

lemma hd_show_radix: "2 \<le> r \<Longrightarrow> r \<le> 16 \<Longrightarrow> 0 < n \<Longrightarrow> hd (show_radix r n) \<noteq> 0x30"
proof (induction r n rule: show_radix.induct)
  case (1 r n)
  have h: "hex_digit n \<noteq> 0x30" if "n < 16"
    using that "1.prems"(3) unat_hex_digit [OF that] by (auto simp: word_unat_eq_iff split: if_splits)
  have "show_radix r (n div r) \<noteq> []" by (subst show_radix.simps) simp
  then show ?case
    using 1 h by (subst show_radix.simps) (auto simp: div_greater_zero_iff not_less)
qed

text \<open>The reading stops at anything that is no digit.\<close>

definition stops :: "nat \<Rightarrow> bytes \<Rightarrow> bool" where
  "stops r s \<longleftrightarrow> s = [] \<or> to_digit r (hd s) = None"

lemma read_digits_stops: "stops r s \<Longrightarrow> read_digits r mx a c s = Some (a, c, s)"
  by (cases s) (auto simp: stops_def)

lemma read_number_show:
  assumes "2 \<le> r" and "r \<le> 16" and "n < r ^ mx" and "0 < mx" and "int n < bound" and "stops r rest"
  shows "read_number r mx az bound (show_radix r n @ rest) = Some (n, rest)"
proof -
  have l: "length (show_radix r n) \<le> mx"
    using length_show_radix [OF assms(1), of n "mx - 1"] assms(3,4) by simp
  have ne: "show_radix r n \<noteq> []" by (subst show_radix.simps) simp
  have "length (show_radix r n) = 1" if "hd (show_radix r n) = 0x30"
  proof -
    have "n = 0" using hd_show_radix [of r n] that assms by auto
    then show ?thesis using assms(1) by (subst show_radix.simps) simp
  qed
  then show ?thesis
    using assms l ne
    by (auto simp: read_number_def read_digits_append read_digits_show read_digits_stops)
qed

lemma stops_char: "to_digit r c = None \<Longrightarrow> stops r (c # s)"
  by (simp add: stops_def)

lemma stops_simps [simp]: "stops r []" "stops 10 (0x2e # s)" "stops 16 (0x3a # s)" "stops 10 (0x5d # s)" "stops 16 (0x2e # s)"
  by (simp_all add: stops_def to_digit_def word_le_nat_alt)

subsection \<open>IPv4\<close>

lemma read_octet:
  "stops 10 rest \<Longrightarrow> read_number 10 3 False 256 (show_nat (unat (b :: u8)) @ rest) = Some (unat b, rest)"
proof -
  assume r: "stops 10 rest"
  have u: "uint b < 256" using unsigned_less [of b, where 'a = int] by simp
  have n: "unat b < 10 ^ 3" using unat_u8_less [of b] by (simp del: unat_u8_less)
  show ?thesis
    unfolding show_nat_radix using u r by (intro read_number_show n) simp_all
qed

lemma four: "(4 :: nat) = Suc (Suc (Suc (Suc 0)))"
  by simp

lemma length_4:
  assumes "length xs = 4"
  obtains a b c d where "xs = [a, b, c, d]"
  using assms unfolding four by (auto simp: length_Suc_conv)

lemma read_ipv4_show:
  assumes "length ip = 4" and "stops 10 rest"
  shows "read_ipv4_addr (show_ipv4 ip @ rest) = Some (ip, rest)"
proof -
  obtain a b c d where ip: "ip = [a, b, c, d]"
    using assms(1) by (rule length_4)
  show ?thesis
    unfolding read_ipv4_addr_def four using assms(2)
    by (simp add: show_ipv4_def ip read_octet read_separator_def read_given_char_def)
qed

lemma read_number_stops: "stops r s \<Longrightarrow> read_number r mx az bound s = None"
  by (simp add: read_number_def read_digits_stops)

lemma read_ipv4_stops: "stops 10 s \<Longrightarrow> read_ipv4_addr s = None"
  unfolding read_ipv4_addr_def four by (simp add: read_separator_def read_number_stops)

lemma read_digits_suffix: "read_digits r mx a c s = Some (a', c', t) \<Longrightarrow> set t \<subseteq> set s"
  by (induction s arbitrary: a c) (fastforce split: option.splits if_splits)+

lemma read_number_suffix: "read_number r mx az bound s = Some (v, t) \<Longrightarrow> set t \<subseteq> set s"
  by (auto simp: read_number_def split: option.splits if_splits dest!: read_digits_suffix)

lemma read_ipv4_no_dot:
  assumes "0x2e \<notin> set s"
  shows "read_ipv4_addr s = None"
proof -
  have "read_octets 1 3 t = None" if "set t \<subseteq> set s" for t
    using that assms by (cases t) (auto simp: numeral_3_eq_3 read_separator_def read_given_char_def)
  then have "read_octets 0 4 s = None"
    using read_number_suffix [of 10 3 False 256 s]
    by (auto simp: four numeral_3_eq_3 read_separator_def split: option.splits)
  then show ?thesis by (simp add: read_ipv4_addr_def)
qed

subsection \<open>IPv6\<close>

lemma set_show_radix: "c \<in> set (show_radix r n) \<Longrightarrow> 2 \<le> r \<Longrightarrow> r \<le> 16 \<Longrightarrow> \<exists>d < 16. c = hex_digit d"
proof (induction r n rule: show_radix.induct)
  case (1 r n)
  have "n mod r < 16" using "1.prems" by (simp add: order_less_le_trans [of _ r])
  moreover have "c = hex_digit n \<and> n < 16 \<or> (\<not> n < r \<and> (c \<in> set (show_radix r (n div r)) \<or> c = hex_digit (n mod r)))"
    using "1.prems" unfolding show_radix.simps [of r n] by (auto split: if_splits)
  ultimately show ?case using "1.IH" "1.prems"(2,3) by auto
qed

text \<open>Text of addresses is printable ASCII.\<close>

lemma hex_digit_plain: "d < 16 \<Longrightarrow> hex_digit d \<noteq> 0x2e \<and> 0x30 \<le> hex_digit d \<and> hex_digit d \<le> 0x66 \<and> hex_digit d \<noteq> 0x5b \<and> hex_digit d \<noteq> 0x5d"
  using unat_hex_digit [of d] by (auto simp: word_unat_eq_iff word_le_nat_alt split: if_splits)

lemma show_hex_plain: "c \<in> set (show_hex n) \<Longrightarrow> c \<noteq> 0x2e \<and> 0x30 \<le> c \<and> c \<le> 0x66 \<and> c \<noteq> 0x5b \<and> c \<noteq> 0x5d"
  using set_show_radix [of c 16 n] hex_digit_plain by (auto simp: show_hex_radix)

fun join_from :: "nat \<Rightarrow> nat list \<Rightarrow> bytes" where
  "join_from i [] = []"
| "join_from i (g # gs) = (if i > 0 then [0x3a] else []) @ show_hex g @ join_from (Suc i) gs"

lemma join_from_Suc: "join_from (Suc i) gs = concat (map (\<lambda>h. 0x3a # show_hex h) gs)"
  by (induction gs arbitrary: i) simp_all

lemma fmt_subslice_join: "fmt_subslice gs = join_from 0 gs"
  by (cases gs) (simp_all add: join_from_Suc)

lemma join_no_dot: "0x2e \<notin> set (join_from i gs)"
  by (induction gs arbitrary: i) (use show_hex_plain in auto)

definition group_end :: "bytes \<Rightarrow> bool" where
  "group_end rest \<longleftrightarrow> 0x2e \<notin> set rest \<and> (rest = [] \<or> (\<exists>u. rest = 0x3a # 0x3a # u))"

lemma read_groups_end: "group_end rest \<Longrightarrow> read_groups i limit rest = ([], False, rest)"
  by (subst read_groups.simps)
    (auto simp: group_end_def read_separator_def read_given_char_def read_number_stops read_ipv4_stops
      stops_def to_digit_def)

lemma stops_join: "group_end rest \<Longrightarrow> stops 16 (join_from (Suc i) gs @ rest)"
  by (cases gs) (auto simp: group_end_def)

lemma read_groups_join:
  "\<forall>g \<in> set gs. g < 65536 \<Longrightarrow> i + length gs \<le> limit \<Longrightarrow> group_end rest \<Longrightarrow>
     read_groups i limit (join_from i gs @ rest) = (gs, False, rest)"
proof (induction gs arbitrary: i)
  case Nil
  then show ?case by (simp add: read_groups_end)
next
  case (Cons g gs)
  let ?s = "join_from i (g # gs) @ rest"
  have dot: "0x2e \<notin> set ?s" using join_no_dot [of i "g # gs"] Cons.prems(3) by (auto simp: group_end_def)
  have v4: "read_separator 0x3a i read_ipv4_addr ?s = None"
    using dot read_ipv4_no_dot [of ?s] read_ipv4_no_dot [of "tl ?s"]
    by (auto simp: read_separator_def read_given_char_def split: if_splits)
  have "read_number 16 4 True 65536 (show_hex g @ join_from (Suc i) gs @ rest) = Some (g, join_from (Suc i) gs @ rest)"
    using read_number_show [of 16 g 4 65536 "join_from (Suc i) gs @ rest" True] Cons.prems stops_join
    by (simp add: show_hex_radix)
  then have n: "read_separator 0x3a i (read_number 16 4 True 65536) ?s = Some (g, join_from (Suc i) gs @ rest)"
    by (cases i) (simp_all add: read_separator_def read_given_char_def)
  have "read_groups i limit ?s = (case read_groups (Suc i) limit (join_from (Suc i) gs @ rest) of (gs, v4, r) \<Rightarrow> (g # gs, v4, r))"
    using Cons.prems(2) v4 n by (subst read_groups.simps) simp
  then show ?case using Cons by simp
qed

definition zero_run :: "nat list \<Rightarrow> nat \<times> nat \<Rightarrow> bool" where
  "zero_run segs sp \<longleftrightarrow> fst sp + snd sp \<le> length segs \<and> (\<forall>k. fst sp \<le> k \<and> k < fst sp + snd sp \<longrightarrow> segs ! k = 0)"

lemma zero_span_run:
  "zero_run (pre @ ss) lon \<Longrightarrow>
     (snd cur = 0 \<or> (fst cur + snd cur = length pre \<and> zero_run (pre @ ss) cur)) \<Longrightarrow>
     zero_run (pre @ ss) (zero_span (length pre) ss cur lon)"
proof (induction ss arbitrary: pre cur lon)
  case Nil
  then show ?case by simp
next
  case (Cons s ss)
  show ?case
  proof (cases "s = 0")
    case False
    then show ?thesis using Cons.IH [of "pre @ [s]" lon "(0, 0)"] Cons.prems by simp
  next
    case True
    define cur' where "cur' = (if snd cur = 0 then length pre else fst cur, snd cur + 1)"
    have c: "fst cur' + snd cur' = length (pre @ [s])" "zero_run ((pre @ [s]) @ ss) cur'"
      using Cons.prems(2) True by (auto simp: cur'_def zero_run_def nth_append less_Suc_eq)
    define lon' where "lon' = (if snd cur' > snd lon then cur' else lon)"
    have "zero_run ((pre @ [s]) @ ss) lon'" using c Cons.prems(1) by (simp add: lon'_def)
    from Cons.IH [OF this disjI2 [OF conjI [OF c]]] show ?thesis
      using True by (auto simp: cur'_def lon'_def Let_def split: if_splits)
  qed
qed

lemma zero_run_split:
  assumes "zero_run segs (st, ln)"
  shows "segs = take st segs @ replicate ln 0 @ drop (st + ln) segs"
proof -
  have "take ln (drop st segs) = replicate ln 0"
    using assms by (intro nth_equalityI) (auto simp: zero_run_def)
  then show ?thesis
    by (metis append_take_drop_id add.commute drop_drop)
qed

lemma ip_segments_be:
  "even (length ip) \<Longrightarrow> concat (map (be 2) (ip_segments ip)) = ip \<and> length (ip_segments ip) = length ip div 2
     \<and> (\<forall>g \<in> set (ip_segments ip). g < 65536)"
proof (induction ip rule: ip_segments.induct)
  case (1 a b bs)
  have "be 2 (unat a * 256 + unat b) = [a, b]"
    using be_from_be [of "[a, b]" 2] from_be_snoc [of "[a]" b] from_be_snoc [of "[]" a] by simp
  moreover have "unat a * 256 + unat b < 65536" using unat_u8_le [of a] unat_u8_le [of b] by linarith
  ultimately show ?case using 1 by simp
qed auto

lemma read_ipv6_groups:
  assumes "\<forall>g \<in> set (gs @ hs). g < 65536" and "length gs + length hs < 8"
  shows "read_ipv6_addr (fmt_subslice gs @ str ''::'' @ fmt_subslice hs)
    = Some (gs @ replicate (8 - length gs - length hs) 0 @ hs, [])"
proof -
  have g: "group_end (0x3a # 0x3a # fmt_subslice hs)" "group_end []"
    using join_no_dot [of 0 hs] by (simp_all add: group_end_def fmt_subslice_join)
  have "read_groups 0 8 (fmt_subslice gs @ str ''::'' @ fmt_subslice hs) = (gs, False, 0x3a # 0x3a # fmt_subslice hs)"
    using read_groups_join [OF _ _ g(1), of gs 0 8] assms by (simp add: fmt_subslice_join)
  moreover have "read_groups 0 (8 - (length gs + 1)) (fmt_subslice hs) = (hs, False, [])"
    using read_groups_join [OF _ _ g(2), of hs 0 "8 - (length gs + 1)"] assms by (simp add: fmt_subslice_join)
  ultimately show ?thesis using assms(2) by (simp add: read_ipv6_addr_def read_given_char_def)
qed

lemma read_ipv6_full:
  assumes "\<forall>g \<in> set gs. g < 65536" and "length gs = 8"
  shows "read_ipv6_addr (fmt_subslice gs) = Some (gs, [])"
  using read_groups_join [of gs 0 8 "[]"] assms
  by (simp add: read_ipv6_addr_def fmt_subslice_join group_end_def)

lemma read_ipv6_mapped:
  assumes "length v4 = 4"
  shows "read_ipv6_addr (str ''::ffff:'' @ show_ipv4 v4)
    = Some ([0, 0, 0, 0, 0, 0xffff, unat (v4 ! 0) * 256 + unat (v4 ! 1), unat (v4 ! 2) * 256 + unat (v4 ! 3)], [])"
proof -
  let ?t = "0x3a # show_ipv4 v4"
  have c: "stops 10 (0x3a # s)" for s by (simp add: stops_def to_digit_def)
  have h: "read_groups 0 8 (str ''::ffff:'' @ show_ipv4 v4) = ([], False, str ''::ffff:'' @ show_ipv4 v4)"
    by (subst read_groups.simps) (simp add: read_separator_def read_ipv4_stops read_number_stops c)
  have "show_hex 0xffff = str ''ffff''"
    by (simp add: show_hex.simps [of 65535] show_hex.simps [of 4095] show_hex.simps [of 255] show_hex.simps [of 15] hex_digit_def)
  then have n: "read_number 16 4 True 65536 (str ''ffff'' @ ?t) = Some (0xffff, ?t)"
    using read_number_show [of 16 "0xffff" 4 65536 ?t True] by (simp add: show_hex_radix)
  have f: "stops 10 (str ''ffff'' @ ?t)" by (simp add: stops_def to_digit_def)
  have v: "read_groups (Suc 0) 7 ?t
      = ([unat (v4 ! 0) * 256 + unat (v4 ! 1), unat (v4 ! 2) * 256 + unat (v4 ! 3)], True, [])"
    using read_ipv4_show [OF assms, of "[]"]
    by (subst read_groups.simps) (simp add: read_separator_def read_given_char_def)
  have "read_groups 0 7 (str ''ffff'' @ ?t)
      = ([0xffff, unat (v4 ! 0) * 256 + unat (v4 ! 1), unat (v4 ! 2) * 256 + unat (v4 ! 3)], True, [])"
    using v n f by (subst read_groups.simps) (simp add: read_separator_def read_ipv4_stops del: str_simps)
  moreover have "replicate 5 (0 :: nat) = [0, 0, 0, 0, 0]" by (simp add: numeral_eq_Suc)
  ultimately show ?thesis using h by (simp add: read_ipv6_addr_def read_given_char_def)
qed

lemma parse_ipv6_show:
  assumes l: "length ip = 16"
  shows "parse_ipv6 (show_ipv6 ip) = Some ip"
proof (cases "take 12 ip = replicate 10 0 @ [0xff, 0xff]")
  case True
  have v: "length (drop 12 ip) = 4" using l by simp
  then obtain a b c d where d: "drop 12 ip = [a, b, c, d]" by (rule length_4)
  have "concat (map (be 2) [0, 0, 0, 0, 0, 0xffff, unat a * 256 + unat b, unat c * 256 + unat d])
      = replicate 10 0 @ [0xff, 0xff, a, b, c, d]"
  proof -
    have b: "be 2 (unat x * 256 + unat y) = [x, y]" for x y :: u8
      using ip_segments_be [of "[x, y]"] by (simp del: be_numeral)
    have "be 2 0 = [0, 0]" "be 2 0xffff = [0xff, 0xff]" using b [of 0 0] b [of "0xff" "0xff"] by simp_all
    moreover have "replicate 10 (0 :: u8) = [0, 0, 0, 0, 0, 0, 0, 0, 0, 0]" by (simp add: numeral_eq_Suc)
    ultimately show ?thesis by (simp add: b del: be_numeral be.simps)
  qed
  moreover have "ip = replicate 10 0 @ [0xff, 0xff, a, b, c, d]"
    using True d by (metis append_take_drop_id append.assoc append_Cons append_Nil)
  ultimately show ?thesis
    using True d read_ipv6_mapped [OF v] by (simp add: parse_ipv6_def show_ipv6_def parse_all_def del: be_numeral str_simps)
next
  case False
  define segs where "segs = ip_segments ip"
  have s: "concat (map (be 2) segs) = ip" "length segs = 8" "\<forall>g \<in> set segs. g < 65536"
    using ip_segments_be [of ip] l by (simp_all add: segs_def)
  obtain st ln where z: "zero_span 0 segs (0, 0) (0, 0) = (st, ln)" by fastforce
  have zr: "zero_run segs (st, ln)"
    using zero_span_run [of "[]" segs "(0, 0)" "(0, 0)"] z by (simp add: zero_run_def)
  note split = zero_run_split [OF zr]
  have n: "st + ln \<le> 8" using zr s by (simp add: zero_run_def)
  show ?thesis
  proof (cases "ln > 1")
    case True
    have g: "\<forall>g \<in> set (take st segs @ drop (st + ln) segs). g < 65536"
      using s(3) by (auto dest: in_set_takeD in_set_dropD)
    have "take st segs @ replicate (8 - length (take st segs) - length (drop (st + ln) segs)) 0 @ drop (st + ln) segs = segs"
      using split n s(2) by simp
    with read_ipv6_groups [OF g] True n s show ?thesis
      using False z by (simp add: parse_ipv6_def show_ipv6_def parse_all_def segs_def [symmetric])
  next
    case nz: False
    then show ?thesis
      using read_ipv6_full [OF s(3,2)] False z s
      by (simp add: parse_ipv6_def show_ipv6_def parse_all_def segs_def [symmetric])
  qed
qed

subsection \<open>Addresses\<close>

text \<open>A text that begins and ends with a printable ASCII character is not trimmed.\<close>

definition plain :: "u8 \<Rightarrow> bool" where
  "plain c \<longleftrightarrow> 0x21 \<le> c \<and> c < 0x80"

lemma strip_front_plain:
  assumes "plain c" and "encs = ws_encodings \<or> encs = map rev ws_encodings"
  shows "strip_front encs (c # r) = c # r"
proof -
  have "c \<noteq> x" if "x < 0x21 \<or> 0x80 \<le> x" for x using that assms(1) by (auto simp: plain_def)
  then have "\<forall>e \<in> set encs. \<not> starts_with (c # r) e"
    using assms(2) by (auto simp: ws_encodings_def starts_with_def)
  then have "ws_len encs (c # r) = 0" by (auto simp: ws_len_def find_None_iff split: option.splits dest!: find_SomeD)
  then show ?thesis by (subst strip_front.simps) simp
qed

lemma trim_plain:
  assumes "s \<noteq> []" and "plain (hd s)" and "plain (last s)"
  shows "trim s = s"
proof -
  have f: "strip_front ws_encodings s = s" using strip_front_plain [of "hd s" ws_encodings "tl s"] assms by simp
  obtain u c where u: "s = u @ [c]" using assms(1) by (metis append_butlast_last_id)
  then have "strip_front (map rev ws_encodings) (rev s) = rev s"
    using strip_front_plain [of c "map rev ws_encodings" "rev u"] assms(3) by simp
  with f show ?thesis by (simp add: trim_def trim_start_def trim_end_def)
qed

lemma show_nat_ends:
  "show_nat n = u @ c # v \<Longrightarrow> plain c \<and> c \<noteq> 0x5b"
  using show_nat_digits [of c n] by (auto simp: plain_def word_le_nat_alt word_less_nat_alt)

lemma show_ipv4_ends: "plain (hd (show_ipv4 ip)) \<and> plain (last (show_ipv4 ip)) \<and> hd (show_ipv4 ip) \<noteq> 0x5b \<and> show_ipv4 ip \<noteq> []"
proof -
  have p: "plain c \<and> c \<noteq> 0x5b" if "c \<in> set (show_nat n)" for c n
    using show_nat_ends that by (metis in_set_conv_decomp)
  have "hd (show_ipv4 ip) = hd (show_nat (unat (ip ! 0)))" "last (show_ipv4 ip) = last (show_nat (unat (ip ! 3)))"
    by (simp_all add: show_ipv4_def)
  then show ?thesis using p [OF hd_in_set] p [OF last_in_set] by (simp add: show_ipv4_def)
qed

lemma length_show_ipv4: "length (show_ipv4 ip) \<le> 15"
proof -
  have "length (show_nat (unat (b :: u8))) \<le> 3" for b
    using length_show_radix [of 10 "unat b" 2] unat_u8_le [of b] by (simp add: show_nat_radix del: unat_u8_le)
  from this [of "ip ! 0"] this [of "ip ! 1"] this [of "ip ! 2"] this [of "ip ! 3"] show ?thesis
    by (simp add: show_ipv4_def)
qed

lemma parse_ipv4_show6: "length ip = 16 \<Longrightarrow> parse_ipv4 (show_ipv6 ip) = None"
proof -
  assume l: "length ip = 16"
  have "read_ipv4_addr (show_ipv6 ip) = None"
  proof (cases "take 12 ip = replicate 10 0 @ [0xff, 0xff]")
    case True
    have "stops 10 (str ''::ffff:'' @ show_ipv4 (drop 12 ip))" by (simp add: stops_def to_digit_def)
    then show ?thesis using True by (simp add: show_ipv6_def read_ipv4_stops del: str_simps)
  next
    case False
    have "0x2e \<notin> set (fmt_subslice gs @ str ''::'' @ fmt_subslice hs)" "0x2e \<notin> set (fmt_subslice gs)" for gs hs
      using join_no_dot by (auto simp: fmt_subslice_join)
    then have "0x2e \<notin> set (show_ipv6 ip)"
      using False unfolding show_ipv6_def Let_def by (simp split: prod.splits del: str_simps)
    then show ?thesis by (rule read_ipv4_no_dot)
  qed
  then show ?thesis by (simp add: parse_ipv4_def parse_all_def)
qed

text \<open>
  C36: an IP address printed for a log line, a socket address or a header parses back to itself:
  four octets without leading zeros, and all the forms of IPv6 text (compressed zeros, the mapped
  IPv4 form, the full form), in brackets.
\<close>

theorem address_display_roundtrip:
  assumes "wf_address a" and "family a \<noteq> FamDomain"
  shows "Address_parse (Address_display a) = a"
proof (cases a)
  case (IPv4 ip)
  then have l: "length ip = 4" using assms by simp
  have "parse_ipv4 (show_ipv4 ip) = Some ip"
    using read_ipv4_show [OF l, of "[]"] length_show_ipv4 [of ip] by (simp add: parse_ipv4_def parse_all_def not_less)
  then show ?thesis
    using show_ipv4_ends [of ip] IPv4 by (simp add: Address_parse_def trim_plain)
next
  case (IPv6 ip)
  then have l: "length ip = 16" using assms by simp
  have "trim (0x5b # show_ipv6 ip @ [0x5d]) = 0x5b # show_ipv6 ip @ [0x5d]"
    by (rule trim_plain) (simp_all add: plain_def)
  then show ?thesis
    using IPv6 parse_ipv4_show6 [OF l] parse_ipv6_show [OF l] by (simp add: Address_parse_def)
next
  case (Domain d)
  then show ?thesis using assms by simp
qed

theorem address_display_roundtrip_witness:
  "wf_address (IPv6 ([0x20, 0x01] @ replicate 13 0 @ [1])) \<and>
   Address_parse (Address_display (IPv6 ([0x20, 0x01] @ replicate 13 0 @ [1]))) = IPv6 ([0x20, 0x01] @ replicate 13 0 @ [1])"
  using address_display_roundtrip [of "IPv6 ([0x20, 0x01] @ replicate 13 0 @ [1])"] by simp

end
