(* ===== verification/Conn.thy ===== *)
theory Conn
  imports Tape
begin

text \<open>
  A connection that is read and written. Its state is the tape still to come, the sizes in which
  \<open>read\<close> will hand the bytes out, what has been written, and the outcomes of the writes to come (no
  entry means success). A computation on it returns a result and the state after it; the rules below
  describe its successful runs.
\<close>

record Conn =
  c_in :: tape
  c_sizes :: "nat list"
  c_out :: bytes
  c_faults :: "io_error option list"

type_synonym ('e, 'a) conn = "Conn \<Rightarrow> ('e + 'a) \<times> Conn"

definition retC :: "'a \<Rightarrow> ('e, 'a) conn" where
  "retC x c = (Inr x, c)"

definition errC :: "'e \<Rightarrow> ('e, 'a) conn" where
  "errC e c = (Inl e, c)"

definition liftC :: "'e + 'a \<Rightarrow> ('e, 'a) conn" where
  "liftC r c = (r, c)"

definition bindC :: "('e, 'a) conn \<Rightarrow> ('a \<Rightarrow> ('e, 'b) conn) \<Rightarrow> ('e, 'b) conn" where
  "bindC m f c = (case m c of (Inl e, c') \<Rightarrow> (Inl e, c') | (Inr x, c') \<Rightarrow> f x c')"

text \<open>\<open>read_exact\<close>, \<open>write_all\<close>, and \<open>let _ =\<close> before a call.\<close>

definition readC :: "(io_error \<Rightarrow> 'e) \<Rightarrow> nat \<Rightarrow> ('e, bytes) conn" where
  "readC io n c = (case read_exactT io n (c_in c) of (r, t) \<Rightarrow> (r, c\<lparr>c_in := t\<rparr>))"

definition writeC :: "(io_error \<Rightarrow> 'e) \<Rightarrow> bytes \<Rightarrow> ('e, unit) conn" where
  "writeC io bs c =
     (case c_faults c of
        Some e # fs \<Rightarrow> (Inl (io e), c\<lparr>c_faults := fs\<rparr>)
      | _ \<Rightarrow> (Inr (), c\<lparr>c_out := c_out c @ bs, c_faults := tl (c_faults c)\<rparr>))"

definition tryC :: "('e, unit) conn \<Rightarrow> ('e, unit) conn" where
  "tryC m c = (Inr (), snd (m c))"

text \<open>One \<open>read\<close> into a buffer of \<open>n\<close> bytes: at least one byte, at most the next size and the buffer.\<close>

definition lead :: "tape \<Rightarrow> bytes" where
  "lead t = map projr (takeWhile (\<lambda>x. \<not> isl x) t)"

definition read_someC :: "(io_error \<Rightarrow> 'e) \<Rightarrow> nat \<Rightarrow> ('e, bytes) conn" where
  "read_someC io n c =
     (case c_in c of
        [] \<Rightarrow> (Inr [], c)
      | Inl e # t \<Rightarrow> (Inl (io e), c\<lparr>c_in := t\<rparr>)
      | Inr b # t \<Rightarrow>
          let k = max 1 (min n (case c_sizes c of [] \<Rightarrow> n | s # _ \<Rightarrow> s));
              bs = take k (lead (c_in c))
          in (Inr bs, c\<lparr>c_in := drop (length bs) (c_in c), c_sizes := tl (c_sizes c)\<rparr>))"

section \<open>Successful runs\<close>

named_theorems conn_runs "what a successful run of a computation means"

lemma retC_run [simp]: "retC x c = (Inr x, c)" by (simp add: retC_def)
lemma errC_run [simp]: "errC e c = (Inl e, c)" by (simp add: errC_def)
lemma liftC_run [simp]: "liftC r c = (r, c)" by (simp add: liftC_def)
lemma tryC_run [simp]: "tryC m c = (Inr (), snd (m c))" by (simp add: tryC_def)

lemma bindC_Inr_iff [conn_runs]:
  "bindC m f c = (Inr y, c'') \<longleftrightarrow> (\<exists>x c'. m c = (Inr x, c') \<and> f x c' = (Inr y, c''))"
  by (auto simp: bindC_def split: sum.splits prod.splits)

lemma bindC_Inr: "m c = (Inr x, c') \<Longrightarrow> bindC m f c = f x c'"
  by (simp add: bindC_def)

lemma bindC_try [simp]: "bindC (tryC m) f c = f () (snd (m c))"
  by (simp add: bindC_def)

lemma writeC_Inr:
  "writeC io bs c = (Inr u, c') \<Longrightarrow> c' = c\<lparr>c_out := c_out c @ bs, c_faults := tl (c_faults c)\<rparr>"
  by (auto simp: writeC_def split: list.splits option.splits)

lemma writeC_ok [simp]: "c_faults c = [] \<Longrightarrow> writeC io bs c = (Inr (), c\<lparr>c_out := c_out c @ bs\<rparr>)"
  by (cases c) (simp add: writeC_def)

lemma readC_bytes [simp]:
  "c_in c = bytesT (xs @ ys) \<Longrightarrow> length xs = n \<Longrightarrow> readC io n c = (Inr xs, c\<lparr>c_in := bytesT ys\<rparr>)"
  by (simp add: readC_def)

text \<open>Running a computation forwards on a tape whose first bytes are known.\<close>

named_theorems conn_steps "one step of a run on known bytes"

lemma readC_known [conn_steps]:
  "c_in c = Inr x # t \<Longrightarrow> readC io (Suc 0) c = (Inr [x], c\<lparr>c_in := t\<rparr>)"
  "c_in c = Inr x # Inr y # t \<Longrightarrow> readC io 2 c = (Inr [x, y], c\<lparr>c_in := t\<rparr>)"
  "c_in c = Inr x # Inr y # Inr z # Inr w # t \<Longrightarrow> readC io 4 c = (Inr [x, y, z, w], c\<lparr>c_in := t\<rparr>)"
  "c_in c = bytesT xs @ t \<Longrightarrow> length xs = n \<Longrightarrow> readC io n c = (Inr xs, c\<lparr>c_in := t\<rparr>)"
  by (simp_all add: readC_def numeral_2_eq_2 numeral_eq_Suc)

declare bindC_Inr [conn_steps]

lemma readC_bytes_iff:
  "c_in c = bytesT bs \<Longrightarrow>
     readC io n c = (Inr xs, c') \<longleftrightarrow> length xs = n \<and> (\<exists>ys. bs = xs @ ys \<and> c' = c\<lparr>c_in := bytesT ys\<rparr>)"
proof -
  assume c: "c_in c = bytesT bs"
  have "readC io n c = (Inr xs, c') \<longleftrightarrow> (\<exists>t. read_exactT io n (bytesT bs) = (Inr xs, t) \<and> c' = c\<lparr>c_in := t\<rparr>)"
    by (auto simp: readC_def c split: prod.splits)
  then show ?thesis unfolding read_exactT_bytes_iff by blast
qed

lemma readC_one:
  "c_in c = bytesT bs \<Longrightarrow> readC io (Suc 0) c = (Inr xs, c') \<longleftrightarrow>
     (\<exists>b ys. xs = [b] \<and> bs = b # ys \<and> c' = c\<lparr>c_in := bytesT ys\<rparr>)"
  using readC_bytes_iff [of c bs io "Suc 0" xs c'] by (auto simp: length_Suc_conv)

lemma lead_length: "length (lead t) \<le> length t"
  by (simp add: lead_def length_takeWhile_le)

lemma read_someC_shrinks:
  "read_someC io n c = (Inr bs, c') \<Longrightarrow> bs \<noteq> [] \<Longrightarrow> length (c_in c') < length (c_in c)"
  by (auto simp: read_someC_def Let_def lead_def split: list.splits sum.splits)

lemma lead_bytes [simp]: "lead (bytesT bs) = bs"
  by (induction bs) (simp_all add: lead_def)

lemma read_someC_bytes:
  assumes "c_in c = bytesT bs" and "0 < n"
  obtains k where "read_someC io n c
      = (Inr (take k bs), c\<lparr>c_in := bytesT (drop k bs), c_sizes := (if bs = [] then c_sizes c else tl (c_sizes c))\<rparr>)"
    and "0 < k" and "k \<le> n"
proof (cases bs)
  case Nil
  then show ?thesis using assms that [of 1] by (cases c) (simp add: read_someC_def)
next
  case (Cons b bs')
  define k where "k = max 1 (min n (case c_sizes c of [] \<Rightarrow> n | s # _ \<Rightarrow> s))"
  have "lead (Inr b # bytesT bs') = bs" using lead_bytes [of bs] Cons by simp
  moreover have "drop (length (take k bs)) (bytesT bs) = bytesT (drop k bs)"
    by (cases "k \<le> length bs") (simp_all add: drop_map)
  ultimately have "read_someC io n c = (Inr (take k bs), c\<lparr>c_in := bytesT (drop k bs), c_sizes := tl (c_sizes c)\<rparr>)"
    using assms Cons by (simp add: read_someC_def Let_def k_def)
  moreover have "0 < k" "k \<le> n" using assms(2) by (auto simp: k_def)
  ultimately show ?thesis using that [of k] Cons by simp
qed

end
