(* ===== verification/Mixed_Proxy.thy ===== *)
theory Mixed_Proxy
  imports Conn Net_Address
begin

text \<open>
  The SOCKS half of the mixed proxy inbound (\<open>server/src/mixed_proxy.rs\<close>): its credentials, protocol
  detection, SOCKS4/4a and SOCKS5 requests with their authentication, and the replies.
\<close>

section \<open>Types\<close>

datatype MixedProxyError =
    MixInvalidCredentials | MixUnexpectedEof | MixUnsupportedSocksVersion u8 | MixNoAcceptableSocksAuth
  | MixSocksAuthFailed | MixSocks4AuthUnsupported | MixInvalidSocksRequest | MixUnsupportedSocksCommand u8
  | MixUnsupportedSocksAddressType u8 | MixInvalidSocksAddress | MixHttpHeaderTooLarge
  | MixInvalidHttpRequest | MixHttpAuthRequired | MixHttpAuthFailed | MixInvalidHttpTarget | MixIo io_error

record Credentials =
  cr_username :: rstr
  cr_password :: rstr

record MixedProxyConfig =
  mp_credentials :: "Credentials option"

definition Credentials_new :: "rstr \<Rightarrow> rstr \<Rightarrow> MixedProxyError + Credentials" where
  "Credentials_new username password =
     (if username = [] \<or> length username > 255 \<or> password = [] \<or> length password > 255
      then Inl MixInvalidCredentials
      else Inr \<lparr>cr_username = username, cr_password = password\<rparr>)"

definition MixedProxyConfig_new :: "rstr option \<Rightarrow> rstr option \<Rightarrow> MixedProxyError + MixedProxyConfig" where
  "MixedProxyConfig_new username password =
     (case (username, password) of
        (None, None) \<Rightarrow> Inr \<lparr>mp_credentials = None\<rparr>
      | (Some u, Some p) \<Rightarrow> bindr (Credentials_new u p) (\<lambda>cr. Inr \<lparr>mp_credentials = Some cr\<rparr>)
      | _ \<Rightarrow> Inl MixInvalidCredentials)"

definition credentials_match :: "Credentials \<Rightarrow> bytes \<Rightarrow> bytes \<Rightarrow> bool" where
  "credentials_match cr username password \<longleftrightarrow> cr_username cr = username \<and> cr_password cr = password"

definition basic_value :: "Credentials \<Rightarrow> rstr" where
  "basic_value cr = cr_username cr @ str '':'' @ cr_password cr"

datatype MixedProtocol = MpSocks4 | MpSocks5 | MpHttpConnect | MpHttpForward

record ConnectRequest =
  cq_protocol :: MixedProtocol
  cq_address :: Address
  cq_port :: Port
  cq_initial_data :: bytes

datatype SocketAddr = SockV4 bytes u16 | SockV6 bytes u16

type_synonym 'a mixed = "(MixedProxyError, 'a) conn"

abbreviation mread :: "nat \<Rightarrow> bytes mixed" where
  "mread \<equiv> readC MixIo"

abbreviation mwrite :: "bytes \<Rightarrow> unit mixed" where
  "mwrite \<equiv> writeC MixIo"

text \<open>\<open>peek\<close> leaves the byte it sees where it is.\<close>

definition detect_protocol :: "MixedProtocol mixed" where
  "detect_protocol c =
     (case c_in c of
        [] \<Rightarrow> (Inl MixUnexpectedEof, c)
      | Inl e # t \<Rightarrow> (Inl (MixIo e), c\<lparr>c_in := t\<rparr>)
      | Inr b # t \<Rightarrow> (Inr (if b = 4 then MpSocks4 else if b = 5 then MpSocks5 else MpHttpConnect), c))"

section \<open>Replies\<close>

fun socks4_reply :: "u8 \<Rightarrow> SocketAddr option \<Rightarrow> bytes" where
  "socks4_reply rep (Some (SockV4 ip prt)) = [0, rep] @ u16_be prt @ ip"
| "socks4_reply rep _ = [0, rep] @ u16_be 0 @ [0, 0, 0, 0]"

definition write_socks4_reply :: "u8 \<Rightarrow> SocketAddr option \<Rightarrow> unit mixed" where
  "write_socks4_reply rep bound = mwrite (socks4_reply rep bound)"

definition write_socks4_success :: "SocketAddr option \<Rightarrow> unit mixed" where
  "write_socks4_success bound = write_socks4_reply 0x5a bound"

definition write_socks4_rejected :: "unit mixed" where
  "write_socks4_rejected = write_socks4_reply 0x5b None"

definition write_socks4_connect_error :: "unit mixed" where
  "write_socks4_connect_error = write_socks4_rejected"

fun socks5_reply :: "u8 \<Rightarrow> SocketAddr option \<Rightarrow> bytes" where
  "socks5_reply rep (Some (SockV4 ip prt)) = [5, rep, 0] @ [1] @ ip @ u16_be prt"
| "socks5_reply rep (Some (SockV6 ip prt)) = [5, rep, 0] @ [4] @ ip @ u16_be prt"
| "socks5_reply rep None = [5, rep, 0] @ [1] @ [0, 0, 0, 0] @ u16_be 0"

definition write_socks5_reply :: "u8 \<Rightarrow> SocketAddr option \<Rightarrow> unit mixed" where
  "write_socks5_reply rep bound = mwrite (socks5_reply rep bound)"

definition write_socks5_success :: "SocketAddr option \<Rightarrow> unit mixed" where
  "write_socks5_success bound = write_socks5_reply 0 bound"

definition write_socks5_connect_error :: "bool \<Rightarrow> unit mixed" where
  "write_socks5_connect_error connection_refused =
     write_socks5_reply (if connection_refused then 5 else 1) None"

section \<open>SOCKS4 and 4a\<close>

function read_null_terminated_loop :: "nat \<Rightarrow> bytes \<Rightarrow> bytes mixed" where
  "read_null_terminated_loop limit field c =
     (case mread 1 c of
        (Inl e, c') \<Rightarrow> (Inl e, c')
      | (Inr byte, c') \<Rightarrow>
          if hd byte = 0 then (Inr field, c')
          else if length field \<ge> limit then (Inl MixInvalidSocksAddress, c')
          else read_null_terminated_loop limit (field @ [hd byte]) c')"
  by pat_completeness auto
termination
  by (relation "measure (\<lambda>(limit, field, c). Suc limit - length field)") auto

declare read_null_terminated_loop.simps [simp del]

definition read_null_terminated :: "nat \<Rightarrow> bytes mixed" where
  "read_null_terminated limit = read_null_terminated_loop limit []"

definition accept_socks4_connect :: "MixedProxyConfig \<Rightarrow> ConnectRequest mixed" where
  "accept_socks4_connect config =
     bindC (mread 8) (\<lambda>header.
       if header ! 0 \<noteq> 4 then
         bindC (tryC write_socks4_rejected) (\<lambda>_. errC (MixUnsupportedSocksVersion (header ! 0)))
       else if header ! 1 \<noteq> 1 then
         bindC (tryC write_socks4_rejected) (\<lambda>_. errC (MixUnsupportedSocksCommand (header ! 1)))
       else let prt = Port (u16_of_be (take 2 (drop 2 header))); dst_ip = drop 4 header in
         bindC (read_null_terminated 1024) (\<lambda>_.
         bindC (if take 3 dst_ip = [0, 0, 0] \<and> dst_ip ! 3 \<noteq> 0 then
                  bindC (read_null_terminated 255) (\<lambda>domain.
                    if domain = [] then
                      bindC (tryC write_socks4_rejected) (\<lambda>_. errC MixInvalidSocksAddress)
                    else (case from_utf8 domain of
                        None \<Rightarrow> bindC (tryC write_socks4_rejected) (\<lambda>_. errC MixInvalidSocksAddress)
                      | Some d \<Rightarrow> retC (Domain d)))
                else retC (IPv4 dst_ip)) (\<lambda>addr.
         if mp_credentials config \<noteq> None then
           bindC (tryC write_socks4_rejected) (\<lambda>_. errC MixSocks4AuthUnsupported)
         else retC \<lparr>cq_protocol = MpSocks4, cq_address = addr, cq_port = prt, cq_initial_data = []\<rparr>)))"

section \<open>SOCKS5\<close>

definition authenticate_socks_userpass :: "Credentials \<Rightarrow> unit mixed" where
  "authenticate_socks_userpass cr =
     bindC (mread 2) (\<lambda>header.
       if header ! 0 \<noteq> 1 \<or> header ! 1 = 0 then
         bindC (tryC (mwrite [1, 1])) (\<lambda>_. errC MixSocksAuthFailed)
       else
         bindC (mread (unat (header ! 1))) (\<lambda>username.
         bindC (mread 1) (\<lambda>plen.
           if plen ! 0 = 0 then bindC (tryC (mwrite [1, 1])) (\<lambda>_. errC MixSocksAuthFailed)
           else
             bindC (mread (unat (plen ! 0))) (\<lambda>password.
               if credentials_match cr username password then mwrite [1, 0]
               else bindC (mwrite [1, 1]) (\<lambda>_. errC MixSocksAuthFailed)))))"

text \<open>The choice among the methods the client offers.\<close>

definition choose_socks_method :: "Credentials option \<Rightarrow> bytes \<Rightarrow> unit mixed" where
  "choose_socks_method credentials methods =
     (case credentials of
        Some cr \<Rightarrow>
          if 2 \<in> set methods then bindC (mwrite [5, 2]) (\<lambda>_. authenticate_socks_userpass cr)
          else bindC (mwrite [5, 0xff]) (\<lambda>_. errC MixNoAcceptableSocksAuth)
      | None \<Rightarrow>
          if 0 \<in> set methods then mwrite [5, 0]
          else bindC (mwrite [5, 0xff]) (\<lambda>_. errC MixNoAcceptableSocksAuth))"

definition negotiate_socks_auth :: "Credentials option \<Rightarrow> unit mixed" where
  "negotiate_socks_auth credentials =
     bindC (mread 2) (\<lambda>greeting.
       if greeting ! 0 \<noteq> 5 then errC (MixUnsupportedSocksVersion (greeting ! 0))
       else let nmethods = unat (greeting ! 1) in
         if nmethods = 0 then
           bindC (tryC (mwrite [5, 0xff])) (\<lambda>_. errC MixNoAcceptableSocksAuth)
         else bindC (mread nmethods) (choose_socks_method credentials))"

definition read_socks_address :: "u8 \<Rightarrow> Address mixed" where
  "read_socks_address atyp =
     (if atyp = 1 then bindC (mread 4) (\<lambda>octets. retC (IPv4 octets))
      else if atyp = 3 then
        bindC (mread 1) (\<lambda>len.
          if len ! 0 = 0 then
            bindC (tryC (write_socks5_reply 8 None)) (\<lambda>_. errC MixInvalidSocksAddress)
          else
            bindC (mread (unat (len ! 0))) (\<lambda>name.
              case from_utf8 name of None \<Rightarrow> errC MixInvalidSocksAddress | Some d \<Rightarrow> retC (Domain d)))
      else if atyp = 4 then bindC (mread 16) (\<lambda>octets. retC (IPv6 octets))
      else bindC (tryC (write_socks5_reply 8 None)) (\<lambda>_. errC (MixUnsupportedSocksAddressType atyp)))"

text \<open>The request that follows the login.\<close>

definition read_socks5_request :: "ConnectRequest mixed" where
  "read_socks5_request =
     bindC (mread 4) (\<lambda>header.
       if header ! 0 \<noteq> 5 \<or> header ! 2 \<noteq> 0 then
         bindC (tryC (write_socks5_reply 1 None)) (\<lambda>_. errC MixInvalidSocksRequest)
       else if header ! 1 \<noteq> 1 then
         bindC (tryC (write_socks5_reply 7 None)) (\<lambda>_. errC (MixUnsupportedSocksCommand (header ! 1)))
       else
         bindC (read_socks_address (header ! 3)) (\<lambda>addr.
         bindC (mread 2) (\<lambda>prt.
           retC \<lparr>cq_protocol = MpSocks5, cq_address = addr, cq_port = Port (u16_of_be prt),
                 cq_initial_data = []\<rparr>)))"

definition accept_socks5_connect :: "MixedProxyConfig \<Rightarrow> ConnectRequest mixed" where
  "accept_socks5_connect config =
     bindC (negotiate_socks_auth (mp_credentials config)) (\<lambda>_. read_socks5_request)"

section \<open>What a SOCKS5 client has to send\<close>

fun socks_wire :: "Address \<Rightarrow> bytes" where
  "socks_wire (IPv4 ip) = 1 # ip"
| "socks_wire (Domain d) = [3, word_of_nat (length d)] @ d"
| "socks_wire (IPv6 ip) = 4 # ip"

definition wf_socks :: "Address \<Rightarrow> bool" where
  "wf_socks a \<longleftrightarrow> wf_address a \<and> (case a of Domain d \<Rightarrow> d \<noteq> [] \<and> length d \<le> 255 | _ \<Rightarrow> True)"

definition wf_credentials :: "Credentials \<Rightarrow> bool" where
  "wf_credentials cr \<longleftrightarrow> cr_username cr \<noteq> [] \<and> length (cr_username cr) \<le> 255
     \<and> cr_password cr \<noteq> [] \<and> length (cr_password cr) \<le> 255"

definition userpass_wire :: "Credentials \<Rightarrow> bytes" where
  "userpass_wire cr = [1, word_of_nat (length (cr_username cr))] @ cr_username cr
     @ [word_of_nat (length (cr_password cr))] @ cr_password cr"

text \<open>The methods offered, the login that follows them, and what the server answers.\<close>

fun socks_login :: "Credentials option \<Rightarrow> bytes \<Rightarrow> bytes \<Rightarrow> bytes \<Rightarrow> bool" where
  "socks_login None methods auth reply \<longleftrightarrow> 0 \<in> set methods \<and> auth = [] \<and> reply = [5, 0]"
| "socks_login (Some cr) methods auth reply \<longleftrightarrow> 2 \<in> set methods \<and> auth = userpass_wire cr \<and> reply = [5, 2, 1, 0]"

lemma Credentials_new_wf: "Credentials_new u p = Inr cr \<Longrightarrow> wf_credentials cr"
  by (auto simp: Credentials_new_def wf_credentials_def split: if_splits)

lemma MixedProxyConfig_new_wf: "MixedProxyConfig_new u p = Inr cfg \<Longrightarrow> mp_credentials cfg = Some cr \<Longrightarrow> wf_credentials cr"
  by (auto simp: MixedProxyConfig_new_def bindr_eq_Inr_iff Credentials_new_wf split: option.splits)

lemma length_2: "length xs = 2 \<longleftrightarrow> (\<exists>a b. xs = [a, b])"
  by (auto simp: length_Suc_conv numeral_2_eq_2)

lemma length_1: "length xs = Suc 0 \<longleftrightarrow> (\<exists>a. xs = [a])"
  by (auto simp: length_Suc_conv)

lemma length_4_iff: "length xs = 4 \<longleftrightarrow> (\<exists>a b c d. xs = [a, b, c, d])"
  using length_4 [of xs] by (metis length_Cons list.size(3) four)

lemma length_byte_iff: "length xs = unat (b :: u8) \<longleftrightarrow> b = word_of_nat (length xs) \<and> length xs \<le> 255"
  using unat_u8_le [of b] by (auto simp: unat_of_nat_u8 simp del: unat_u8_le)

lemma byte_length_0: "n \<le> 255 \<Longrightarrow> (word_of_nat n :: u8) = 0 \<longleftrightarrow> n = 0"
  by (simp add: word_unat_eq_iff unat_of_nat_u8)

lemma userpass_iff:
  assumes "c_in c = bytesT bs" and "c_faults c = []" and "wf_credentials cr"
  shows "authenticate_socks_userpass cr c = (Inr u, c') \<longleftrightarrow>
    (\<exists>rest. bs = userpass_wire cr @ rest \<and> c' = c\<lparr>c_in := bytesT rest, c_out := c_out c @ [1, 0]\<rparr>)"
    (is "?l \<longleftrightarrow> ?r")
proof
  assume ?l
  then show ?r
    using assms
    by (auto simp: authenticate_socks_userpass_def conn_runs readC_bytes_iff length_1 length_2 credentials_match_def
        length_byte_iff userpass_wire_def split: if_splits)
next
  assume ?r
  then obtain rest where bs: "bs = userpass_wire cr @ rest"
    and c': "c' = c\<lparr>c_in := bytesT rest, c_out := c_out c @ [1, 0]\<rparr>" by blast
  have w: "cr_username cr \<noteq> []" "length (cr_username cr) \<le> 255" "cr_password cr \<noteq> []" "length (cr_password cr) \<le> 255"
    using assms(3) by (auto simp: wf_credentials_def)
  show ?l
    using assms(1,2) w
    by (simp add: authenticate_socks_userpass_def conn_steps credentials_match_def unat_of_nat_u8
        userpass_wire_def bs c' byte_length_0)
qed

lemma negotiate_sound:
  assumes "c_in c = bytesT bs" and "c_faults c = []" and "\<And>cr. creds = Some cr \<Longrightarrow> wf_credentials cr"
    and "negotiate_socks_auth creds c = (Inr u, c')"
  obtains methods auth reply rest where "methods \<noteq> []" and "length methods \<le> 255"
    and "socks_login creds methods auth reply"
    and "bs = [5, word_of_nat (length methods)] @ methods @ auth @ rest"
    and "c' = c\<lparr>c_in := bytesT rest, c_out := c_out c @ reply\<rparr>"
proof -
  from assms(4) obtain g c1 where g: "mread 2 c = (Inr g, c1)" and "g ! 0 = 5" and n: "unat (g ! 1) \<noteq> 0"
    and "bindC (mread (unat (g ! 1))) (choose_socks_method creds) c1 = (Inr u, c')"
    by (auto simp: negotiate_socks_auth_def conn_runs Let_def split: if_splits)
  moreover obtain ys1 where c1: "g = [g ! 0, g ! 1]" "bs = g @ ys1" "c1 = c\<lparr>c_in := bytesT ys1\<rparr>"
    using g readC_bytes_iff [OF assms(1), of MixIo 2 g c1] by (auto simp: length_2)
  ultimately obtain methods ys where l: "length methods = unat (g ! 1)" and ys1: "ys1 = methods @ ys"
    and run: "choose_socks_method creds methods (c\<lparr>c_in := bytesT ys\<rparr>) = (Inr u, c')"
    by (auto simp: conn_runs readC_bytes_iff)
  have m: "methods \<noteq> []" "length methods \<le> 255" using l n by auto
  have bs: "bs = [5, word_of_nat (length methods)] @ methods @ ys"
    using c1 ys1 l \<open>g ! 0 = 5\<close> length_byte_iff [of methods "g ! 1"] by simp
  show ?thesis
  proof (cases creds)
    case None
    then show ?thesis using that [OF m, of "[]" "[5, 0]" ys] run assms(2) bs
      by (simp add: choose_socks_method_def conn_runs split: if_splits)
  next
    case (Some cr)
    then obtain rest where "2 \<in> set methods" "ys = userpass_wire cr @ rest"
      "c' = c\<lparr>c_in := bytesT rest, c_out := c_out c @ [5, 2, 1, 0]\<rparr>"
      using run assms(2) assms(3) [OF Some] userpass_iff [of "c\<lparr>c_in := bytesT ys, c_out := c_out c @ [5, 2]\<rparr>" ys cr u c']
      by (auto simp: choose_socks_method_def conn_runs split: if_splits)
    then show ?thesis using that [OF m, of "userpass_wire cr" "[5, 2, 1, 0]" rest] Some bs by simp
  qed
qed

lemma negotiate_complete:
  assumes "c_in c = bytesT ([5, word_of_nat (length methods)] @ methods @ auth @ rest)" and "c_faults c = []"
    and "\<And>cr. creds = Some cr \<Longrightarrow> wf_credentials cr" and "methods \<noteq> []" and "length methods \<le> 255"
    and "socks_login creds methods auth reply"
  shows "negotiate_socks_auth creds c = (Inr (), c\<lparr>c_in := bytesT rest, c_out := c_out c @ reply\<rparr>)"
proof (cases creds)
  case None
  then show ?thesis using assms
    by (simp add: negotiate_socks_auth_def choose_socks_method_def conn_steps unat_of_nat_u8 Let_def)
next
  case (Some cr)
  let ?c = "c\<lparr>c_in := bytesT (userpass_wire cr @ rest), c_out := c_out c @ [5, 2]\<rparr>"
  have "authenticate_socks_userpass cr ?c = (Inr (), c\<lparr>c_in := bytesT rest, c_out := c_out c @ [5, 2, 1, 0]\<rparr>)"
    using userpass_iff [of ?c "userpass_wire cr @ rest" cr "()"] assms(2) assms(3) [OF Some] by simp
  then show ?thesis using assms Some
    by (simp add: negotiate_socks_auth_def choose_socks_method_def conn_steps unat_of_nat_u8 Let_def)
qed

lemma read_socks_address_sound:
  assumes "c_in c = bytesT bs" and "read_socks_address ty c = (Inr a, c')"
  shows "wf_socks a" and "\<exists>rest. ty # bs = socks_wire a @ rest \<and> c' = c\<lparr>c_in := bytesT rest\<rparr>"
  using assms
  by (auto simp: read_socks_address_def conn_runs readC_bytes_iff length_1 length_byte_iff byte_length_0
        from_utf8_def wf_socks_def split: if_splits option.splits)

lemma read_socks_address_complete:
  assumes "wf_socks a" and "c_in c = bytesT (tl (socks_wire a) @ rest)"
  shows "read_socks_address (hd (socks_wire a)) c = (Inr a, c\<lparr>c_in := bytesT rest\<rparr>)"
  using assms
  by (cases a) (simp_all add: read_socks_address_def conn_steps unat_of_nat_u8 byte_length_0 from_utf8_def wf_socks_def)

lemma socks5_request_sound:
  assumes "c_in c = bytesT bs" and "read_socks5_request c = (Inr req, c')"
  obtains a p rest where "wf_socks a" and "bs = [5, 1, 0] @ socks_wire a @ u16_be p @ rest"
    and "req = \<lparr>cq_protocol = MpSocks5, cq_address = a, cq_port = Port p, cq_initial_data = []\<rparr>"
    and "c' = c\<lparr>c_in := bytesT rest\<rparr>"
proof -
  obtain ty zs a c2 prt where y: "bs = [5, 1, 0, ty] @ zs"
    and ra: "read_socks_address ty (c\<lparr>c_in := bytesT zs\<rparr>) = (Inr a, c2)" and rp: "mread 2 c2 = (Inr prt, c')"
    and req: "req = \<lparr>cq_protocol = MpSocks5, cq_address = a, cq_port = Port (u16_of_be prt), cq_initial_data = []\<rparr>"
    using assms by (auto simp: read_socks5_request_def conn_runs readC_bytes_iff length_4_iff split: if_splits)
  from read_socks_address_sound [OF _ ra, of zs] obtain ws where a: "wf_socks a" "ty # zs = socks_wire a @ ws"
    and c2: "c2 = c\<lparr>c_in := bytesT ws\<rparr>" by auto
  from rp obtain rest where p: "length prt = 2" "ws = prt @ rest" "c' = c\<lparr>c_in := bytesT rest\<rparr>"
    using readC_bytes_iff [of c2 ws MixIo 2 prt c'] c2 by auto
  show ?thesis
    by (rule that [OF a(1) _ req p(3)]) (use y a(2) p u16_be_of_be in simp)
qed

lemma socks5_request_complete:
  assumes "c_in c = bytesT ([5, 1, 0] @ socks_wire a @ u16_be p @ rest)" and "wf_socks a"
  shows "read_socks5_request c
    = (Inr \<lparr>cq_protocol = MpSocks5, cq_address = a, cq_port = Port p, cq_initial_data = []\<rparr>, c\<lparr>c_in := bytesT rest\<rparr>)"
proof -
  have w: "c_in c = Inr 5 # Inr 1 # Inr 0 # Inr (hd (socks_wire a)) # bytesT (tl (socks_wire a) @ u16_be p @ rest)"
    using assms(1) by (cases a) simp_all
  have "read_socks_address (hd (socks_wire a)) (c\<lparr>c_in := bytesT (tl (socks_wire a) @ u16_be p @ rest)\<rparr>)
      = (Inr a, c\<lparr>c_in := bytesT (u16_be p @ rest)\<rparr>)"
    using read_socks_address_complete [OF assms(2), of "c\<lparr>c_in := bytesT (tl (socks_wire a) @ u16_be p @ rest)\<rparr>" "u16_be p @ rest"]
    by simp
  then show ?thesis using w by (simp add: read_socks5_request_def conn_steps)
qed

lemma socks5_accepts_sound:
  assumes "c_in c = bytesT bs" and "c_faults c = []" and "MixedProxyConfig_new username password = Inr config"
    and "accept_socks5_connect config c = (Inr req, c')"
  shows "\<exists>methods auth reply a p rest. methods \<noteq> [] \<and> length methods \<le> 255
      \<and> socks_login (mp_credentials config) methods auth reply \<and> wf_socks a
      \<and> req = \<lparr>cq_protocol = MpSocks5, cq_address = a, cq_port = Port p, cq_initial_data = []\<rparr>
      \<and> bs = [5, word_of_nat (length methods)] @ methods @ auth @ [5, 1, 0] @ socks_wire a @ u16_be p @ rest
      \<and> c' = c\<lparr>c_in := bytesT rest, c_out := c_out c @ reply\<rparr>"
proof -
  note wf = MixedProxyConfig_new_wf [OF assms(3)]
  obtain u c1 where n: "negotiate_socks_auth (mp_credentials config) c = (Inr u, c1)"
    and k: "read_socks5_request c1 = (Inr req, c')"
    using assms(4) by (auto simp: accept_socks5_connect_def conn_runs)
  from negotiate_sound [OF assms(1,2) wf n] obtain methods auth reply ys where
    m: "methods \<noteq> []" "length methods \<le> 255" "socks_login (mp_credentials config) methods auth reply"
    and bs: "bs = [5, word_of_nat (length methods)] @ methods @ auth @ ys"
    and c1: "c1 = c\<lparr>c_in := bytesT ys, c_out := c_out c @ reply\<rparr>" by blast
  from k obtain a p rest where "wf_socks a" "ys = [5, 1, 0] @ socks_wire a @ u16_be p @ rest"
    "req = \<lparr>cq_protocol = MpSocks5, cq_address = a, cq_port = Port p, cq_initial_data = []\<rparr>"
    "c' = c\<lparr>c_in := bytesT rest, c_out := c_out c @ reply\<rparr>"
    by (rule socks5_request_sound [rotated]) (simp_all add: c1)
  with m bs show ?thesis by blast
qed

lemma socks5_accepts_complete:
  assumes "c_in c = bytesT ([5, word_of_nat (length methods)] @ methods @ auth @ [5, 1, 0] @ socks_wire a @ u16_be p @ rest)"
    and "c_faults c = []" and "MixedProxyConfig_new username password = Inr config"
    and m: "methods \<noteq> []" "length methods \<le> 255" "socks_login (mp_credentials config) methods auth reply"
    and a: "wf_socks a"
  shows "accept_socks5_connect config c
    = (Inr \<lparr>cq_protocol = MpSocks5, cq_address = a, cq_port = Port p, cq_initial_data = []\<rparr>,
       c\<lparr>c_in := bytesT rest, c_out := c_out c @ reply\<rparr>)"
proof -
  note wf = MixedProxyConfig_new_wf [OF assms(3)]
  have n: "negotiate_socks_auth (mp_credentials config) c
      = (Inr (), c\<lparr>c_in := bytesT ([5, 1, 0] @ socks_wire a @ u16_be p @ rest), c_out := c_out c @ reply\<rparr>)"
    using negotiate_complete [OF assms(1,2) _ m] wf by blast
  note r = socks5_request_complete [OF _ a, of "c\<lparr>c_in := bytesT ([5, 1, 0] @ socks_wire a @ u16_be p @ rest), c_out := c_out c @ reply\<rparr>" p rest]
  show ?thesis
    unfolding accept_socks5_connect_def bindC_Inr [where m = "negotiate_socks_auth (mp_credentials config)", OF n]
    using r by simp
qed

text \<open>
  C38: the SOCKS5 side of the proxy accepts exactly the requests of clients that logged in: it
  takes the version, the methods, the user name and password if they are configured, and a connect
  request with any kind of address, and answers with the method chosen and the login status.
\<close>

theorem socks5_accepts_iff:
  assumes "c_in c = bytesT bs" and "c_faults c = []" and "MixedProxyConfig_new username password = Inr config"
  shows "accept_socks5_connect config c = (Inr req, c') \<longleftrightarrow>
    (\<exists>methods auth reply a p rest. methods \<noteq> [] \<and> length methods \<le> 255
      \<and> socks_login (mp_credentials config) methods auth reply \<and> wf_socks a
      \<and> req = \<lparr>cq_protocol = MpSocks5, cq_address = a, cq_port = Port p, cq_initial_data = []\<rparr>
      \<and> bs = [5, word_of_nat (length methods)] @ methods @ auth @ [5, 1, 0] @ socks_wire a @ u16_be p @ rest
      \<and> c' = c\<lparr>c_in := bytesT rest, c_out := c_out c @ reply\<rparr>)"
  using socks5_accepts_sound [OF assms] socks5_accepts_complete [OF _ assms(2,3)] assms(1) by blast

definition sample_mixed_config :: MixedProxyConfig where
  "sample_mixed_config = \<lparr>mp_credentials = Some \<lparr>cr_username = [0x75], cr_password = [0x70]\<rparr>\<rparr>"

definition sample_conn :: "bytes \<Rightarrow> Conn" where
  "sample_conn bs = \<lparr>c_in = bytesT bs, c_sizes = [], c_out = [], c_faults = []\<rparr>"

definition sample_hello :: bytes where
  "sample_hello = [5, 1, 2] @ [1, 1, 0x75, 1, 0x70] @ [5, 1, 0] @ [1, 127, 0, 0, 1] @ [0, 80] @ [9]"

lemma sample_accepts:
  "accept_socks5_connect sample_mixed_config (sample_conn sample_hello)
    = (Inr \<lparr>cq_protocol = MpSocks5, cq_address = IPv4 [127, 0, 0, 1], cq_port = Port 80, cq_initial_data = []\<rparr>,
       \<lparr>c_in = bytesT [9], c_sizes = [], c_out = [5, 2, 1, 0], c_faults = []\<rparr>)"
  by code_simp

theorem socks5_accepts_iff_witness:
  "\<exists>methods auth reply a p rest. socks_login (mp_credentials sample_mixed_config) methods auth reply \<and> wf_socks a
    \<and> sample_hello = [5, word_of_nat (length methods)] @ methods @ auth @ [5, 1, 0] @ socks_wire a @ u16_be p @ rest"
proof -
  have cfg: "MixedProxyConfig_new (Some [0x75]) (Some [0x70]) = Inr sample_mixed_config"
    by (simp add: MixedProxyConfig_new_def Credentials_new_def sample_mixed_config_def)
  have c: "c_in (sample_conn sample_hello) = bytesT sample_hello" "c_faults (sample_conn sample_hello) = []"
    by (simp_all add: sample_conn_def)
  show ?thesis
    using iffD1 [OF socks5_accepts_iff [OF c cfg] sample_accepts] by blast
qed

section \<open>SOCKS4 has no login\<close>

lemma socks4_needs_no_credentials:
  "accept_socks4_connect config c = (Inr req, c') \<Longrightarrow> mp_credentials config = None"
  by (auto simp: accept_socks4_connect_def conn_runs Let_def split: if_splits)

end
