(* ===== verification/Mixed_Http.thy ===== *)
theory Mixed_Http
  imports Mixed_Proxy
begin

text \<open>
  The HTTP half of the mixed proxy inbound (\<open>server/src/mixed_proxy.rs\<close>) and its handler
  (\<open>server/src/handler/mixed.rs\<close>): reading the head, basic authentication, targets, the head that is
  forwarded, and which answer each outcome gets. Base64 (crate \<open>base64\<close>) is a parameter.
\<close>

section \<open>The request head\<close>

definition find_header_end :: "bytes \<Rightarrow> nat option" where
  "find_header_end data = find_sub [0x0d, 0x0a, 0x0d, 0x0a] data"

function read_http_head_loop :: "bytes \<Rightarrow> (bytes \<times> bytes) mixed" where
  "read_http_head_loop data c =
     (case find_header_end data of
        Some pos \<Rightarrow> (Inr (take (pos + 4) data, drop (pos + 4) data), c)
      | None \<Rightarrow>
          if length data \<ge> 64 * 1024 then (Inl MixHttpHeaderTooLarge, c)
          else (case read_someC MixIo 1024 c of
              (Inl e, c') \<Rightarrow> (Inl e, c')
            | (Inr buf, c') \<Rightarrow>
                if buf = [] then (Inl MixUnexpectedEof, c')
                else read_http_head_loop (data @ buf) c'))"
  by pat_completeness auto
termination
  by (relation "measure (\<lambda>(d, c). length (c_in c))") (auto dest!: read_someC_shrinks [OF sym])

declare read_http_head_loop.simps [simp del]

definition read_http_head :: "(bytes \<times> bytes) mixed" where
  "read_http_head = read_http_head_loop []"

text \<open>\<open>split("\r\n")\<close>.\<close>

fun split_crlf :: "bytes \<Rightarrow> bytes list" where
  "split_crlf [] = [[]]"
| "split_crlf (b # bs) =
     (case bs of
        c # cs \<Rightarrow>
          if b = 0x0d \<and> c = 0x0a then [] # split_crlf cs
          else (case split_crlf bs of p # ps \<Rightarrow> (b # p) # ps | [] \<Rightarrow> [[b]])
      | [] \<Rightarrow> [[b]])"

definition strip_prefix :: "bytes \<Rightarrow> rstr \<Rightarrow> rstr option" where
  "strip_prefix p s = (if starts_with s p then Some (drop (length p) s) else None)"

text \<open>\<open>rsplit_once\<close> on one ASCII character.\<close>

definition rsplit_once :: "u8 \<Rightarrow> rstr \<Rightarrow> (rstr \<times> rstr) option" where
  "rsplit_once c s =
     (if c \<in> set s
      then Some (rev (tl (dropWhile (\<lambda>b. b \<noteq> c) (rev s))), rev (takeWhile (\<lambda>b. b \<noteq> c) (rev s)))
      else None)"

section \<open>Authentication\<close>

definition authenticate_http_basic ::
  "(bytes \<Rightarrow> bytes option) \<Rightarrow> rstr option \<Rightarrow> Credentials \<Rightarrow> MixedProxyError + unit" where
  "authenticate_http_basic b64 proxy_auth credentials =
     bindr (ok_or MixHttpAuthRequired proxy_auth) (\<lambda>value.
     bindr (ok_or MixHttpAuthRequired (split_once 0x20 value)) (\<lambda>(scheme, token).
       if \<not> eq_ignore_ascii_case scheme (str ''basic'') then Inl MixHttpAuthRequired
       else bindr (ok_or MixHttpAuthRequired (b64 (trim token))) (\<lambda>decoded.
         if decoded = basic_value credentials then Inr () else Inl MixHttpAuthFailed)))"

definition is_header :: "rstr \<Rightarrow> rstr \<Rightarrow> bool" where
  "is_header name field \<longleftrightarrow> eq_ignore_ascii_case (trim field) name"

text \<open>The value of the first \<open>Proxy-Authorization\<close> line.\<close>

definition proxy_authorization :: "rstr list \<Rightarrow> rstr option" where
  "proxy_authorization header_lines =
     map_option (\<lambda>(_, value). trim value)
       (find (\<lambda>(name, _). is_header (str ''proxy-authorization'') name)
         (List.map_filter (split_once 0x3a) header_lines))"

section \<open>Targets\<close>

text \<open>The checks on the host and port that were split off.\<close>

definition finish_authority :: "rstr \<Rightarrow> rstr \<Rightarrow> rstr \<Rightarrow> bool \<Rightarrow> MixedProxyError + (Address \<times> Port \<times> rstr)" where
  "finish_authority host prt host_header bracketed =
     (if host = [] \<or> prt = [] \<or> (\<not> bracketed \<and> 0x3a \<in> set host) then Inl MixInvalidHttpTarget
      else (case parse_uint 65536 prt of
          None \<Rightarrow> Inl MixInvalidHttpTarget
        | Some p \<Rightarrow> if p = 0 then Inl MixInvalidHttpTarget
                   else Inr (Address_parse host, Port (word_of_nat p), host_header)))"

definition parse_authority_with_default ::
  "rstr \<Rightarrow> u16 option \<Rightarrow> MixedProxyError + (Address \<times> Port \<times> rstr)" where
  "parse_authority_with_default authority default_port =
     (if authority = [] \<or> 0x40 \<in> set authority then Inl MixInvalidHttpTarget
      else
        case strip_prefix (str ''['') authority of
             Some rest \<Rightarrow>
               (case split_once 0x5d rest of
                  None \<Rightarrow> Inl MixInvalidHttpTarget
                | Some (host, suffix) \<Rightarrow>
                    if host = [] then Inl MixInvalidHttpTarget
                    else (case strip_prefix (str '':'') suffix of
                        Some prt \<Rightarrow> finish_authority host prt authority True
                      | None \<Rightarrow>
                          if suffix = [] then
                            bindr (ok_or MixInvalidHttpTarget default_port) (\<lambda>prt.
                              Inr (Address_parse host, Port prt, str ''['' @ host @ str '']''))
                          else Inl MixInvalidHttpTarget))
           | None \<Rightarrow>
               (case rsplit_once 0x3a authority of
                  Some (host, prt) \<Rightarrow> finish_authority host prt authority False
                | None \<Rightarrow>
                    bindr (ok_or MixInvalidHttpTarget default_port) (\<lambda>prt.
                      if 0x3a \<in> set authority then Inl MixInvalidHttpTarget
                      else Inr (Address_parse authority, Port prt, authority))))"

definition parse_authority :: "rstr \<Rightarrow> MixedProxyError + (Address \<times> Port)" where
  "parse_authority target =
     bindr (parse_authority_with_default target None) (\<lambda>(addr, prt, _). Inr (addr, prt))"

text \<open>The authority ends at the first slash or question mark.\<close>

definition in_authority :: "u8 \<Rightarrow> bool" where
  "in_authority b \<longleftrightarrow> b \<noteq> 0x2f \<and> b \<noteq> 0x3f"

definition parse_absolute_http_uri :: "rstr \<Rightarrow> MixedProxyError + (Address \<times> Port \<times> rstr \<times> rstr)" where
  "parse_absolute_http_uri target =
     bindr (ok_or MixInvalidHttpTarget (strip_prefix (str ''http://'') target)) (\<lambda>rest.
       if rest = [] \<or> 0x23 \<in> set rest then Inl MixInvalidHttpTarget
       else
         let authority = takeWhile in_authority rest;
             tail = dropWhile in_authority rest;
             origin_form = (case tail of [] \<Rightarrow> str ''/'' | b # _ \<Rightarrow> if b = 0x2f then tail else str ''/'' @ tail)
         in bindr (parse_authority_with_default authority (Some 80)) (\<lambda>(addr, prt, host_header).
              Inr (addr, prt, host_header, origin_form)))"

section \<open>Forwarding\<close>

definition hop_header :: "rstr \<Rightarrow> bool" where
  "hop_header line =
     (case split_once 0x3a line of
        None \<Rightarrow> False
      | Some (name, _) \<Rightarrow>
          is_header (str ''host'') name \<or> is_header (str ''proxy-authorization'') name
          \<or> is_header (str ''proxy-connection'') name)"

fun forward_lines :: "rstr list \<Rightarrow> rstr" where
  "forward_lines [] = []"
| "forward_lines (line # ls) =
     (if line = [] \<or> hop_header line then forward_lines ls
      else line @ [0x0d, 0x0a] @ forward_lines ls)"

definition build_http_forward_head :: "rstr \<Rightarrow> rstr \<Rightarrow> rstr \<Rightarrow> rstr \<Rightarrow> rstr list \<Rightarrow> bytes" where
  "build_http_forward_head method origin_form ver host_header header_lines =
     method @ str '' '' @ origin_form @ str '' '' @ ver @ [0x0d, 0x0a]
     @ str ''Host: '' @ host_header @ [0x0d, 0x0a] @ forward_lines header_lines @ [0x0d, 0x0a]"

text \<open>\<open>accept_http_request\<close> after the head is read: the request line, the login, and the target.\<close>

definition request_line_parts :: "rstr \<Rightarrow> MixedProxyError + (rstr \<times> rstr \<times> rstr)" where
  "request_line_parts request_line =
     (case split_whitespace request_line of
        [method, target, ver] \<Rightarrow>
          if starts_with ver (str ''HTTP/1.'') then Inr (method, target, ver) else Inl MixInvalidHttpRequest
      | _ \<Rightarrow> Inl MixInvalidHttpRequest)"

definition http_login :: "(bytes \<Rightarrow> bytes option) \<Rightarrow> MixedProxyConfig \<Rightarrow> rstr list \<Rightarrow> MixedProxyError + unit" where
  "http_login b64 config header_lines =
     (case mp_credentials config of
        None \<Rightarrow> Inr ()
      | Some credentials \<Rightarrow> authenticate_http_basic b64 (proxy_authorization header_lines) credentials)"

definition http_target ::
  "rstr \<Rightarrow> rstr \<Rightarrow> rstr \<Rightarrow> rstr list \<Rightarrow> bytes \<Rightarrow> MixedProxyError + ConnectRequest" where
  "http_target method target ver header_lines initial_data =
     (if method = str ''CONNECT'' then
        bindr (parse_authority target) (\<lambda>(addr, prt).
          Inr \<lparr>cq_protocol = MpHttpConnect, cq_address = addr, cq_port = prt,
               cq_initial_data = initial_data\<rparr>)
      else
        bindr (parse_absolute_http_uri target) (\<lambda>(addr, prt, host_header, origin_form).
          Inr \<lparr>cq_protocol = MpHttpForward, cq_address = addr, cq_port = prt,
               cq_initial_data = build_http_forward_head method origin_form ver host_header header_lines
                                  @ initial_data\<rparr>))"

definition http_request ::
  "(bytes \<Rightarrow> bytes option) \<Rightarrow> MixedProxyConfig \<Rightarrow> bytes \<Rightarrow> bytes \<Rightarrow> MixedProxyError + ConnectRequest" where
  "http_request b64 config head0 initial_data =
     bindr (ok_or MixInvalidHttpRequest (from_utf8 head0)) (\<lambda>head.
     let ls = split_crlf head; request_line = hd ls; header_lines = tl ls in
     bindr (request_line_parts request_line) (\<lambda>(method, target, ver).
     bindr (http_login b64 config header_lines) (\<lambda>_.
       http_target method target ver header_lines initial_data)))"

definition accept_http_request :: "(bytes \<Rightarrow> bytes option) \<Rightarrow> MixedProxyConfig \<Rightarrow> ConnectRequest mixed" where
  "accept_http_request b64 config =
     bindC read_http_head (\<lambda>(head, initial_data). liftC (http_request b64 config head initial_data))"

section \<open>Replies and the handler\<close>

definition http_status :: "nat \<Rightarrow> rstr \<Rightarrow> rstr \<Rightarrow> bytes" where
  "http_status status reason extra_headers =
     (let body = show_nat status @ str '' '' @ reason @ [0x0a] in
      str ''HTTP/1.1 '' @ show_nat status @ str '' '' @ reason @ [0x0d, 0x0a] @ extra_headers
      @ str ''Connection: close'' @ [0x0d, 0x0a] @ str ''Content-Length: '' @ show_nat (length body)
      @ [0x0d, 0x0a, 0x0d, 0x0a] @ body)"

definition write_http_status :: "nat \<Rightarrow> rstr \<Rightarrow> rstr \<Rightarrow> unit mixed" where
  "write_http_status status reason extra_headers = mwrite (http_status status reason extra_headers)"

definition write_http_error :: "MixedProxyError \<Rightarrow> unit mixed" where
  "write_http_error error =
     (if error = MixHttpAuthRequired \<or> error = MixHttpAuthFailed then
        write_http_status 407 (str ''Proxy Authentication Required'')
          (str ''Proxy-Authenticate: Basic realm='' @ [0x22] @ str ''wrongsv'' @ [0x22, 0x0d, 0x0a])
      else if error = MixHttpHeaderTooLarge then
        write_http_status 431 (str ''Request Header Fields Too Large'') []
      else write_http_status 400 (str ''Bad Request'') [])"

definition write_http_success :: "unit mixed" where
  "write_http_success = mwrite (str ''HTTP/1.1 200 Connection Established'' @ [0x0d, 0x0a, 0x0d, 0x0a])"

definition write_http_bad_gateway :: "unit mixed" where
  "write_http_bad_gateway = write_http_status 502 (str ''Bad Gateway'') []"

text \<open>The first half of \<open>handle_mixed_proxy_connection\<close>: the request, or the error with its answer.\<close>

definition mixed_accept :: "(bytes \<Rightarrow> bytes option) \<Rightarrow> MixedProxyConfig \<Rightarrow> ConnectRequest mixed" where
  "mixed_accept b64 config =
     bindC detect_protocol (\<lambda>protocol c.
       case (case protocol of
               MpSocks4 \<Rightarrow> accept_socks4_connect config
             | MpSocks5 \<Rightarrow> accept_socks5_connect config
             | _ \<Rightarrow> accept_http_request b64 config) c of
         (Inr request, c') \<Rightarrow> (Inr request, c')
       | (Inl e, c') \<Rightarrow>
           (Inl e, if protocol = MpHttpConnect then snd (write_http_error e c') else c'))"

text \<open>
  The second half, with the outcome of \<open>connect_tcp_target\<close>: the local address of the connection (if
  it is known), or whether it was refused. The bytes for the target follow.
\<close>

definition mixed_connected ::
  "ConnectRequest \<Rightarrow> (bool + SocketAddr option) \<Rightarrow> bytes mixed" where
  "mixed_connected request target =
     (case target of
        Inl refused \<Rightarrow>
          bindC (tryC (case cq_protocol request of
              MpSocks4 \<Rightarrow> write_socks4_connect_error
            | MpSocks5 \<Rightarrow> write_socks5_connect_error refused
            | MpHttpConnect \<Rightarrow> write_http_bad_gateway
            | MpHttpForward \<Rightarrow> write_http_bad_gateway)) (\<lambda>_. errC (MixIo OtherIo))
      | Inr local_addr \<Rightarrow>
          bindC (case cq_protocol request of
              MpSocks4 \<Rightarrow> write_socks4_success local_addr
            | MpSocks5 \<Rightarrow> write_socks5_success local_addr
            | MpHttpConnect \<Rightarrow> write_http_success
            | MpHttpForward \<Rightarrow> retC ()) (\<lambda>_. retC (cq_initial_data request)))"

definition handle_mixed_proxy_connection ::
  "(bytes \<Rightarrow> bytes option) \<Rightarrow> (Address \<Rightarrow> Port \<Rightarrow> bool + SocketAddr option) \<Rightarrow> MixedProxyConfig \<Rightarrow>
     (Address \<times> Port \<times> bytes) mixed" where
  "handle_mixed_proxy_connection b64 connect config =
     bindC (mixed_accept b64 config) (\<lambda>request.
     bindC (mixed_connected request (connect (cq_address request) (cq_port request))) (\<lambda>initial_data.
       retC (cq_address request, cq_port request, initial_data)))"

section \<open>Reading the head\<close>

lemma starts_with_length: "starts_with s p \<Longrightarrow> length p \<le> length s"
  by (auto simp: starts_with_iff)

lemma starts_with_append: "length p \<le> length s \<Longrightarrow> starts_with (s @ r) p = starts_with s p"
  by (simp add: starts_with_def)

lemma find_sub_le: "find_sub p s = Some i \<Longrightarrow> i + length p \<le> length s"
proof (induction s arbitrary: i)
  case Nil
  then show ?case by (simp split: if_splits)
next
  case (Cons b s)
  then show ?case using starts_with_length [of "b # s" p] by (auto split: if_splits)
qed

lemma find_sub_append_Some: "find_sub p s = Some i \<Longrightarrow> find_sub p (s @ r) = Some i"
proof (induction s arbitrary: i)
  case Nil
  then show ?case by (cases r) (auto simp: starts_with_def split: if_splits)
next
  case (Cons b s)
  have "length p \<le> length (b # s)" using find_sub_le [OF Cons.prems] by simp
  then have "starts_with (b # s @ r) p = starts_with (b # s) p" using starts_with_append [of p "b # s" r] by simp
  then show ?case using Cons by (auto split: if_splits)
qed

lemma find_sub_prefix: "find_sub p (s @ r) = Some i \<Longrightarrow> i + length p \<le> length s \<Longrightarrow> find_sub p s = Some i"
proof (induction s arbitrary: i)
  case Nil
  then show ?case by simp
next
  case (Cons b s)
  have "length p \<le> length (b # s)" using Cons.prems(2) by simp
  then have "starts_with (b # s @ r) p = starts_with (b # s) p" using starts_with_append [of p "b # s" r] by simp
  then show ?case using Cons by (auto split: if_splits)
qed

lemma find_header_end_length: "find_header_end d = Some pos \<Longrightarrow> pos + 4 \<le> length d"
  using find_sub_le [of "[0x0d, 0x0a, 0x0d, 0x0a]" d pos] by (simp add: find_header_end_def)

lemma find_header_end_append: "find_header_end d = Some pos \<Longrightarrow> find_header_end (d @ r) = Some pos"
  by (simp add: find_header_end_def find_sub_append_Some)

text \<open>Whatever is read, the head, the bytes after it and those still to come are the stream.\<close>

lemma read_http_head_loop_sound:
  assumes "read_http_head_loop data c = (Inr (h, i), c')" and "c_in c = bytesT bs"
  shows "\<exists>rest. c_in c' = bytesT rest \<and> data @ bs = h @ i @ rest \<and> c_out c' = c_out c"
  using assms
proof (induction data c arbitrary: bs rule: read_http_head_loop.induct)
  case (1 data c)
  show ?case
  proof (cases "find_header_end data")
    case (Some pos)
    then show ?thesis using "1.prems" by (auto simp: read_http_head_loop.simps [of data c])
  next
    case None
    obtain k where r: "read_someC MixIo 1024 c = (Inr (take k bs), c\<lparr>c_in := bytesT (drop k bs),
        c_sizes := (if bs = [] then c_sizes c else tl (c_sizes c))\<rparr>)" and "0 < k"
      by (rule read_someC_bytes [OF "1.prems"(2), of 1024 MixIo]) simp_all
    let ?c = "c\<lparr>c_in := bytesT (drop k bs), c_sizes := (if bs = [] then c_sizes c else tl (c_sizes c))\<rparr>"
    have ne: "take k bs \<noteq> []" "\<not> length data \<ge> 64 * 1024"
      and go: "read_http_head_loop (data @ take k bs) ?c = (Inr (h, i), c')"
      using "1.prems"(1) None r by (auto simp: read_http_head_loop.simps [of data c] split: if_splits)
    have "\<exists>rest. c_in c' = bytesT rest \<and> (data @ take k bs) @ drop k bs = h @ i @ rest \<and> c_out c' = c_out ?c"
      using "1.IH" [OF None ne(2) r [symmetric] refl ne(1) go] by simp
    then show ?thesis by simp
  qed
qed

lemma find_header_end_late:
  assumes "find_header_end (data @ bs) = Some pos" and "find_header_end data = None"
  shows "length data < pos + 4" and "bs \<noteq> []"
proof -
  show "length data < pos + 4"
    using assms find_sub_prefix [of "[0x0d, 0x0a, 0x0d, 0x0a]" data bs pos]
    by (cases "length data < pos + 4") (simp_all add: find_header_end_def)
  show "bs \<noteq> []" using assms by auto
qed

lemma read_http_head_loop_cut:
  assumes "find_header_end (data @ bs) = Some pos" and "pos + 4 \<le> 64 * 1024" and "c_in c = bytesT bs"
  shows "\<exists>i rest c'. read_http_head_loop data c = (Inr (take (pos + 4) (data @ bs), i), c')
    \<and> c_in c' = bytesT rest \<and> i @ rest = drop (pos + 4) (data @ bs)"
  using assms
proof (induction "length bs" arbitrary: data bs c rule: less_induct)
  case less
  show ?case
  proof (cases "find_header_end data")
    case (Some p)
    then have p: "p = pos" using less.prems(1) find_header_end_append [OF Some, of bs] by simp
    then show ?thesis
      using Some less.prems(3) find_header_end_length [OF Some] by (auto simp: read_http_head_loop.simps [of data c])
  next
    case None
    note late = find_header_end_late [OF less.prems(1) None]
    obtain k where r: "read_someC MixIo 1024 c = (Inr (take k bs), c\<lparr>c_in := bytesT (drop k bs),
        c_sizes := (if bs = [] then c_sizes c else tl (c_sizes c))\<rparr>)" and k: "0 < k"
      by (rule read_someC_bytes [OF less.prems(3), of 1024 MixIo]) simp_all
    let ?c = "c\<lparr>c_in := bytesT (drop k bs), c_sizes := (if bs = [] then c_sizes c else tl (c_sizes c))\<rparr>"
    have "read_http_head_loop data c = read_http_head_loop (data @ take k bs) ?c"
      using None r k late less.prems(2) by (simp add: read_http_head_loop.simps [of data c])
    moreover have "\<exists>i rest c'. read_http_head_loop (data @ take k bs) ?c
        = (Inr (take (pos + 4) ((data @ take k bs) @ drop k bs), i), c')
      \<and> c_in c' = bytesT rest \<and> i @ rest = drop (pos + 4) ((data @ take k bs) @ drop k bs)"
      by (rule less.hyps) (use k late less.prems in simp_all)
    ultimately show ?thesis by simp
  qed
qed

text \<open>
  C40: reading an HTTP head always ends and gives the same head however TCP cuts it: whenever the
  stream has an empty line within the first 64 KiB, the head up to it is returned, and the bytes
  read beyond it, with those not yet read, are everything that follows.
\<close>

theorem http_head_cut:
  assumes "c_in c = bytesT bs" and "find_header_end bs = Some pos" and "pos + 4 \<le> 64 * 1024"
  shows "\<exists>i rest c'. read_http_head c = (Inr (take (pos + 4) bs, i), c')
    \<and> c_in c' = bytesT rest \<and> i @ rest = drop (pos + 4) bs"
  using read_http_head_loop_cut [of "[]" bs pos c] assms by (simp add: read_http_head_def)

theorem http_head_cut_witness:
  "\<exists>i rest c'. read_http_head \<lparr>c_in = bytesT [1, 0x0d, 0x0a, 0x0d, 0x0a, 7, 8, 9], c_sizes = [2, 4], c_out = [], c_faults = []\<rparr>
      = (Inr ([1, 0x0d, 0x0a, 0x0d, 0x0a], i), c') \<and> c_in c' = bytesT rest \<and> i @ rest = [7, 8, 9]"
  using http_head_cut [of "\<lparr>c_in = bytesT [1, 0x0d, 0x0a, 0x0d, 0x0a, 7, 8, 9], c_sizes = [2, 4], c_out = [], c_faults = []\<rparr>"
      "[1, 0x0d, 0x0a, 0x0d, 0x0a, 7, 8, 9]" 1]
  by (simp add: find_header_end_def starts_with_def)

section \<open>Authentication\<close>

text \<open>A header line that carries the credentials.\<close>

definition login_line :: "(bytes \<Rightarrow> bytes option) \<Rightarrow> Credentials \<Rightarrow> rstr \<Rightarrow> bool" where
  "login_line b64 cr line \<longleftrightarrow>
     (\<exists>name value scheme token. split_once 0x3a line = Some (name, value)
        \<and> is_header (str ''proxy-authorization'') name \<and> split_once 0x20 (trim value) = Some (scheme, token)
        \<and> eq_ignore_ascii_case scheme (str ''basic'') \<and> b64 (trim token) = Some (basic_value cr))"

lemma proxy_authorization_line:
  assumes "proxy_authorization ls = Some v"
  shows "\<exists>line \<in> set ls. \<exists>name value. split_once 0x3a line = Some (name, value)
    \<and> is_header (str ''proxy-authorization'') name \<and> v = trim value"
proof -
  obtain name val where f: "find (\<lambda>(name, _). is_header (str ''proxy-authorization'') name)
      (List.map_filter (split_once 0x3a) ls) = Some (name, val)" and v: "v = trim val"
    using assms by (auto simp: proxy_authorization_def)
  from find_SomeD [OF f] have "(name, val) \<in> set (List.map_filter (split_once 0x3a) ls)"
    and "is_header (str ''proxy-authorization'') name" by auto
  moreover from this obtain line where "line \<in> set ls" "split_once 0x3a line = Some (name, val)"
    by (auto simp: List.map_filter_def)
  ultimately show ?thesis using v by blast
qed

lemma authenticate_http_basic_ok:
  assumes "authenticate_http_basic b64 (proxy_authorization ls) cr = Inr u"
  shows "\<exists>line \<in> set ls. login_line b64 cr line"
proof -
  obtain v scheme token where v: "proxy_authorization ls = Some v" "split_once 0x20 v = Some (scheme, token)"
    "eq_ignore_ascii_case scheme (str ''basic'')" "b64 (trim token) = Some (basic_value cr)"
    using assms by (auto simp: authenticate_http_basic_def bindr_eq_Inr_iff split: if_splits simp del: str_simps)
  with proxy_authorization_line [OF v(1)] show ?thesis unfolding login_line_def by blast
qed

lemma http_request_authenticated:
  assumes "http_request b64 config h i = Inr req" and "mp_credentials config = Some cr"
  shows "\<exists>line \<in> set (tl (split_crlf h)). login_line b64 cr line"
proof -
  obtain u where "http_login b64 config (tl (split_crlf h)) = Inr u"
    using assms(1) by (auto simp: http_request_def bindr_eq_Inr_iff from_utf8_def Let_def split: if_splits)
  then show ?thesis using authenticate_http_basic_ok assms(2) by (simp add: http_login_def)
qed

text \<open>
  C37: with credentials configured, no request gets through the mixed proxy without them. A SOCKS5
  client has sent exactly the user name and password in its login; an HTTP client has sent a
  \<open>Proxy-Authorization\<close> line whose token decodes to them; SOCKS4 has no login and is refused.
\<close>

theorem mixed_authenticated:
  assumes "MixedProxyConfig_new (Some username) (Some password) = Inr config"
    and "c_in c = bytesT bs" and "c_faults c = []"
    and "mixed_accept b64 config c = (Inr req, c')"
  shows "(\<exists>methods rest. cq_protocol req = MpSocks5 \<and> 2 \<in> set methods
      \<and> bs = [5, word_of_nat (length methods)] @ methods
          @ userpass_wire \<lparr>cr_username = username, cr_password = password\<rparr> @ rest)
    \<or> (\<exists>h rest line. bs = h @ rest \<and> line \<in> set (tl (split_crlf h))
      \<and> login_line b64 \<lparr>cr_username = username, cr_password = password\<rparr> line)"
proof -
  let ?cr = "\<lparr>cr_username = username, cr_password = password\<rparr>"
  have cr: "mp_credentials config = Some ?cr"
    using assms(1) by (auto simp: MixedProxyConfig_new_def Credentials_new_def bindr_eq_Inr_iff split: if_splits)
  obtain p where d: "detect_protocol c = (Inr p, c)"
    and run: "(case p of MpSocks4 \<Rightarrow> accept_socks4_connect config | MpSocks5 \<Rightarrow> accept_socks5_connect config
             | _ \<Rightarrow> accept_http_request b64 config) c = (Inr req, c')"
    using assms(4) unfolding mixed_accept_def conn_runs
    by (auto simp: detect_protocol_def split: list.splits sum.splits prod.splits if_splits)
  have http: ?thesis if "accept_http_request b64 config c = (Inr req, c')"
  proof -
    from that obtain h i c1 where r: "read_http_head c = (Inr (h, i), c1)" and q: "http_request b64 config h i = Inr req"
      by (auto simp: accept_http_request_def conn_runs)
    obtain rest where "bs = h @ i @ rest"
      using read_http_head_loop_sound [OF r [unfolded read_http_head_def] assms(2)] by auto
    with http_request_authenticated [OF q cr] show ?thesis by blast
  qed
  show ?thesis
  proof (cases p)
    case MpSocks4
    then show ?thesis using run socks4_needs_no_credentials [of config c req c'] cr by simp
  next
    case MpSocks5
    then have "accept_socks5_connect config c = (Inr req, c')" using run by simp
    with socks5_accepts_sound [OF assms(2,3,1)] cr show ?thesis by (fastforce simp del: append.simps)
  qed (use run http in simp_all)
qed

section \<open>The forwarded head\<close>

fun no_crlf :: "bytes \<Rightarrow> bool" where
  "no_crlf (b # c # bs) \<longleftrightarrow> \<not> (b = 0x0d \<and> c = 0x0a) \<and> no_crlf (c # bs)"
| "no_crlf _ \<longleftrightarrow> True"

lemma no_cr_no_crlf: "0x0d \<notin> set l \<Longrightarrow> no_crlf l"
  by (induction l rule: no_crlf.induct) auto

declare split_crlf.simps(2) [simp del]

lemma split_crlf_Cons:
  "split_crlf (0x0d # 0x0a # r) = [] # split_crlf r"
  "\<not> (b = 0x0d \<and> c = 0x0a) \<Longrightarrow> split_crlf (c # cs) = p # ps \<Longrightarrow> split_crlf (b # c # cs) = (b # p) # ps"
  "split_crlf [b] = [[b]]"
  by (auto simp: split_crlf.simps(2))

lemma split_crlf_ne [simp]: "split_crlf s \<noteq> []"
  by (cases s) (simp_all add: split_crlf.simps(2) split: list.split)

lemma split_crlf_line: "no_crlf l \<Longrightarrow> split_crlf (l @ [0x0d, 0x0a] @ r) = l # split_crlf r"
proof (induction l rule: no_crlf.induct)
  case (1 b c bs)
  then show ?case by (simp add: split_crlf_Cons(2))
qed (simp_all add: split_crlf_Cons)

lemma split_crlf_hd:
  assumes "split_crlf (c # cs) = p # ps" and "p \<noteq> []"
  shows "hd p = c"
proof (cases cs)
  case Nil
  then show ?thesis using assms by (auto simp: split_crlf_Cons)
next
  case (Cons d ds)
  obtain q qs where q: "split_crlf (d # ds) = q # qs" by (meson neq_Nil_conv split_crlf_ne)
  show ?thesis
    using assms Cons split_crlf_Cons(2) [OF _ q, of c]
    by (cases "c = 0x0d \<and> d = 0x0a") (auto simp: split_crlf_Cons(1))
qed

lemma split_crlf_no_crlf: "l \<in> set (split_crlf s) \<Longrightarrow> no_crlf l"
proof (induction s arbitrary: l rule: split_crlf.induct)
  case 1
  then show ?case by simp
next
  case (2 b bs)
  show ?case
  proof (cases bs)
    case Nil
    then show ?thesis using "2.prems" by (simp add: split_crlf_Cons)
  next
    case (Cons c cs)
    show ?thesis
    proof (cases "b = 0x0d \<and> c = 0x0a")
      case True
      then show ?thesis using "2.IH"(1) [OF Cons True] "2.prems" Cons by (auto simp: split_crlf_Cons(1))
    next
      case False
      obtain p ps where p: "split_crlf bs = p # ps" by (meson neq_Nil_conv split_crlf_ne)
      then have n: "no_crlf p" "\<And>q. q \<in> set ps \<Longrightarrow> no_crlf q" using "2.IH"(2) [OF Cons False] by auto
      have "no_crlf (b # p)"
        using n(1) False split_crlf_hd [of c cs p ps] p Cons by (cases p) auto
      then show ?thesis using "2.prems" split_crlf_Cons(2) [OF False, of cs p ps] p n Cons by auto
    qed
  qed
qed

text \<open>The lines that are kept.\<close>

definition kept_lines :: "rstr list \<Rightarrow> rstr list" where
  "kept_lines ls = filter (\<lambda>l. l \<noteq> [] \<and> \<not> hop_header l) ls"

lemma forward_lines_kept: "forward_lines ls = concat (map (\<lambda>l. l @ [0x0d, 0x0a]) (kept_lines ls))"
  by (induction ls) (simp_all add: kept_lines_def)

lemma split_crlf_lines:
  "\<forall>l \<in> set ls. no_crlf l \<Longrightarrow>
     split_crlf (concat (map (\<lambda>l. l @ [0x0d, 0x0a]) ls) @ [0x0d, 0x0a]) = ls @ [[], []]"
  by (induction ls) (simp_all add: split_crlf_Cons(1) split_crlf_line [simplified])

text \<open>Words of a request line have no carriage return, and neither has what is cut out of them.\<close>

lemma ws_len_0: "ws_len ws_encodings s = 0 \<Longrightarrow> s \<noteq> [] \<Longrightarrow> hd s \<noteq> 0x0d"
proof -
  assume w: "ws_len ws_encodings s = 0" and ne: "s \<noteq> []"
  have e: "[] \<notin> set ws_encodings" "[0x0d] \<in> set ws_encodings" by (simp_all add: ws_encodings_def)
  have "find (starts_with s) ws_encodings = None"
  proof (rule ccontr)
    assume "find (starts_with s) ws_encodings \<noteq> None"
    then obtain x where x: "find (starts_with s) ws_encodings = Some x" by blast
    then have "x = []" using w by (simp add: ws_len_def)
    then show False using find_SomeD [OF x] e(1) by simp
  qed
  then have "\<not> starts_with s [0x0d]" using e(2) by (auto simp: find_None_iff)
  then show ?thesis using ne by (cases s) (auto simp: starts_with_def)
qed

lemma split_ws_no_cr: "0x0d \<notin> set acc \<Longrightarrow> p \<in> set (split_ws acc s) \<Longrightarrow> 0x0d \<notin> set p"
proof (induction acc s rule: split_ws.induct)
  case (1 acc s)
  have eq: "split_ws acc s = (if s = [] then (if acc = [] then [] else [rev acc])
      else if ws_len ws_encodings s = 0 then split_ws (hd s # acc) (tl s)
      else (if acc = [] then [] else [rev acc]) @ split_ws [] (drop (ws_len ws_encodings s) s))"
    by (subst split_ws.simps) (simp add: Let_def)
  show ?case
  proof (cases "s = []")
    case True
    then show ?thesis using "1.prems" eq by (auto split: if_splits)
  next
    case False
    show ?thesis
    proof (cases "ws_len ws_encodings s = 0")
      case True
      then have "p \<in> set (split_ws (hd s # acc) (tl s))" using "1.prems"(2) eq False by simp
      moreover have "0x0d \<notin> set (hd s # acc)" using ws_len_0 [OF True False] "1.prems"(1) by auto
      ultimately show ?thesis using "1.IH"(1) [OF False refl True] by blast
    next
      case w: False
      then have "p = rev acc \<or> p \<in> set (split_ws [] (drop (ws_len ws_encodings s) s))"
        using "1.prems"(2) eq False by (auto split: if_splits)
      then show ?thesis using "1.IH"(2) [OF False refl w] "1.prems"(1) by auto
    qed
  qed
qed

lemma strip_prefix_subset: "strip_prefix p s = Some r \<Longrightarrow> set r \<subseteq> set s"
  by (auto simp: strip_prefix_def split: if_splits dest: in_set_dropD)

lemma split_once_subset: "split_once c s = Some (a, b) \<Longrightarrow> set a \<subseteq> set s"
  by (auto simp: split_once_def split: if_splits dest: set_takeWhileD)

lemma host_header_chars:
  assumes "parse_authority_with_default authority dp = Inr (a, p, hh)"
  shows "set hh \<subseteq> set authority \<union> {0x5b, 0x5d}"
proof (cases "strip_prefix (str ''['') authority")
  case None
  then show ?thesis
    using assms by (auto simp: parse_authority_with_default_def finish_authority_def bindr_eq_Inr_iff
        split: if_splits option.splits simp del: str_simps)
next
  case (Some rest)
  have b: "set (str ''['') \<subseteq> {0x5b}" "set (str '']'') \<subseteq> {0x5d}" by simp_all
  obtain host suffix where h: "split_once 0x5d rest = Some (host, suffix)"
    and hh: "hh = authority \<or> hh = str ''['' @ host @ str '']''"
    using assms Some by (auto simp: parse_authority_with_default_def finish_authority_def bindr_eq_Inr_iff
        split: if_splits option.splits simp del: str_simps)
  have "set host \<subseteq> set authority"
    using split_once_subset [OF h] strip_prefix_subset [OF Some] by blast
  then show ?thesis using hh b by auto
qed

lemma parse_absolute_http_uri_chars:
  assumes "parse_absolute_http_uri target = Inr (a, p, hh, orig)"
  shows "set hh \<subseteq> set target \<union> {0x5b, 0x5d}" and "set orig \<subseteq> set target \<union> {0x2f}"
proof -
  obtain rest where r: "strip_prefix (str ''http://'') target = Some rest"
    and h: "parse_authority_with_default (takeWhile in_authority rest) (Some 80) = Inr (a, p, hh)"
    and orig: "orig = (case dropWhile in_authority rest of [] \<Rightarrow> str ''/'' | b # _ \<Rightarrow> if b = 0x2f then dropWhile in_authority rest else str ''/'' @ dropWhile in_authority rest)"
    using assms by (auto simp: parse_absolute_http_uri_def bindr_eq_Inr_iff Let_def split: if_splits simp del: str_simps)
  have t: "set (takeWhile in_authority rest) \<subseteq> set target" "set (dropWhile in_authority rest) \<subseteq> set target"
    using strip_prefix_subset [OF r] by (auto dest: set_takeWhileD set_dropWhileD)
  show "set hh \<subseteq> set target \<union> {0x5b, 0x5d}" using host_header_chars [OF h] t(1) by blast
  show "set orig \<subseteq> set target \<union> {0x2f}"     using orig t(2) by (cases "dropWhile in_authority rest") (auto split: if_splits)
qed


text \<open>A client of a proxy with credentials fetches a page.\<close>

definition sample_b64 :: "bytes \<Rightarrow> bytes option" where
  "sample_b64 t = (if t = str ''dTpw'' then Some (str ''u:p'') else None)"

definition sample_get :: bytes where
  "sample_get = str ''GET http://zz/x HTTP/1.1'' @ [0x0d, 0x0a] @ str ''Host: c'' @ [0x0d, 0x0a]
     @ str ''Proxy-Authorization: Basic dTpw'' @ [0x0d, 0x0a] @ str ''A: 1'' @ [0x0d, 0x0a, 0x0d, 0x0a]"

lemma sample_get_request:
  "map_sum id (\<lambda>r. (cq_protocol r, cq_address r, cq_port r)) (http_request sample_b64 sample_mixed_config sample_get [9])
    = Inr (MpHttpForward, Domain (str ''zz''), Port 80)"
  by code_simp


theorem mixed_authenticated_witness:
  "\<exists>req c'. mixed_accept sample_b64 sample_mixed_config (sample_conn sample_hello) = (Inr req, c')
    \<and> ((\<exists>methods rest. cq_protocol req = MpSocks5 \<and> 2 \<in> set methods
          \<and> sample_hello = [5, word_of_nat (length methods)] @ methods
              @ userpass_wire \<lparr>cr_username = [0x75], cr_password = [0x70]\<rparr> @ rest)
      \<or> (\<exists>h rest line. sample_hello = h @ rest \<and> line \<in> set (tl (split_crlf h))
          \<and> login_line sample_b64 \<lparr>cr_username = [0x75], cr_password = [0x70]\<rparr> line))"
proof -
  have cfg: "MixedProxyConfig_new (Some [0x75]) (Some [0x70]) = Inr sample_mixed_config"
    by (simp add: MixedProxyConfig_new_def Credentials_new_def sample_mixed_config_def)
  have c: "c_in (sample_conn sample_hello) = bytesT sample_hello" "c_faults (sample_conn sample_hello) = []"
    by (simp_all add: sample_conn_def)
  have "detect_protocol (sample_conn sample_hello) = (Inr MpSocks5, sample_conn sample_hello)"
    by (simp add: detect_protocol_def sample_conn_def sample_hello_def)
  then obtain req c' where a: "mixed_accept sample_b64 sample_mixed_config (sample_conn sample_hello) = (Inr req, c')"
    using sample_accepts by (auto simp: mixed_accept_def bindC_def)
  from mixed_authenticated [OF cfg c a] a show ?thesis by blast
qed

end
