(* ===== verification/Metrics.thy ===== *)
theory Metrics
  imports Rust_Str Conn
begin

text \<open>
  Usage counters (\<open>metrics/src/lib.rs\<close>, \<open>metrics/src/server.rs\<close>): the registry, taps, connection guards, the
  Prometheus dump and the HTTP answer. The counters are atomics that the connection threads update
  with wrapping additions; the step relation \<open>atom_step\<close> interleaves them one atomic access at a time.
\<close>

section \<open>The registry\<close>

record UserStats =
  us_bytes_in :: u64
  us_bytes_out :: u64
  us_active_conns :: u64
  us_total_conns :: u64

definition UserStats_default :: UserStats where
  "UserStats_default = \<lparr>us_bytes_in = 0, us_bytes_out = 0, us_active_conns = 0, us_total_conns = 0\<rparr>"

text \<open>
  An entry of \<open>users\<close> is never removed, so the \<open>Arc\<close> that \<open>get_or_create\<close> returns is named by its email.
\<close>

record Registry =
  rg_users :: "rstr \<rightharpoonup> UserStats"
  rg_total_bytes_in :: u64
  rg_total_bytes_out :: u64
  rg_total_conns :: u64
  rg_started_at :: nat

definition Registry_new :: "nat \<Rightarrow> Registry" where
  "Registry_new now = \<lparr>rg_users = Map.empty, rg_total_bytes_in = 0, rg_total_bytes_out = 0,
     rg_total_conns = 0, rg_started_at = now\<rparr>"

definition get_or_create :: "rstr \<Rightarrow> Registry \<Rightarrow> Registry" where
  "get_or_create email r =
     (case rg_users r email of
        Some _ \<Rightarrow> r
      | None \<Rightarrow> r\<lparr>rg_users := (rg_users r)(email \<mapsto> UserStats_default)\<rparr>)"

definition upd_stats :: "rstr \<Rightarrow> (UserStats \<Rightarrow> UserStats) \<Rightarrow> Registry \<Rightarrow> Registry" where
  "upd_stats email f r = r\<lparr>rg_users := (rg_users r)(email := map_option f (rg_users r email))\<rparr>"

definition record_bytes_in :: "rstr \<Rightarrow> u64 \<Rightarrow> Registry \<Rightarrow> Registry" where
  "record_bytes_in email n r =
     (if email = [] \<or> n = 0 then r
      else let r1 = upd_stats email (us_bytes_in_update (\<lambda>x. x + n)) (get_or_create email r)
           in r1\<lparr>rg_total_bytes_in := rg_total_bytes_in r1 + n\<rparr>)"

definition record_bytes_out :: "rstr \<Rightarrow> u64 \<Rightarrow> Registry \<Rightarrow> Registry" where
  "record_bytes_out email n r =
     (if email = [] \<or> n = 0 then r
      else let r1 = upd_stats email (us_bytes_out_update (\<lambda>x. x + n)) (get_or_create email r)
           in r1\<lparr>rg_total_bytes_out := rg_total_bytes_out r1 + n\<rparr>)"

text \<open>A guard holds the statistics of its user, or nothing.\<close>

type_synonym ConnectionGuard = "rstr option"

definition connection_started :: "rstr \<Rightarrow> Registry \<Rightarrow> ConnectionGuard \<times> Registry" where
  "connection_started email r =
     (if email = [] then (None, r)
      else let r1 = get_or_create email r;
               r2 = upd_stats email (us_active_conns_update (\<lambda>x. x + 1)) r1;
               r3 = upd_stats email (us_total_conns_update (\<lambda>x. x + 1)) r2
           in (Some email, r3\<lparr>rg_total_conns := rg_total_conns r3 + 1\<rparr>))"

definition guard_drop :: "ConnectionGuard \<Rightarrow> Registry \<Rightarrow> Registry" where
  "guard_drop guard r =
     (case guard of None \<Rightarrow> r | Some email \<Rightarrow> upd_stats email (us_active_conns_update (\<lambda>x. x - 1)) r)"

text \<open>A tap is bound to the one registry of the server, or to none.\<close>

record MetricsTap =
  tap_enabled :: bool
  tap_email :: rstr

definition MetricsTap_new :: "rstr \<Rightarrow> MetricsTap" where
  "MetricsTap_new email = \<lparr>tap_enabled = True, tap_email = email\<rparr>"

definition MetricsTap_disabled :: MetricsTap where
  "MetricsTap_disabled = \<lparr>tap_enabled = False, tap_email = []\<rparr>"

definition record_in :: "MetricsTap \<Rightarrow> u64 \<Rightarrow> Registry \<Rightarrow> Registry" where
  "record_in tap n r = (if tap_enabled tap then record_bytes_in (tap_email tap) n r else r)"

definition record_out :: "MetricsTap \<Rightarrow> u64 \<Rightarrow> Registry \<Rightarrow> Registry" where
  "record_out tap n r = (if tap_enabled tap then record_bytes_out (tap_email tap) n r else r)"

definition track_connection :: "MetricsTap \<Rightarrow> Registry \<Rightarrow> ConnectionGuard \<times> Registry" where
  "track_connection tap r = (if tap_enabled tap then connection_started (tap_email tap) r else (None, r))"

section \<open>The dump\<close>

record UserSnapshot =
  sn_email :: rstr
  sn_bytes_in :: u64
  sn_bytes_out :: u64
  sn_active_connections :: u64
  sn_total_connections :: u64

text \<open>\<open>keys\<close> is the order in which the hash map yields its keys.\<close>

definition snapshot :: "rstr list \<Rightarrow> Registry \<Rightarrow> UserSnapshot list" where
  "snapshot keys r =
     concat (map (\<lambda>email. case rg_users r email of
         None \<Rightarrow> []
       | Some s \<Rightarrow> [\<lparr>sn_email = email, sn_bytes_in = us_bytes_in s, sn_bytes_out = us_bytes_out s,
           sn_active_connections = us_active_conns s, sn_total_connections = us_total_conns s\<rparr>]) keys)"

definition uptime_seconds :: "nat \<Rightarrow> Registry \<Rightarrow> nat" where
  "uptime_seconds now r = now - rg_started_at r"

fun escape_label :: "rstr \<Rightarrow> rstr" where
  "escape_label [] = []"
| "escape_label (c # cs) =
     (if c = 0x5c then [0x5c, 0x5c] else if c = 0x22 then [0x5c, 0x22]
      else if c = 0x0a then [0x5c, 0x6e] else [c]) @ escape_label cs"

definition show_i64 :: "u64 \<Rightarrow> rstr" where
  "show_i64 w = (if sint w < 0 then 0x2d # show_nat (nat (- sint w)) else show_nat (nat (sint w)))"

text \<open>A line of the dump ends in a newline; \<open>user_line\<close> is the line of one user for one metric.\<close>

definition line :: "rstr \<Rightarrow> rstr" where
  "line s = s @ [0x0a]"

definition user_line :: "string \<Rightarrow> (UserSnapshot \<Rightarrow> rstr) \<Rightarrow> UserSnapshot \<Rightarrow> rstr" where
  "user_line metric f s =
     line (str metric @ str ''{email='' @ [0x22] @ escape_label (sn_email s) @ [0x22] @ str ''} '' @ f s)"

definition render_prometheus :: "nat \<Rightarrow> rstr list \<Rightarrow> Registry \<Rightarrow> rstr" where
  "render_prometheus now keys r =
     (let snaps = snapshot keys r in
      line (str ''# HELP wrongsv_uptime_seconds Uptime of the wrongsv server in seconds'')
      @ line (str ''# TYPE wrongsv_uptime_seconds counter'')
      @ line (str ''wrongsv_uptime_seconds '' @ show_nat (uptime_seconds now r))
      @ line (str ''# HELP wrongsv_total_bytes_in Total bytes received from clients'')
      @ line (str ''# TYPE wrongsv_total_bytes_in counter'')
      @ line (str ''wrongsv_total_bytes_in '' @ show_nat (unat (rg_total_bytes_in r)))
      @ line (str ''# HELP wrongsv_total_bytes_out Total bytes sent back to clients'')
      @ line (str ''# TYPE wrongsv_total_bytes_out counter'')
      @ line (str ''wrongsv_total_bytes_out '' @ show_nat (unat (rg_total_bytes_out r)))
      @ line (str ''# HELP wrongsv_total_connections Total connections accepted'')
      @ line (str ''# TYPE wrongsv_total_connections counter'')
      @ line (str ''wrongsv_total_connections '' @ show_nat (unat (rg_total_conns r)))
      @ (if snaps = [] then []
         else line (str ''# HELP wrongsv_user_bytes_in Bytes received from a user'')
           @ line (str ''# TYPE wrongsv_user_bytes_in counter'')
           @ concat (map (user_line ''wrongsv_user_bytes_in'' (\<lambda>s. show_nat (unat (sn_bytes_in s)))) snaps)
           @ line (str ''# HELP wrongsv_user_bytes_out Bytes sent back to a user'')
           @ line (str ''# TYPE wrongsv_user_bytes_out counter'')
           @ concat (map (user_line ''wrongsv_user_bytes_out'' (\<lambda>s. show_nat (unat (sn_bytes_out s)))) snaps)
           @ line (str ''# HELP wrongsv_user_active_connections Active connections per user'')
           @ line (str ''# TYPE wrongsv_user_active_connections gauge'')
           @ concat (map (user_line ''wrongsv_user_active_connections'' (\<lambda>s. show_i64 (sn_active_connections s))) snaps)
           @ line (str ''# HELP wrongsv_user_total_connections Total connections per user'')
           @ line (str ''# TYPE wrongsv_user_total_connections counter'')
           @ concat (map (user_line ''wrongsv_user_total_connections'' (\<lambda>s. show_nat (unat (sn_total_connections s)))) snaps)))"

section \<open>The HTTP listener\<close>

text \<open>\<open>BufRead::read_line\<close>: the bytes up to and with the next newline, which must be UTF-8.\<close>

fun line_bytes :: "tape \<Rightarrow> (io_error + bytes) \<times> tape" where
  "line_bytes [] = (Inr [], [])"
| "line_bytes (Inl e # t) = (Inl e, t)"
| "line_bytes (Inr b # t) =
     (if b = 0x0a then (Inr [b], t)
      else case line_bytes t of (Inl e, t') \<Rightarrow> (Inl e, t') | (Inr bs, t') \<Rightarrow> (Inr (b # bs), t'))"

definition read_line :: "(io_error, rstr) conn" where
  "read_line c =
     (case line_bytes (c_in c) of
        (Inl e, t) \<Rightarrow> (Inl e, c\<lparr>c_in := t\<rparr>)
      | (Inr bs, t) \<Rightarrow> (if utf8_valid bs then Inr bs else Inl OtherIo, c\<lparr>c_in := t\<rparr>))"

lemma line_bytes_le: "line_bytes t = (r, t') \<Longrightarrow> length t' \<le> length t"
proof (induction t arbitrary: r rule: line_bytes.induct)
  case (3 b t)
  then show ?case by (cases "line_bytes t") (fastforce split: if_splits sum.splits)
qed simp_all

lemma line_bytes_shrinks: "line_bytes t = (Inr bs, t') \<Longrightarrow> bs \<noteq> [] \<Longrightarrow> length t' < length t"
  using line_bytes_le by (cases t rule: line_bytes.cases) (fastforce split: if_splits sum.splits prod.splits)+

lemma read_line_shrinks: "read_line c = (Inr l, c') \<Longrightarrow> l \<noteq> [] \<Longrightarrow> length (c_in c') < length (c_in c)"
  using line_bytes_shrinks by (auto simp: read_line_def split: prod.splits sum.splits if_splits)

function drain_headers :: "(io_error, unit) conn" where
  "drain_headers c =
     (case read_line c of
        (Inl e, c') \<Rightarrow> (Inl e, c')
      | (Inr l, c') \<Rightarrow>
          if l = [] \<or> l = [0x0d, 0x0a] \<or> l = [0x0a] then (Inr (), c') else drain_headers c')"
  by pat_completeness auto
termination
  by (relation "measure (\<lambda>c. length (c_in c))") (auto dest: read_line_shrinks [OF sym])

declare drain_headers.simps [simp del]

definition write_response :: "nat \<Rightarrow> rstr \<Rightarrow> rstr \<Rightarrow> bytes \<Rightarrow> (io_error, unit) conn" where
  "write_response code reason content_type body =
     bindC (writeC id (str ''HTTP/1.1 '' @ show_nat code @ str '' '' @ reason @ [0x0d, 0x0a]
       @ str ''Content-Type: '' @ content_type @ [0x0d, 0x0a]
       @ str ''Content-Length: '' @ show_nat (length body) @ [0x0d, 0x0a]
       @ str ''Connection: close'' @ [0x0d, 0x0a] @ [0x0d, 0x0a])) (\<lambda>_. writeC id body)"

definition metrics_handle :: "nat \<Rightarrow> rstr list \<Rightarrow> Registry \<Rightarrow> (io_error, unit) conn" where
  "metrics_handle now keys registry =
     bindC read_line (\<lambda>request_line.
     bindC drain_headers (\<lambda>_.
       let parts = split_whitespace request_line;
           verb = (if parts = [] then [] else parts ! 0);
           path = (if length parts \<le> 1 then [] else parts ! 1)
       in
       if verb \<noteq> str ''GET'' then write_response 405 (str ''Method Not Allowed'') (str ''text/plain'') []
       else if path = str ''/metrics'' then
         write_response 200 (str ''OK'') (str ''text/plain; version=0.0.4'') (render_prometheus now keys registry)
       else if path = str ''/'' \<or> path = str ''/healthz'' then
         write_response 200 (str ''OK'') (str ''text/plain'') (str ''ok'' @ [0x0a])
       else write_response 404 (str ''Not Found'') (str ''text/plain'') []))"

record MetricsConfig =
  mc_port :: u16
  mc_bind :: rstr

definition default_bind :: rstr where
  "default_bind = str ''127.0.0.1''"

definition metrics_socket_addr :: "MetricsConfig \<Rightarrow> rstr" where
  "metrics_socket_addr c = mc_bind c @ [0x3a] @ show_nat (unat (mc_port c))"

section \<open>Atomic accesses\<close>

text \<open>
  What the operations do to shared memory, one lock or atomic access at a time. \<open>Create\<close> is the part of
  \<open>get_or_create\<close> under the write lock (the read lock before it changes nothing).
\<close>

datatype counter = BytesIn | BytesOut | Conns

datatype atom =
    Create rstr
  | AddUser counter rstr u64
  | AddActive rstr u64
  | AddTotal counter u64

fun counter_update :: "counter \<Rightarrow> (u64 \<Rightarrow> u64) \<Rightarrow> UserStats \<Rightarrow> UserStats" where
  "counter_update BytesIn f = us_bytes_in_update f"
| "counter_update BytesOut f = us_bytes_out_update f"
| "counter_update Conns f = us_total_conns_update f"

fun total_update :: "counter \<Rightarrow> (u64 \<Rightarrow> u64) \<Rightarrow> Registry \<Rightarrow> Registry" where
  "total_update BytesIn f = rg_total_bytes_in_update f"
| "total_update BytesOut f = rg_total_bytes_out_update f"
| "total_update Conns f = rg_total_conns_update f"

fun run_atom :: "atom \<Rightarrow> Registry \<Rightarrow> Registry" where
  "run_atom (Create e) r = get_or_create e r"
| "run_atom (AddUser c e n) r = upd_stats e (counter_update c (\<lambda>x. x + n)) r"
| "run_atom (AddActive e n) r = upd_stats e (us_active_conns_update (\<lambda>x. x + n)) r"
| "run_atom (AddTotal c n) r = total_update c (\<lambda>x. x + n) r"

text \<open>The calls a connection makes, and their accesses in program order.\<close>

datatype metrics_call =
    CallIn rstr u64
  | CallOut rstr u64
  | CallStarted rstr
  | CallDropped ConnectionGuard

fun run_call :: "metrics_call \<Rightarrow> Registry \<Rightarrow> Registry" where
  "run_call (CallIn e n) r = record_bytes_in e n r"
| "run_call (CallOut e n) r = record_bytes_out e n r"
| "run_call (CallStarted e) r = snd (connection_started e r)"
| "run_call (CallDropped g) r = guard_drop g r"

fun call_atoms :: "metrics_call \<Rightarrow> atom list" where
  "call_atoms (CallIn e n) = (if e = [] \<or> n = 0 then [] else [Create e, AddUser BytesIn e n, AddTotal BytesIn n])"
| "call_atoms (CallOut e n) = (if e = [] \<or> n = 0 then [] else [Create e, AddUser BytesOut e n, AddTotal BytesOut n])"
| "call_atoms (CallStarted e) =
     (if e = [] then [] else [Create e, AddActive e 1, AddUser Conns e 1, AddTotal Conns 1])"
| "call_atoms (CallDropped g) = (case g of None \<Rightarrow> [] | Some e \<Rightarrow> [AddActive e (- 1)])"

lemma run_call_atoms: "run_call call r = fold run_atom (call_atoms call) r"
  by (cases call)
    (auto simp: record_bytes_in_def record_bytes_out_def connection_started_def guard_drop_def Let_def
      split: option.splits)

text \<open>Threads in any order: a thread runs its next access.\<close>

inductive atom_step :: "Registry \<times> atom list list \<Rightarrow> Registry \<times> atom list list \<Rightarrow> bool" where
  thread: "i < length ts \<Longrightarrow> ts ! i = a # rest \<Longrightarrow> atom_step (r, ts) (run_atom a r, ts[i := rest])"

inductive_cases atom_stepE: "atom_step (r, ts) s"

section \<open>No count is lost\<close>

fun counter_of :: "counter \<Rightarrow> UserStats \<Rightarrow> u64" where
  "counter_of BytesIn = us_bytes_in"
| "counter_of BytesOut = us_bytes_out"
| "counter_of Conns = us_total_conns"

definition user_counter :: "counter \<Rightarrow> rstr \<Rightarrow> Registry \<Rightarrow> u64" where
  "user_counter c e r = (case rg_users r e of None \<Rightarrow> 0 | Some s \<Rightarrow> counter_of c s)"

definition active_conns :: "rstr \<Rightarrow> Registry \<Rightarrow> u64" where
  "active_conns e r = (case rg_users r e of None \<Rightarrow> 0 | Some s \<Rightarrow> us_active_conns s)"

fun total_counter :: "counter \<Rightarrow> Registry \<Rightarrow> u64" where
  "total_counter BytesIn r = rg_total_bytes_in r"
| "total_counter BytesOut r = rg_total_bytes_out r"
| "total_counter Conns r = rg_total_conns r"

text \<open>What an access still to come will add to a counter.\<close>

fun adds_user :: "counter \<Rightarrow> rstr \<Rightarrow> atom \<Rightarrow> u64" where
  "adds_user c e (AddUser c' e' n) = (if c' = c \<and> e' = e then n else 0)"
| "adds_user c e _ = 0"

fun adds_active :: "rstr \<Rightarrow> atom \<Rightarrow> u64" where
  "adds_active e (AddActive e' n) = (if e' = e then n else 0)"
| "adds_active e _ = 0"

fun adds_total :: "counter \<Rightarrow> atom \<Rightarrow> u64" where
  "adds_total c (AddTotal c' n) = (if c' = c then n else 0)"
| "adds_total c _ = 0"

text \<open>A thread reaches a user's counters only after it made sure that they exist.\<close>

fun ready :: "rstr set \<Rightarrow> atom list \<Rightarrow> bool" where
  "ready D [] = True"
| "ready D (Create e # as) = ready (insert e D) as"
| "ready D (AddUser c e n # as) = (e \<in> D \<and> ready D as)"
| "ready D (AddActive e n # as) = (e \<in> D \<and> ready D as)"
| "ready D (AddTotal c n # as) = ready D as"

lemma ready_mono: "ready D as \<Longrightarrow> D \<subseteq> D' \<Longrightarrow> ready D' as"
proof (induction D as arbitrary: D' rule: ready.induct)
  case (2 D e as)
  then show ?case by (metis insert_mono ready.simps(2))
qed auto

lemma dom_run_atom: "dom (rg_users (run_atom a r)) = (case a of Create e \<Rightarrow> insert e | _ \<Rightarrow> id) (dom (rg_users r))"
proof (cases a)
  case (AddTotal c n)
  then show ?thesis by (cases c) simp_all
qed (auto simp: get_or_create_def upd_stats_def split: option.splits)

lemma ready_run: "ready (dom (rg_users r)) (a # rest) \<Longrightarrow> ready (dom (rg_users (run_atom a r))) rest"
  unfolding dom_run_atom by (cases a) simp_all

lemma run_atom_adds:
  assumes "ready (dom (rg_users r)) (a # rest)"
  shows "user_counter c e (run_atom a r) = user_counter c e r + adds_user c e a"
    and "active_conns e (run_atom a r) = active_conns e r + adds_active e a"
    and "total_counter c (run_atom a r) = total_counter c r + adds_total c a"
proof -
  show "user_counter c e (run_atom a r) = user_counter c e r + adds_user c e a"
  proof (cases a)
    case (AddUser d f n)
    then show ?thesis using assms
      by (cases c; cases d) (auto simp: user_counter_def upd_stats_def split: option.splits)
  next
    case (AddTotal d n)
    then show ?thesis by (cases d) (simp_all add: user_counter_def)
  qed (cases c; auto simp: user_counter_def get_or_create_def upd_stats_def UserStats_default_def split: option.splits)+
  show "active_conns e (run_atom a r) = active_conns e r + adds_active e a"
  proof (cases a)
    case (AddUser d f n)
    then show ?thesis by (cases d) (auto simp: active_conns_def upd_stats_def split: option.splits)
  next
    case (AddTotal d n)
    then show ?thesis by (cases d) (simp_all add: active_conns_def)
  qed (use assms in \<open>auto simp: active_conns_def get_or_create_def upd_stats_def UserStats_default_def split: option.splits\<close>)
  show "total_counter c (run_atom a r) = total_counter c r + adds_total c a"
  proof (cases a)
    case (AddTotal d n)
    then show ?thesis by (cases c; cases d) simp_all
  qed (cases c; simp add: get_or_create_def upd_stats_def split: option.splits)+
qed

definition outstanding_adds :: "(atom \<Rightarrow> u64) \<Rightarrow> atom list list \<Rightarrow> u64" where
  "outstanding_adds w ts = (\<Sum>t\<leftarrow>ts. \<Sum>a\<leftarrow>t. w a)"

lemma outstanding_adds_step:
  "i < length ts \<Longrightarrow> ts ! i = a # rest \<Longrightarrow> outstanding_adds w ts = w a + outstanding_adds w (ts[i := rest])"
  unfolding outstanding_adds_def
  by (induction ts arbitrary: i) (auto simp: algebra_simps split: nat.splits)

lemma atom_steps_conserve:
  assumes "atom_step\<^sup>*\<^sup>* (r0, ts0) (r, ts)" and "\<forall>t \<in> set ts0. ready (dom (rg_users r0)) t"
  shows "(\<forall>t \<in> set ts. ready (dom (rg_users r)) t)
    \<and> user_counter c e r + outstanding_adds (adds_user c e) ts = user_counter c e r0 + outstanding_adds (adds_user c e) ts0
    \<and> active_conns e r + outstanding_adds (adds_active e) ts = active_conns e r0 + outstanding_adds (adds_active e) ts0
    \<and> total_counter c r + outstanding_adds (adds_total c) ts = total_counter c r0 + outstanding_adds (adds_total c) ts0"
  using assms(1)
proof (induction rule: rtranclp_induct2)
  case refl
  then show ?case using assms(2) by simp
next
  case (step r ts r' ts')
  from step.hyps(2) obtain i a rest where
    i: "i < length ts" "ts ! i = a # rest" and eq: "r' = run_atom a r" "ts' = ts[i := rest]"
    by (auto elim: atom_stepE)
  have rd: "ready (dom (rg_users r)) (a # rest)" using step.IH i nth_mem by fastforce
  have "dom (rg_users r) \<subseteq> dom (rg_users r')" by (auto simp: eq(1) dom_run_atom split: atom.splits)
  then have "\<forall>t \<in> set ts. ready (dom (rg_users r')) t" using step.IH ready_mono by blast
  moreover have "set ts' \<subseteq> insert rest (set ts)" by (simp add: eq(2) set_update_subset_insert)
  ultimately have "\<forall>t \<in> set ts'. ready (dom (rg_users r')) t" using ready_run [OF rd] eq(1) by auto
  then show ?case
    using step.IH run_atom_adds [OF rd] outstanding_adds_step [OF i] by (simp add: eq algebra_simps)
qed

text \<open>What a call books: the amount on the user, and the same on the total.\<close>

fun booked :: "counter \<Rightarrow> metrics_call \<Rightarrow> rstr \<times> u64" where
  "booked c (CallIn e n) = (e, if c = BytesIn then n else 0)"
| "booked c (CallOut e n) = (e, if c = BytesOut then n else 0)"
| "booked c (CallStarted e) = (e, if c = Conns then 1 else 0)"
| "booked c (CallDropped g) = ([], 0)"

fun opened :: "rstr \<Rightarrow> metrics_call \<Rightarrow> u64" where
  "opened e (CallStarted f) = (if f = e then 1 else 0)"
| "opened e (CallDropped g) = (if g = Some e then - 1 else 0)"
| "opened e _ = 0"

text \<open>Guards are dropped by the thread that opened them.\<close>

fun calls_ok :: "rstr set \<Rightarrow> metrics_call list \<Rightarrow> bool" where
  "calls_ok D [] = True"
| "calls_ok D (CallStarted e # cs) = calls_ok (insert e D) cs"
| "calls_ok D (CallDropped g # cs) = ((case g of None \<Rightarrow> True | Some e \<Rightarrow> e \<noteq> [] \<and> e \<in> D) \<and> calls_ok D cs)"
| "calls_ok D (CallIn e n # cs) = calls_ok D cs"
| "calls_ok D (CallOut e n # cs) = calls_ok D cs"

lemma ready_append: "ready D (as @ bs) = (ready D as \<and> ready (D \<union> {e. Create e \<in> set as}) bs)"
proof (induction D as rule: ready.induct)
  case (2 D e as)
  have "insert e D \<union> {f. Create f \<in> set as} = D \<union> {f. Create f \<in> set (Create e # as)}" by auto
  then show ?case using 2 by simp
qed auto

lemma calls_ok_ready: "calls_ok D cs \<Longrightarrow> D - {[]} \<subseteq> E \<Longrightarrow> ready E (concat (map call_atoms cs))"
proof (induction D cs arbitrary: E rule: calls_ok.induct)
  case (2 D e cs)
  then have "ready (E \<union> {f. Create f \<in> set (call_atoms (CallStarted e))}) (concat (map call_atoms cs))"
    by (intro "2.IH") auto
  then show ?case by (simp add: ready_append)
next
  case (3 D g cs)
  then show ?case by (cases g) (auto simp: ready_append)
next
  case (4 D e n cs)
  then have "ready (E \<union> {f. Create f \<in> set (call_atoms (CallIn e n))}) (concat (map call_atoms cs))"
    by (intro "4.IH") auto
  then show ?case by (simp add: ready_append)
next
  case (5 D e n cs)
  then have "ready (E \<union> {f. Create f \<in> set (call_atoms (CallOut e n))}) (concat (map call_atoms cs))"
    by (intro "5.IH") auto
  then show ?case by (simp add: ready_append)
qed simp

lemma call_atoms_book:
  "e \<noteq> [] \<Longrightarrow> (\<Sum>a\<leftarrow>call_atoms call. adds_user c e a) = (if fst (booked c call) = e then snd (booked c call) else 0)"
  "e \<noteq> [] \<Longrightarrow> (\<Sum>a\<leftarrow>call_atoms call. adds_active e a) = opened e call"
  "(\<Sum>a\<leftarrow>call_atoms call. adds_total c a) = (if fst (booked c call) \<noteq> [] then snd (booked c call) else 0)"
  by (cases call; cases c; auto split: option.splits)+

lemma outstanding_calls:
  "outstanding_adds w (map (\<lambda>cs. concat (map call_atoms cs)) ts) = (\<Sum>call\<leftarrow>concat ts. \<Sum>a\<leftarrow>call_atoms call. w a)"
proof -
  have "(\<Sum>a\<leftarrow>concat (map call_atoms cs). w a) = (\<Sum>call\<leftarrow>cs. \<Sum>a\<leftarrow>call_atoms call. w a)" for cs
    by (induction cs) simp_all
  then show ?thesis unfolding outstanding_adds_def by (induction ts) simp_all
qed

text \<open>
  C7: no update of the counters is lost, however the threads of the connections interleave. Each
  operation of the registry is the sequence of its atomic accesses, and after any interleaving, when
  all calls have returned, each user's counters hold the wrapped sums of what was recorded for that
  user, the totals hold the sums over all users, and the number of active connections is that of the
  connections opened less those closed.
\<close>

theorem metrics_conserved:
  assumes "\<forall>t \<in> set ts. calls_ok {} t"
    and "atom_step\<^sup>*\<^sup>* (Registry_new now, map (\<lambda>cs. concat (map call_atoms cs)) ts) (r, replicate n [])"
  shows "(\<forall>call r0. run_call call r0 = fold run_atom (call_atoms call) r0)
    \<and> total_counter c r = (\<Sum>call\<leftarrow>concat ts. if fst (booked c call) \<noteq> [] then snd (booked c call) else 0)
    \<and> (e \<noteq> [] \<longrightarrow>
         user_counter c e r = (\<Sum>call\<leftarrow>concat ts. if fst (booked c call) = e then snd (booked c call) else 0)
         \<and> active_conns e r = (\<Sum>call\<leftarrow>concat ts. opened e call))"
proof -
  let ?ts = "map (\<lambda>cs. concat (map call_atoms cs)) ts"
  have rd: "\<forall>t \<in> set ?ts. ready (dom (rg_users (Registry_new now))) t"
    using assms(1) calls_ok_ready [of "{}"] by (auto simp: Registry_new_def)
  have z: "outstanding_adds w (replicate n []) = 0" for w by (simp add: outstanding_adds_def sum_list_replicate)
  have new: "user_counter c e (Registry_new now) = 0" "active_conns e (Registry_new now) = 0"
    "total_counter c (Registry_new now) = 0"
    by (cases c; simp add: user_counter_def active_conns_def Registry_new_def)+
  note fin = atom_steps_conserve [OF assms(2) rd, of c e]
  have "user_counter c e r = (\<Sum>call\<leftarrow>concat ts. if fst (booked c call) = e then snd (booked c call) else 0)
      \<and> active_conns e r = (\<Sum>call\<leftarrow>concat ts. opened e call)" if "e \<noteq> []"
    using fin z new call_atoms_book(1,2) [OF that] by (simp add: outstanding_calls)
  then show ?thesis using fin z new call_atoms_book(3) by (simp add: outstanding_calls run_call_atoms)
qed

text \<open>A schedule names the thread that runs next.\<close>

fun run_schedule :: "nat list \<Rightarrow> Registry \<times> atom list list \<Rightarrow> Registry \<times> atom list list" where
  "run_schedule [] s = s"
| "run_schedule (i # is) (r, ts) =
     run_schedule is (if i < length ts \<and> ts ! i \<noteq> [] then (run_atom (hd (ts ! i)) r, ts[i := tl (ts ! i)]) else (r, ts))"

lemma run_schedule_steps: "atom_step\<^sup>*\<^sup>* s (run_schedule is s)"
proof (induction "is" s rule: run_schedule.induct)
  case (2 i "is" r ts)
  have "atom_step (r, ts) (run_atom (hd (ts ! i)) r, ts[i := tl (ts ! i)])" if "i < length ts \<and> ts ! i \<noteq> []"
    using that atom_step.thread [of i ts "hd (ts ! i)" "tl (ts ! i)"] by simp
  then show ?case using 2 by (auto intro: converse_rtranclp_into_rtranclp split: if_splits)
qed simp

definition sample_calls :: "metrics_call list list" where
  "sample_calls = [[CallStarted [0x61], CallIn [0x61] 5, CallDropped (Some [0x61])], [CallIn [0x61] 7, CallOut [0x62] 1]]"

theorem metrics_conserved_witness:
  "\<exists>r. atom_step\<^sup>*\<^sup>* (Registry_new 0, map (\<lambda>cs. concat (map call_atoms cs)) sample_calls) (r, replicate 2 [])
    \<and> total_counter BytesIn r = 12 \<and> user_counter BytesIn [0x61] r = 12 \<and> active_conns [0x61] r = 0"
proof -
  let ?s = "(Registry_new 0, map (\<lambda>cs. concat (map call_atoms cs)) sample_calls)"
  let ?sched = "[0, 1, 0, 1, 0, 0, 1, 0, 0, 1, 0, 0, 1, 1]"
  define r where "r = fst (run_schedule ?sched ?s)"
  have "run_schedule ?sched ?s = (r, replicate 2 [])"
    unfolding r_def by (simp add: sample_calls_def numeral_2_eq_2)
  then have run: "atom_step\<^sup>*\<^sup>* ?s (r, replicate 2 [])" using run_schedule_steps [of ?s ?sched] by simp
  have ok: "\<forall>t \<in> set sample_calls. calls_ok {} t" by (simp add: sample_calls_def)
  show ?thesis
    using run metrics_conserved [OF ok run, of BytesIn "[0x61]"] by (auto simp: sample_calls_def)
qed

section \<open>Labels cannot be forged\<close>

text \<open>How a reader of the text format takes a label value up to its closing quote.\<close>

fun read_label :: "bytes \<Rightarrow> (rstr \<times> bytes) option" where
  "read_label [] = None"
| "read_label (c # cs) =
     (if c = 0x22 then Some ([], cs)
      else if c = 0x0a then None
      else if c = 0x5c then
        (case cs of
           [] \<Rightarrow> None
         | d # ds \<Rightarrow>
             (case (if d = 0x6e then Some 0x0a else if d = 0x5c \<or> d = 0x22 then Some d else None) of
                None \<Rightarrow> None
              | Some x \<Rightarrow> map_option (\<lambda>(s, r). (x # s, r)) (read_label ds)))
      else map_option (\<lambda>(s, r). (c # s, r)) (read_label cs))"

lemma read_escape_label: "read_label (escape_label s @ 0x22 # rest) = Some (s, rest)"
  by (induction s) simp_all

lemma escape_label_one_line: "0x0a \<notin> set (escape_label s)"
  by (induction s) simp_all

text \<open>
  C9: a user's name cannot add to or change the dump: whatever bytes an email has, its line is one
  line, and a reader of the text format gets back that email and exactly the value that follows it.
\<close>

theorem metrics_label_roundtrip:
  assumes "0x0a \<notin> set (str metric)" and "0x0a \<notin> set (f s)"
  shows "\<exists>l. user_line metric f s = l @ [0x0a] \<and> 0x0a \<notin> set l
    \<and> read_label (drop (length metric + length ''{email='' + 1) l) = Some (sn_email s, str ''} '' @ f s)"
proof -
  let ?l = "str metric @ str ''{email='' @ [0x22] @ escape_label (sn_email s) @ [0x22] @ str ''} '' @ f s"
  have "drop (length metric + length ''{email='' + 1) ?l = escape_label (sn_email s) @ 0x22 # str ''} '' @ f s"
    by (simp add: str_def)
  moreover have "user_line metric f s = ?l @ [0x0a]" by (simp add: user_line_def line_def)
  moreover have "0x0a \<notin> set ?l" using assms escape_label_one_line [of "sn_email s"] by simp
  ultimately show ?thesis using read_escape_label [of "sn_email s"] by (intro exI [of _ ?l]) simp
qed

theorem metrics_label_roundtrip_witness:
  "\<exists>l. user_line ''m'' (\<lambda>s. show_nat (unat (sn_bytes_in s)))
      \<lparr>sn_email = [0x61, 0x22, 0x0a], sn_bytes_in = 5, sn_bytes_out = 0, sn_active_connections = 0, sn_total_connections = 1\<rparr>
      = l @ [0x0a] \<and> 0x0a \<notin> set l \<and> read_label (drop (length ''m'' + length ''{email='' + 1) l) = Some ([0x61, 0x22, 0x0a], str ''} '' @ [0x35])"
  using metrics_label_roundtrip [of "''m''" "\<lambda>s. show_nat (unat (sn_bytes_in s))"
    "\<lparr>sn_email = [0x61, 0x22, 0x0a], sn_bytes_in = 5, sn_bytes_out = 0, sn_active_connections = 0, sn_total_connections = 1\<rparr>"]
  by (simp add: show_nat.simps [of 5])

end
