(* ===== verification/Relay.thy ===== *)
theory Relay
  imports Vision Metrics "HOL-Library.Sublist"
begin

text \<open>
  The TCP relays of \<open>server/src/handler/relay.rs\<close>: two threads, each reading from one socket and writing to
  the other, and counting. A thread is a pump with a reader half and a writer half; the step relation
  \<open>relay_step\<close> interleaves the two in any order. The interface \<open>channel\<close> says what a pump needs of its two
  halves, \<open>relay_pair\<close> what two pumps give together; both are instantiated for plain and for Vision
  traffic.
\<close>

section \<open>The two halves of a socket\<close>

text \<open>
  What the reads of a socket will return, in order; an empty answer and the end of the list are the
  end of the stream. A read into a buffer of \<open>n\<close> bytes leaves the rest of an answer for the next one.
\<close>

type_synonym answers = "(io_error + bytes) list"

fun stream_read :: "nat \<Rightarrow> answers \<Rightarrow> (io_error + bytes) \<times> answers" where
  "stream_read n [] = (Inr [], [])"
| "stream_read n (Inl e # rs) = (Inl e, rs)"
| "stream_read n (Inr bs # rs) = (Inr (take n bs), if length bs \<le> n then rs else Inr (drop n bs) # rs)"

text \<open>The writing half: what was written, the outcomes of the writes to come, and whether it was shut down.\<close>

record Sink =
  sk_written :: bytes
  sk_faults :: "io_error option list"
  sk_shut :: bool

definition sink_write_all :: "Sink \<Rightarrow> bytes \<Rightarrow> (io_error + unit) \<times> Sink" where
  "sink_write_all k bs =
     (if sk_shut k then (Inl OtherIo, k)
      else case sk_faults k of
        Some e # fs \<Rightarrow> (Inl e, k\<lparr>sk_faults := fs\<rparr>)
      | _ \<Rightarrow> (Inr (), k\<lparr>sk_written := sk_written k @ bs, sk_faults := tl (sk_faults k)\<rparr>))"

definition shutdown_write :: "Sink \<Rightarrow> Sink" where
  "shutdown_write k = k\<lparr>sk_shut := True\<rparr>"

section \<open>A pump and its loop\<close>

record ('r, 'w) Pump =
  pm_reader :: 'r
  pm_writer :: 'w
  pm_running :: bool

text \<open>One round of the loop: read, count, write; the end of the stream or an error leaves the loop.\<close>

definition pump_iter ::
  "('r \<Rightarrow> (io_error + bytes) \<times> 'r) \<Rightarrow> ('w \<Rightarrow> bytes \<Rightarrow> (io_error + unit) \<times> 'w) \<Rightarrow> (nat \<Rightarrow> Registry \<Rightarrow> Registry)
     \<Rightarrow> ('r, 'w) Pump \<times> Registry \<Rightarrow> ('r, 'w) Pump \<times> Registry" where
  "pump_iter rd wr book pg =
     (case pg of (p, g) \<Rightarrow>
      case rd (pm_reader p) of
        (Inl _, r) \<Rightarrow> (p\<lparr>pm_reader := r, pm_running := False\<rparr>, g)
      | (Inr bs, r) \<Rightarrow>
          if bs = [] then (p\<lparr>pm_reader := r, pm_running := False\<rparr>, g)
          else case wr (pm_writer p) bs of
            (Inl _, w) \<Rightarrow> (p\<lparr>pm_reader := r, pm_writer := w, pm_running := False\<rparr>, book (length bs) g)
          | (Inr _, w) \<Rightarrow> (p\<lparr>pm_reader := r, pm_writer := w\<rparr>, book (length bs) g))"

text \<open>
  Two threads. A thread that leaves its loop ends with its shutdown, which may concern either socket.
\<close>

type_synonym ('r, 'w, 's, 'v) relay = "('r, 'w) Pump \<times> ('s, 'v) Pump \<times> Registry"

inductive relay_step ::
  "(('r, 'w) Pump \<times> Registry \<Rightarrow> ('r, 'w) Pump \<times> Registry) \<Rightarrow> (('r, 'w, 's, 'v) relay \<Rightarrow> ('r, 'w, 's, 'v) relay)
     \<Rightarrow> (('s, 'v) Pump \<times> Registry \<Rightarrow> ('s, 'v) Pump \<times> Registry) \<Rightarrow> (('r, 'w, 's, 'v) relay \<Rightarrow> ('r, 'w, 's, 'v) relay)
     \<Rightarrow> ('r, 'w, 's, 'v) relay \<Rightarrow> ('r, 'w, 's, 'v) relay \<Rightarrow> bool"
  for up stop_up down stop_down where
  up: "pm_running u \<Longrightarrow> up (u, g) = (u', g') \<Longrightarrow>
     relay_step up stop_up down stop_down (u, d, g) ((if pm_running u' then id else stop_up) (u', d, g'))"
| down: "pm_running d \<Longrightarrow> down (d, g) = (d', g') \<Longrightarrow>
     relay_step up stop_up down stop_down (u, d, g) ((if pm_running d' then id else stop_down) (u, d', g'))"

inductive_cases relay_stepE: "relay_step up stop_up down stop_down (u, d, g) s"

fun finished :: "('r, 'w, 's, 'v) relay \<Rightarrow> bool" where
  "finished (u, d, g) = (\<not> pm_running u \<and> \<not> pm_running d)"

section \<open>What a pump needs\<close>

text \<open>
  \<open>content\<close> is what the reader has still to deliver, \<open>sent\<close> what the writer has passed on; a writer that is
  \<open>ok\<close> takes everything.
\<close>

locale channel =
  fixes rd :: "'r \<Rightarrow> (io_error + bytes) \<times> 'r"
    and wr :: "'w \<Rightarrow> bytes \<Rightarrow> (io_error + unit) \<times> 'w"
    and content :: "'r \<Rightarrow> bytes"
    and left :: "'r \<Rightarrow> nat"
    and sent :: "'w \<Rightarrow> bytes"
    and ok :: "'w \<Rightarrow> bool"
  assumes rd_data: "rd r = (Inr bs, r') \<Longrightarrow> bs \<noteq> [] \<Longrightarrow> content r = bs @ content r' \<and> left r' < left r"
    and rd_end: "rd r = (Inr [], r') \<Longrightarrow> content r = []"
    and rd_error: "rd r = (Inl e, r') \<Longrightarrow> content r = []"
    and wr_ok: "ok w \<Longrightarrow> \<exists>w'. wr w bs = (Inr (), w') \<and> ok w'"
    and wr_sent: "wr w bs = (Inr x, w') \<Longrightarrow> sent w' = sent w @ bs"
    and wr_error: "wr w bs = (Inl e, w') \<Longrightarrow> sent w' = sent w"
begin

definition whole :: "bytes \<Rightarrow> ('r, 'w) Pump \<Rightarrow> bool" where
  "whole tot p \<longleftrightarrow>
     (if pm_running p then ok (pm_writer p) \<and> sent (pm_writer p) @ content (pm_reader p) = tot
      else sent (pm_writer p) = tot)"

definition part :: "bytes \<Rightarrow> ('r, 'w) Pump \<Rightarrow> bool" where
  "part tot p \<longleftrightarrow>
     (if pm_running p then sent (pm_writer p) @ content (pm_reader p) = tot
      else prefix (sent (pm_writer p)) tot)"

lemma iter_cases:
  assumes "pump_iter rd wr book (p, g) = (p', g')"
  obtains (stop) "pm_running p' = False" and "pm_writer p' = pm_writer p" and "content (pm_reader p) = []" and "g' = g"
  | (fail) bs e where "pm_running p' = False" and "bs \<noteq> []" and "wr (pm_writer p) bs = (Inl e, pm_writer p')"
      and "content (pm_reader p) = bs @ content (pm_reader p')" and "g' = book (length bs) g"
  | (go) bs where "pm_running p' = pm_running p" and "bs \<noteq> []" and "wr (pm_writer p) bs = (Inr (), pm_writer p')"
      and "content (pm_reader p) = bs @ content (pm_reader p')" and "left (pm_reader p') < left (pm_reader p)"
      and "g' = book (length bs) g"
proof (cases "rd (pm_reader p)")
  case (Pair a r)
  show ?thesis
  proof (cases a)
    case (Inl e)
    then show ?thesis using assms Pair rd_error [of "pm_reader p" e r] stop by (auto simp: pump_iter_def)
  next
    case (Inr bs)
    show ?thesis
    proof (cases "bs = []")
      case True
      then show ?thesis using assms Pair Inr rd_end [of "pm_reader p" r] stop by (auto simp: pump_iter_def)
    next
      case False
      obtain x w where w: "wr (pm_writer p) bs = (x, w)" by force
      show ?thesis
        using assms Pair Inr False w rd_data [of "pm_reader p" bs r] fail go
        by (cases x) (auto simp: pump_iter_def)
    qed
  qed
qed

lemma whole_iter:
  assumes "pump_iter rd wr book (p, g) = (p', g')" and "pm_running p" and "whole tot p"
  shows "whole tot p'"
  using assms(1)
proof (cases rule: iter_cases)
  case stop
  then show ?thesis using assms(2,3) by (simp add: whole_def)
next
  case (fail bs e)
  then show ?thesis using assms(2,3) wr_ok [of "pm_writer p" bs] by (auto simp: whole_def)
next
  case (go bs)
  then show ?thesis
    using assms(2,3) wr_ok [of "pm_writer p" bs] wr_sent [OF go(3)] by (auto simp: whole_def)
qed

lemma part_iter:
  assumes "pump_iter rd wr book (p, g) = (p', g')" and "pm_running p" and "part tot p"
  shows "part tot p'"
  using assms(1)
proof (cases rule: iter_cases)
  case stop
  then show ?thesis using assms(2,3) by (simp add: part_def)
next
  case (fail bs e)
  then show ?thesis using assms(2,3) wr_error [OF fail(3)] by (auto simp: part_def)
next
  case (go bs)
  then show ?thesis using assms(2,3) wr_sent [OF go(3)] by (auto simp: part_def)
qed

lemma left_iter:
  assumes "pump_iter rd wr book (p, g) = (p', g')" and "pm_running p'"
  shows "left (pm_reader p') < left (pm_reader p)"
  using assms(1) by (cases rule: iter_cases) (use assms(2) in auto)

end

section \<open>Two pumps\<close>

text \<open>
  The shutdown after the up loop concerns the up writer; that after the down loop may concern any
  writer, but changes nothing that was sent.
\<close>

locale two_way =
  up: channel rd wr content left sent ok + down: channel rd' wr' content' left' sent' ok'
  for rd :: "'r \<Rightarrow> (io_error + bytes) \<times> 'r" and wr :: "'w \<Rightarrow> bytes \<Rightarrow> (io_error + unit) \<times> 'w"
    and content left sent ok
    and rd' :: "'s \<Rightarrow> (io_error + bytes) \<times> 's" and wr' :: "'v \<Rightarrow> bytes \<Rightarrow> (io_error + unit) \<times> 'v"
    and content' left' sent' ok' +
  fixes book_up book_down :: "nat \<Rightarrow> Registry \<Rightarrow> Registry"
    and stop_up stop_down :: "('r, 'w, 's, 'v) relay \<Rightarrow> ('r, 'w, 's, 'v) relay"
  assumes stop_up: "stop_up (u, d, g) = (u2, d2, g2) \<Longrightarrow>
      pm_reader u2 = pm_reader u \<and> pm_running u2 = pm_running u \<and> sent (pm_writer u2) = sent (pm_writer u)
      \<and> d2 = d \<and> g2 = g"
    and stop_down: "stop_down (u, d, g) = (u2, d2, g2) \<Longrightarrow>
      pm_reader u2 = pm_reader u \<and> pm_running u2 = pm_running u \<and> sent (pm_writer u2) = sent (pm_writer u)
      \<and> pm_reader d2 = pm_reader d \<and> pm_running d2 = pm_running d \<and> sent' (pm_writer d2) = sent' (pm_writer d)
      \<and> g2 = g"
begin

abbreviation "iter_up \<equiv> pump_iter rd wr book_up"
abbreviation "iter_down \<equiv> pump_iter rd' wr' book_down"
abbreviation "step \<equiv> relay_step iter_up stop_up iter_down stop_down"

text \<open>Every round uses up input or ends a thread, so a run has a bounded number of steps.\<close>

definition fuel :: "('r, 'w, 's, 'v) relay \<Rightarrow> nat" where
  "fuel s = (case s of (u, d, g) \<Rightarrow>
     (if pm_running u then Suc (left (pm_reader u)) else 0) + (if pm_running d then Suc (left' (pm_reader d)) else 0))"

lemma step_fuel:
  assumes "step s t"
  shows "fuel t < fuel s"
  using assms
proof cases
  case (up u g u' g' d)
  obtain u2 d2 g2 where e: "stop_up (u', d, g') = (u2, d2, g2)" by (rule prod_cases3)
  show ?thesis
    using up(1-3) up.left_iter [OF up(4)] stop_up [OF e] by (cases "pm_running u'") (simp_all add: fuel_def e)
next
  case (down d g d' g' u)
  obtain u2 d2 g2 where e: "stop_down (u, d', g') = (u2, d2, g2)" by (rule prod_cases3)
  show ?thesis
    using down(1-3) down.left_iter [OF down(4)] stop_down [OF e] by (cases "pm_running d'") (simp_all add: fuel_def e)
qed

lemma steps_bounded: "(step ^^ n) s t \<Longrightarrow> n + fuel t \<le> fuel s"
proof (induction n arbitrary: t)
  case (Suc n)
  then obtain t' where "(step ^^ n) s t'" "step t' t" by auto
  then show ?case using Suc.IH [of t'] step_fuel [of t' t] by linarith
qed simp

lemma can_step: "\<not> finished s \<Longrightarrow> \<exists>t. step s t"
proof -
  assume "\<not> finished s"
  moreover obtain u d g where s: "s = (u, d, g)" by (cases s)
  ultimately consider "pm_running u" | "pm_running d" by auto
  then show ?thesis
  proof cases
    case 1
    then show ?thesis using relay_step.up [of u iter_up g] s by (cases "iter_up (u, g)") blast
  next
    case 2
    then show ?thesis using relay_step.down [of d iter_down g] s by (cases "iter_down (d, g)") blast
  qed
qed

lemma finishes: "\<exists>t. step\<^sup>*\<^sup>* s t \<and> finished t"
proof (induction s rule: measure_induct_rule [where f = fuel])
  case (less s)
  show ?case
  proof (cases "finished s")
    case False
    then obtain t where "step s t" using can_step by blast
    then show ?thesis using less [OF step_fuel] by (meson converse_rtranclp_into_rtranclp)
  qed blast
qed

text \<open>The down thread may run to its end before the up thread does anything.\<close>

lemma down_first:
  "pm_running d \<Longrightarrow> \<exists>d' g'. \<not> pm_running d' \<and> step\<^sup>*\<^sup>* (u, d, g) (stop_down (u, d', g'))"
proof (induction "left' (pm_reader d)" arbitrary: d g rule: less_induct)
  case less
  obtain d' g' where i: "iter_down (d, g) = (d', g')" by force
  note st = relay_step.down [OF less.prems, of iter_down g d' g' iter_up stop_up stop_down u, OF i]
  show ?case
  proof (cases "pm_running d'")
    case True
    then show ?thesis
      using less.hyps [OF down.left_iter [OF i True] True, of g'] st by (auto intro: converse_rtranclp_into_rtranclp)
  next
    case False
    then show ?thesis using st by auto
  qed
qed

lemma step_part:
  assumes "step (u, d, g) (u2, d2, g2)" and "up.part tu u" and "down.whole td d"
  shows "up.part tu u2 \<and> down.whole td d2"
  using assms(1)
proof cases
  case (up u' g')
  have p: "up.part tu u'" using up.part_iter [OF up(3,2) assms(2)] .
  show ?thesis
  proof (cases "pm_running u'")
    case False
    then show ?thesis
      using p up(1) stop_up [of u' d g' u2 d2 g2] assms(3) by (simp add: up.part_def down.whole_def)
  qed (use p up(1) assms(3) in simp)
next
  case (down d' g')
  have p: "down.whole td d'" using down.whole_iter [OF down(3,2) assms(3)] .
  show ?thesis
  proof (cases "pm_running d'")
    case False
    then show ?thesis
      using p down(1) stop_down [of u d' g' u2 d2 g2] assms(2) by (simp add: up.part_def down.whole_def)
  qed (use p down(1) assms(2) in simp)
qed

lemma steps_part:
  assumes "step\<^sup>*\<^sup>* (u, d, g) (u2, d2, g2)" and "up.part tu u" and "down.whole td d"
  shows "up.part tu u2 \<and> down.whole td d2"
proof -
  have "case t of (u2, d2, g2) \<Rightarrow> up.part tu u2 \<and> down.whole td d2" if "step\<^sup>*\<^sup>* (u, d, g) t" for t
    using that assms(2,3) step_part by (induction rule: rtranclp_induct) auto
  then show ?thesis using assms(1) by fastforce
qed

end

text \<open>Two pumps that do not disturb each other, and counters that count what each of them passes on.\<close>

locale relay_pair = two_way +
  fixes count_up count_down :: "Registry \<Rightarrow> u64" and rate :: u64
  assumes stop_down_up: "stop_down (u, d, g) = (u2, d2, g2) \<Longrightarrow> u2 = u"
    and count_up: "count_up (book_up n g) = count_up g + rate * of_nat n" "count_up (book_down n g) = count_up g"
    and count_down: "count_down (book_down n g) = count_down g + rate * of_nat n" "count_down (book_up n g) = count_down g"
begin

definition inv :: "bytes \<Rightarrow> bytes \<Rightarrow> u64 \<Rightarrow> u64 \<Rightarrow> ('a, 'b, 'c, 'd) relay \<Rightarrow> bool" where
  "inv tu td cu cd s \<longleftrightarrow> (case s of (u, d, g) \<Rightarrow>
     up.whole tu u \<and> down.whole td d
     \<and> count_up g = cu + rate * of_nat (length (sent (pm_writer u)))
     \<and> count_down g = cd + rate * of_nat (length (sent' (pm_writer d))))"

lemma iter_up_count:
  assumes "iter_up (u, g) = (u', g')" and "pm_running u" and "up.whole tu u"
  shows "count_up g' = count_up g + rate * of_nat (length (sent (pm_writer u'))) - rate * of_nat (length (sent (pm_writer u)))
    \<and> count_down g' = count_down g"
  using assms(1)
proof (cases rule: up.iter_cases)
  case stop
  then show ?thesis by simp
next
  case (fail bs e)
  then show ?thesis using assms(2,3) up.wr_ok [of "pm_writer u" bs] by (auto simp: up.whole_def)
next
  case (go bs)
  then show ?thesis using up.wr_sent [OF go(3)] by (simp add: count_up count_down algebra_simps)
qed

lemma iter_down_count:
  assumes "iter_down (d, g) = (d', g')" and "pm_running d" and "down.whole td d"
  shows "count_down g' = count_down g + rate * of_nat (length (sent' (pm_writer d'))) - rate * of_nat (length (sent' (pm_writer d)))
    \<and> count_up g' = count_up g"
  using assms(1)
proof (cases rule: down.iter_cases)
  case stop
  then show ?thesis by simp
next
  case (fail bs e)
  then show ?thesis using assms(2,3) down.wr_ok [of "pm_writer d" bs] by (auto simp: down.whole_def)
next
  case (go bs)
  then show ?thesis using down.wr_sent [OF go(3)] by (simp add: count_up count_down algebra_simps)
qed

lemma step_inv:
  assumes "step s t" and "inv tu td cu cd s"
  shows "inv tu td cu cd t"
  using assms(1)
proof cases
  case (up u g u' g' d)
  have w: "up.whole tu u" "down.whole td d" using assms(2) by (simp_all add: inv_def up(1))
  have "inv tu td cu cd (u', d, g')"
    using up.whole_iter [OF up(4,3) w(1)] iter_up_count [OF up(4,3) w(1)] w assms(2)
    by (simp add: inv_def up(1) algebra_simps)
  moreover obtain u2 d2 g2 where e: "stop_up (u', d, g') = (u2, d2, g2)" by (rule prod_cases3)
  ultimately show ?thesis
    using stop_up [OF e] up(2) by (cases "pm_running u'") (simp_all add: inv_def up.whole_def e)
next
  case (down d g d' g' u)
  have w: "up.whole tu u" "down.whole td d" using assms(2) by (simp_all add: inv_def down(1))
  have "inv tu td cu cd (u, d', g')"
    using down.whole_iter [OF down(4,3) w(2)] iter_down_count [OF down(4,3) w(2)] w assms(2)
    by (simp add: inv_def down(1) algebra_simps)
  moreover obtain u2 d2 g2 where e: "stop_down (u, d', g') = (u2, d2, g2)" by (rule prod_cases3)
  ultimately show ?thesis
    using stop_down [OF e] stop_down_up [OF e] down(2) by (cases "pm_running d'") (simp_all add: inv_def down.whole_def e)
qed

lemma steps_inv: "step\<^sup>*\<^sup>* s t \<Longrightarrow> inv tu td cu cd s \<Longrightarrow> inv tu td cu cd t"
  by (induction rule: rtranclp_induct) (use step_inv in blast)+

text \<open>When both threads have ended, each has passed on all its reader had, and it is counted.\<close>

lemma delivers:
  assumes "step\<^sup>*\<^sup>* (u, d, g) (u2, d2, g2)" and "finished (u2, d2, g2)"
    and "pm_running u" and "pm_running d" and "ok (pm_writer u)" and "ok' (pm_writer d)"
  shows "sent (pm_writer u2) = sent (pm_writer u) @ content (pm_reader u)
    \<and> sent' (pm_writer d2) = sent' (pm_writer d) @ content' (pm_reader d)
    \<and> count_up g2 = count_up g + rate * of_nat (length (content (pm_reader u)))
    \<and> count_down g2 = count_down g + rate * of_nat (length (content' (pm_reader d)))"
proof -
  let ?tu = "sent (pm_writer u) @ content (pm_reader u)" and ?td = "sent' (pm_writer d) @ content' (pm_reader d)"
  let ?cu = "count_up g - rate * of_nat (length (sent (pm_writer u)))"
  let ?cd = "count_down g - rate * of_nat (length (sent' (pm_writer d)))"
  have "inv ?tu ?td ?cu ?cd (u, d, g)" using assms(3-) by (simp add: inv_def up.whole_def down.whole_def)
  from steps_inv [OF assms(1) this] have
    "sent (pm_writer u2) = ?tu" "sent' (pm_writer d2) = ?td"
    "count_up g2 = ?cu + rate * of_nat (length (sent (pm_writer u2)))"
    "count_down g2 = ?cd + rate * of_nat (length (sent' (pm_writer d2)))"
    using assms(2) by (simp_all add: inv_def up.whole_def down.whole_def)
  then show ?thesis by (simp add: algebra_simps)
qed

end

section \<open>Plain traffic\<close>

type_synonym Socket = "answers \<times> Sink"

definition record_up :: "MetricsTap \<Rightarrow> nat \<Rightarrow> Registry \<Rightarrow> Registry" where
  "record_up tap n = record_in tap (of_nat n)"

definition record_down :: "MetricsTap \<Rightarrow> nat \<Rightarrow> Registry \<Rightarrow> Registry" where
  "record_down tap n = record_out tap (of_nat n)"

text \<open>After the up loop the target is shut down for writing, after the down loop the client.\<close>

definition stop_raw_up :: "(answers, Sink, 's, 'v) relay \<Rightarrow> (answers, Sink, 's, 'v) relay" where
  "stop_raw_up s = (case s of (u, d, g) \<Rightarrow> (u\<lparr>pm_writer := shutdown_write (pm_writer u)\<rparr>, d, g))"

definition stop_raw_down :: "('r, 'w, answers, Sink) relay \<Rightarrow> ('r, 'w, answers, Sink) relay" where
  "stop_raw_down s = (case s of (u, d, g) \<Rightarrow> (u, d\<lparr>pm_writer := shutdown_write (pm_writer d)\<rparr>, g))"

definition relay_raw :: "Socket \<Rightarrow> Socket \<Rightarrow> Registry \<Rightarrow> (answers, Sink, answers, Sink) relay" where
  "relay_raw client target g =
     (\<lparr>pm_reader = fst client, pm_writer = snd target, pm_running = True\<rparr>,
      \<lparr>pm_reader = fst target, pm_writer = snd client, pm_running = True\<rparr>, g)"

definition relay_raw_step ::
  "MetricsTap \<Rightarrow> (answers, Sink, answers, Sink) relay \<Rightarrow> (answers, Sink, answers, Sink) relay \<Rightarrow> bool" where
  "relay_raw_step tap =
     relay_step (pump_iter (stream_read 32768) sink_write_all (record_up tap)) stop_raw_up
       (pump_iter (stream_read 32768) sink_write_all (record_down tap)) stop_raw_down"

definition relay_raw_with_initial ::
  "MetricsTap \<Rightarrow> Socket \<Rightarrow> Socket \<Rightarrow> bytes \<Rightarrow> Registry \<Rightarrow> io_error + (answers, Sink, answers, Sink) relay" where
  "relay_raw_with_initial tap client target initial_data g =
     (if initial_data = [] then Inr (relay_raw client target g)
      else case sink_write_all (snd target) initial_data of
        (Inl e, _) \<Rightarrow> Inl e
      | (Inr _, k) \<Rightarrow> Inr (relay_raw client (fst target, k) (record_up tap (length initial_data) g)))"

text \<open>What a socket will deliver before its end, and how much there is to read.\<close>

fun stream_content :: "answers \<Rightarrow> bytes" where
  "stream_content [] = []"
| "stream_content (Inl e # rs) = []"
| "stream_content (Inr bs # rs) = (if bs = [] then [] else bs @ stream_content rs)"

fun stream_left :: "answers \<Rightarrow> nat" where
  "stream_left [] = 0"
| "stream_left (Inl e # rs) = Suc (stream_left rs)"
| "stream_left (Inr bs # rs) = Suc (length bs) + stream_left rs"

definition sink_ok :: "Sink \<Rightarrow> bool" where
  "sink_ok k \<longleftrightarrow> \<not> sk_shut k \<and> sk_faults k = []"

lemma stream_read_data:
  "stream_read n r = (Inr bs, r') \<Longrightarrow> bs \<noteq> [] \<Longrightarrow> stream_content r = bs @ stream_content r' \<and> stream_left r' < stream_left r"
  by (cases "(n, r)" rule: stream_read.cases) (auto split: if_splits)

lemma stream_read_end: "0 < n \<Longrightarrow> stream_read n r = (Inr [], r') \<Longrightarrow> stream_content r = []"
  by (cases "(n, r)" rule: stream_read.cases) (auto split: if_splits)

lemma stream_read_error: "stream_read n r = (Inl e, r') \<Longrightarrow> stream_content r = []"
  by (cases "(n, r)" rule: stream_read.cases) (auto split: if_splits)

lemma stream_read_error_left: "stream_read n r = (Inl e, r') \<Longrightarrow> stream_left r' < stream_left r"
  by (cases "(n, r)" rule: stream_read.cases) (auto split: if_splits)

lemma sink_write_ok: "sink_ok k \<Longrightarrow> sink_write_all k bs = (Inr (), k\<lparr>sk_written := sk_written k @ bs\<rparr>)"
  by (cases k) (simp add: sink_ok_def sink_write_all_def)

lemma sink_write_sent: "sink_write_all k bs = (Inr x, k') \<Longrightarrow> sk_written k' = sk_written k @ bs"
  by (auto simp: sink_write_all_def split: if_splits list.splits option.splits)

lemma sink_write_error: "sink_write_all k bs = (Inl e, k') \<Longrightarrow> sk_written k' = sk_written k"
  by (auto simp: sink_write_all_def split: if_splits list.splits option.splits)

lemma sink_ok_written [simp]: "sink_ok (k\<lparr>sk_written := x\<rparr>) = sink_ok k"
  by (simp add: sink_ok_def)

lemma shutdown_written [simp]: "sk_written (shutdown_write k) = sk_written k" "sk_shut (shutdown_write k)"
  by (simp_all add: shutdown_write_def)

definition booking_rate :: "MetricsTap \<Rightarrow> u64" where
  "booking_rate tap = (if tap_enabled tap \<and> tap_email tap \<noteq> [] then 1 else 0)"

lemma user_counter_record:
  "user_counter BytesIn (tap_email tap) (record_up tap n g) = user_counter BytesIn (tap_email tap) g + booking_rate tap * of_nat n"
  "user_counter BytesOut e (record_up tap n g) = user_counter BytesOut e g"
  "user_counter BytesOut (tap_email tap) (record_down tap n g) = user_counter BytesOut (tap_email tap) g + booking_rate tap * of_nat n"
  "user_counter BytesIn e (record_down tap n g) = user_counter BytesIn e g"
  by (auto simp: record_up_def record_down_def record_in_def record_out_def record_bytes_in_def record_bytes_out_def
      booking_rate_def user_counter_def get_or_create_def upd_stats_def UserStats_default_def Let_def split: option.splits)

interpretation raw: relay_pair "stream_read 32768" sink_write_all stream_content stream_left sk_written sink_ok
  "stream_read 32768" sink_write_all stream_content stream_left sk_written sink_ok
  "record_up tap" "record_down tap" stop_raw_up stop_raw_down
  "user_counter BytesIn (tap_email tap)" "user_counter BytesOut (tap_email tap)" "booking_rate tap" for tap
  by unfold_locales
    (auto simp: stream_read_data stream_read_error sink_write_ok sink_write_sent sink_write_error user_counter_record
      stop_raw_up_def stop_raw_down_def dest: stream_read_end [of 32768, OF zero_less_numeral])

lemma raw_shut_step:
  assumes "relay_raw_step tap s t" and "case s of (u, d, g) \<Rightarrow> (\<not> pm_running u \<longrightarrow> sk_shut (pm_writer u)) \<and> (\<not> pm_running d \<longrightarrow> sk_shut (pm_writer d))"
  shows "case t of (u, d, g) \<Rightarrow> (\<not> pm_running u \<longrightarrow> sk_shut (pm_writer u)) \<and> (\<not> pm_running d \<longrightarrow> sk_shut (pm_writer d))"
  using assms(1) unfolding relay_raw_step_def
  by cases (use assms(2) in \<open>auto simp: stop_raw_up_def stop_raw_down_def\<close>)

lemma raw_shut:
  assumes "(relay_raw_step tap)\<^sup>*\<^sup>* (relay_raw client target g) t"
  shows "case t of (u, d, g) \<Rightarrow> (\<not> pm_running u \<longrightarrow> sk_shut (pm_writer u)) \<and> (\<not> pm_running d \<longrightarrow> sk_shut (pm_writer d))"
  using assms by (induction rule: rtranclp_induct) (auto simp: relay_raw_def dest: raw_shut_step)

lemma relay_raw_result:
  assumes "sink_ok (snd client)" and "sink_ok (snd target)"
    and "(relay_raw_step tap)\<^sup>*\<^sup>* (relay_raw client target g) (u, d, g')" and "finished (u, d, g')"
  shows "sk_written (pm_writer u) = sk_written (snd target) @ stream_content (fst client)
    \<and> sk_written (pm_writer d) = sk_written (snd client) @ stream_content (fst target)
    \<and> sk_shut (pm_writer u) \<and> sk_shut (pm_writer d)
    \<and> user_counter BytesIn (tap_email tap) g'
        = user_counter BytesIn (tap_email tap) g + booking_rate tap * of_nat (length (stream_content (fst client)))
    \<and> user_counter BytesOut (tap_email tap) g'
        = user_counter BytesOut (tap_email tap) g + booking_rate tap * of_nat (length (stream_content (fst target)))"
  using raw.delivers [OF assms(3) [unfolded relay_raw_step_def relay_raw_def] assms(4)] raw_shut [OF assms(3)] assms(1,2,4)
  by simp

text \<open>
  C5: a plain relay ends and loses nothing. However the two threads interleave and however the
  sockets cut their data, every run has a bounded number of steps and can only go on to a state where
  both threads have ended; then the target has got exactly what the client sent, the client exactly
  what the target sent, both have been told the end, and the user's counters have grown by exactly
  these amounts.
\<close>

theorem relay_raw_delivers:
  assumes "sink_ok (snd client)" and "sink_ok (snd target)"
    and "(relay_raw_step tap ^^ n) (relay_raw client target g) s"
  shows "n \<le> 2 + stream_left (fst client) + stream_left (fst target)
    \<and> (\<exists>u d g'. (relay_raw_step tap)\<^sup>*\<^sup>* s (u, d, g') \<and> finished (u, d, g'))
    \<and> (\<forall>u d g'. (relay_raw_step tap)\<^sup>*\<^sup>* s (u, d, g') \<longrightarrow> finished (u, d, g') \<longrightarrow>
         sk_written (pm_writer u) = sk_written (snd target) @ stream_content (fst client)
         \<and> sk_written (pm_writer d) = sk_written (snd client) @ stream_content (fst target)
         \<and> sk_shut (pm_writer u) \<and> sk_shut (pm_writer d)
         \<and> user_counter BytesIn (tap_email tap) g'
             = user_counter BytesIn (tap_email tap) g + booking_rate tap * of_nat (length (stream_content (fst client)))
         \<and> user_counter BytesOut (tap_email tap) g'
             = user_counter BytesOut (tap_email tap) g + booking_rate tap * of_nat (length (stream_content (fst target))))"
proof -
  have run: "(relay_raw_step tap)\<^sup>*\<^sup>* (relay_raw client target g) s"
    using assms(3) by (rule relpowp_imp_rtranclp)
  have "n \<le> raw.fuel (relay_raw client target g)"
    using raw.steps_bounded [OF assms(3) [unfolded relay_raw_step_def]] by simp
  then have "n \<le> 2 + stream_left (fst client) + stream_left (fst target)"
    by (simp add: raw.fuel_def relay_raw_def)
  moreover have "\<exists>u d g'. (relay_raw_step tap)\<^sup>*\<^sup>* s (u, d, g') \<and> finished (u, d, g')"
    using raw.finishes [of tap s] unfolding relay_raw_step_def by (metis prod_cases3)
  ultimately show ?thesis
    using relay_raw_result [OF assms(1,2) rtranclp_trans [OF run]] by blast
qed

theorem relay_raw_delivers_witness:
  "\<exists>u d g'. (relay_raw_step (MetricsTap_new [0x61]))\<^sup>*\<^sup>*
      (relay_raw ([Inr [1, 2], Inr [3]], \<lparr>sk_written = [9], sk_faults = [], sk_shut = False\<rparr>)
         ([Inr [4], Inl TimedOut, Inr [5]], \<lparr>sk_written = [], sk_faults = [], sk_shut = False\<rparr>) (Registry_new 0)) (u, d, g')
    \<and> sk_written (pm_writer u) = [1, 2, 3] \<and> sk_written (pm_writer d) = [9, 4]
    \<and> user_counter BytesIn [0x61] g' = 3 \<and> user_counter BytesOut [0x61] g' = 1"
proof -
  let ?c = "([Inr [1, 2], Inr [3]], \<lparr>sk_written = [9], sk_faults = [], sk_shut = False\<rparr>) :: Socket"
  let ?t = "([Inr [4], Inl TimedOut, Inr [5]], \<lparr>sk_written = [], sk_faults = [], sk_shut = False\<rparr>) :: Socket"
  let ?tap = "MetricsTap_new [0x61]" and ?g = "Registry_new 0"
  have ok: "sink_ok (snd ?c)" "sink_ok (snd ?t)" by (simp_all add: sink_ok_def)
  have none: "(relay_raw_step ?tap ^^ 0) (relay_raw ?c ?t ?g) (relay_raw ?c ?t ?g)" by simp
  note run = relay_raw_delivers [OF ok none]
  then obtain u d g' where fin: "(relay_raw_step ?tap)\<^sup>*\<^sup>* (relay_raw ?c ?t ?g) (u, d, g')" "finished (u, d, g')"
    by blast
  have "booking_rate ?tap = 1" "tap_email ?tap = [0x61]" by (simp_all add: booking_rate_def MetricsTap_new_def)
  moreover have "user_counter c e ?g = 0" for c e by (cases c) (simp_all add: user_counter_def Registry_new_def)
  ultimately show ?thesis using run fin by (intro exI [of _ u] exI [of _ d] exI [of _ g']) simp
qed

section \<open>Vision traffic\<close>

text \<open>The uplink reader, over the answers of the client's socket.\<close>

definition vision_source_read :: "nat \<Rightarrow> VisionReader \<times> answers \<Rightarrow> (io_error + bytes) \<times> (VisionReader \<times> answers)" where
  "vision_source_read n r = vision_read n (fst r) (snd r)"

text \<open>
  The downlink writer, over the client's socket. \<open>draw\<close> gives the random choices of each write, and the
  log keeps what was written. In direct mode the code makes a single \<open>write\<close> instead of \<open>write_all\<close>; the
  model takes it to accept the whole buffer.
\<close>

record VisionSink =
  vs_writer :: VisionWriter
  vs_sink :: Sink
  vs_log :: "((u32 \<Rightarrow> u32) \<times> (nat \<Rightarrow> u8) \<times> bytes) list"

definition vision_sink_write ::
  "(nat \<Rightarrow> (u32 \<Rightarrow> u32) \<times> (nat \<Rightarrow> u8)) \<Rightarrow> VisionSink \<Rightarrow> bytes \<Rightarrow> (io_error + unit) \<times> VisionSink" where
  "vision_sink_write draw w bs =
     (case draw (length (vs_log w)) of (rng, fill) \<Rightarrow>
      case vision_write rng fill (vs_writer w) bs of (vw, out, n) \<Rightarrow>
      case sink_write_all (vs_sink w) out of
        (Inl e, k) \<Rightarrow> (Inl e, w\<lparr>vs_writer := vw, vs_sink := k\<rparr>)
      | (Inr _, k) \<Rightarrow> (Inr (), w\<lparr>vs_writer := vw, vs_sink := k, vs_log := vs_log w @ [(rng, fill, bs)]\<rparr>))"

text \<open>Both threads shut down the target.\<close>

type_synonym vision_relay = "(VisionReader \<times> answers, Sink, answers, VisionSink) relay"

definition stop_vision :: "vision_relay \<Rightarrow> vision_relay" where
  "stop_vision s = (case s of (u, d, g) \<Rightarrow> (u\<lparr>pm_writer := shutdown_write (pm_writer u)\<rparr>, d, g))"

definition relay_vision :: "Socket \<Rightarrow> Socket \<Rightarrow> bytes \<Rightarrow> u32 list \<Rightarrow> Registry \<Rightarrow> vision_relay" where
  "relay_vision client target user_sent_id testseed g =
     (let up_seed = (if length testseed \<ge> 4 then testseed else [900, 500, 900, 256]) in
      (\<lparr>pm_reader = (VisionReader_new (TrafficState_new user_sent_id) True, fst client),
        pm_writer = snd target, pm_running = True\<rparr>,
       \<lparr>pm_reader = fst target,
        pm_writer = \<lparr>vs_writer = VisionWriter_new (TrafficState_new user_sent_id) False up_seed,
          vs_sink = snd client, vs_log = []\<rparr>, pm_running = True\<rparr>, g))"

definition relay_vision_step ::
  "MetricsTap \<Rightarrow> (nat \<Rightarrow> (u32 \<Rightarrow> u32) \<times> (nat \<Rightarrow> u8)) \<Rightarrow> vision_relay \<Rightarrow> vision_relay \<Rightarrow> bool" where
  "relay_vision_step tap draw =
     relay_step (pump_iter (vision_source_read 32768) sink_write_all (record_up tap)) stop_vision
       (pump_iter (stream_read 32768) (vision_sink_write draw) (record_down tap)) stop_vision"

definition vs_plain :: "VisionSink \<Rightarrow> bytes" where
  "vs_plain w = concat (map (snd \<circ> snd) (vs_log w))"

definition vision_content :: "nat \<Rightarrow> VisionReader \<times> answers \<Rightarrow> bytes" where
  "vision_content n r = read_to_end n (fst r) (snd r)"

lemma vision_source_data:
  "vision_source_read n r = (Inr bs, r') \<Longrightarrow> bs \<noteq> [] \<Longrightarrow>
     vision_content n r = bs @ vision_content n r' \<and> length (snd r') < length (snd r)"
  using vision_read_shorter [of n "fst r" "snd r" bs "fst r'" "snd r'"] read_to_end.simps [of n "fst r" "snd r"]
  by (simp add: vision_source_read_def vision_content_def split: prod.splits)

lemma vision_source_stops:
  "vision_source_read n r = (Inr [], r') \<Longrightarrow> vision_content n r = []"
  "vision_source_read n r = (Inl e, r') \<Longrightarrow> vision_content n r = []"
  using read_to_end.simps [of n "fst r" "snd r"]
  by (simp_all add: vision_source_read_def vision_content_def split: prod.splits)

lemma vision_sink_ok: "sink_ok (vs_sink w) \<Longrightarrow> \<exists>w'. vision_sink_write draw w bs = (Inr (), w') \<and> sink_ok (vs_sink w')"
  by (auto simp: vision_sink_write_def sink_write_ok split: prod.splits)

lemma vision_sink_sent: "vision_sink_write draw w bs = (Inr x, w') \<Longrightarrow> vs_plain w' = vs_plain w @ bs"
  by (auto simp: vision_sink_write_def vs_plain_def split: prod.splits sum.splits)

lemma vision_sink_error: "vision_sink_write draw w bs = (Inl e, w') \<Longrightarrow> vs_plain w' = vs_plain w"
  by (auto simp: vision_sink_write_def vs_plain_def split: prod.splits sum.splits)

interpretation vision: two_way "vision_source_read 32768" sink_write_all "vision_content 32768"
  "\<lambda>r. length (snd r)" sk_written sink_ok
  "stream_read 32768" "vision_sink_write draw" stream_content stream_left vs_plain "\<lambda>w. sink_ok (vs_sink w)"
  "record_up tap" "record_down tap" stop_vision stop_vision for draw tap
  by unfold_locales
    (blast dest: vision_source_data vision_source_stops vision_sink_ok vision_sink_sent vision_sink_error
        stream_read_data stream_read_error stream_read_end [of 32768, OF zero_less_numeral]
      | simp add: sink_write_ok sink_write_sent sink_write_error stop_vision_def | auto simp: stop_vision_def)+

text \<open>What the downlink has written so far, and where it came from.\<close>

lemma vision_writes_snoc:
  "vision_writes w (xs @ [(rng, fill, bs)]) =
     (case vision_writes w xs of (w1, s1) \<Rightarrow> case vision_write rng fill w1 bs of (w2, s2, n) \<Rightarrow> (w2, s1 @ s2))"
  by (induction w xs rule: vision_writes.induct) (auto split: prod.splits)

definition down_inv ::
  "(nat \<Rightarrow> (u32 \<Rightarrow> u32) \<times> (nat \<Rightarrow> u8)) \<Rightarrow> answers \<Rightarrow> bytes \<Rightarrow> VisionWriter \<Rightarrow> (answers, VisionSink) Pump \<Rightarrow> bool" where
  "down_inv draw as base w0 d \<longleftrightarrow>
     (let w = pm_writer d in
      set (pm_reader d) \<subseteq> set as \<and> sink_ok (vs_sink w)
      \<and> vision_writes w0 (vs_log w) = (vs_writer w, drop (length base) (sk_written (vs_sink w)))
      \<and> prefix base (sk_written (vs_sink w))
      \<and> (\<forall>x \<in> set (vs_log w). case x of (rng, fill, bs) \<Rightarrow> bs \<noteq> [] \<and> Inr bs \<in> set as \<and> rng \<in> range (fst \<circ> draw)))"

lemma stream_read_whole:
  assumes "stream_read n r = (x, r')" and "\<forall>bs. Inr bs \<in> set r \<longrightarrow> length bs \<le> n"
  shows "set r' \<subseteq> set r \<and> (\<forall>bs. x = Inr bs \<longrightarrow> bs \<noteq> [] \<longrightarrow> Inr bs \<in> set r)"
  using assms by (cases "(n, r)" rule: stream_read.cases) auto

lemma down_inv_iter:
  assumes "pump_iter (stream_read 32768) (vision_sink_write draw) book (d, g) = (d', g')"
    and "down_inv draw as base w0 d" and "\<forall>bs. Inr bs \<in> set as \<longrightarrow> length bs \<le> 32768"
  shows "down_inv draw as base w0 d'"
proof (cases "stream_read 32768 (pm_reader d)")
  case (Pair x r)
  have sub: "set (pm_reader d) \<subseteq> set as" using assms(2) by (simp add: down_inv_def Let_def)
  then have "\<forall>bs. Inr bs \<in> set (pm_reader d) \<longrightarrow> length bs \<le> 32768" using assms(3) by blast
  from stream_read_whole [OF Pair this]
  have w: "set r \<subseteq> set as" "\<And>bs. x = Inr bs \<Longrightarrow> bs \<noteq> [] \<Longrightarrow> Inr bs \<in> set as" using sub by blast+
  show ?thesis
  proof (cases "\<exists>bs. x = Inr bs \<and> bs \<noteq> []")
    case False
    then have "pm_writer d' = pm_writer d" "pm_reader d' = r"
      using assms(1) Pair by (auto simp: pump_iter_def split: sum.splits)
    then show ?thesis using assms(2) w(1) by (simp add: down_inv_def Let_def)
  next
    case True
    then obtain bs where bs: "x = Inr bs" "bs \<noteq> []" by blast
    obtain rng fill where dr: "draw (length (vs_log (pm_writer d))) = (rng, fill)" by force
    obtain vw out n where vw: "vision_write rng fill (vs_writer (pm_writer d)) bs = (vw, out, n)" by (rule prod_cases3)
    let ?k = "vs_sink (pm_writer d)"
    have ok: "sink_ok ?k" using assms(2) by (simp add: down_inv_def Let_def)
    have d': "pm_reader d' = r" "pm_writer d' = (pm_writer d)\<lparr>vs_writer := vw,
        vs_sink := ?k\<lparr>sk_written := sk_written ?k @ out\<rparr>, vs_log := vs_log (pm_writer d) @ [(rng, fill, bs)]\<rparr>"
      using assms(1) Pair bs dr vw by (auto simp: pump_iter_def vision_sink_write_def sink_write_ok [OF ok])
    have "rng \<in> range (fst \<circ> draw)" using dr by (metis comp_apply fst_conv rangeI)
    moreover have "Inr bs \<in> set as \<and> set r \<subseteq> set as"
      using w bs by blast
    moreover have "prefix base (sk_written ?k)" using assms(2) by (simp add: down_inv_def Let_def)
    then obtain more' where "sk_written ?k = base @ more'" by (auto simp: prefix_def)
    ultimately show ?thesis
      using assms(2) bs(2) vw by (auto simp: down_inv_def Let_def d' vision_writes_snoc)
  qed
qed

lemma down_inv_steps:
  assumes "(relay_vision_step tap draw)\<^sup>*\<^sup>* s t" and "\<forall>bs. Inr bs \<in> set as \<longrightarrow> length bs \<le> 32768"
    and "down_inv draw as base w0 (fst (snd s))"
  shows "down_inv draw as base w0 (fst (snd t))"
  using assms(1)
proof (induction rule: rtranclp_induct)
  case (step t t')
  from step.hyps(2) [unfolded relay_vision_step_def] show ?case
  proof cases
    case (down d g d' g' u)
    then show ?thesis
      using down_inv_iter [OF down(4) _ assms(2)] step.IH by (auto simp: stop_vision_def)
  qed (use step.IH in \<open>auto simp: stop_vision_def\<close>)
qed (rule assms(3))

definition not_app_record :: "bytes \<Rightarrow> bool" where
  "not_app_record bs \<longleftrightarrow> \<not> (length bs \<ge> 6 \<and> take 3 bs = [0x17, 0x03, 0x03] \<and> is_complete_record bs)"

lemma vision_log_read:
  assumes "length uuid = 16" and "seeds_ok seeds" and "list_all keeps_padding ws"
    and "snd (vision_writes (VisionWriter_new (TrafficState_new uuid) False seeds) ws) = concat pieces"
    and "\<forall>c \<in> set pieces. c \<noteq> [] \<and> length c \<le> n" and "0 < n"
  shows "read_to_end n (VisionReader_new (TrafficState_new uuid) up) (map Inr pieces) = concat (map (snd \<circ> snd) ws)"
proof (cases "ws = []")
  case True
  then have "pieces = []" using assms(4,5) by (cases pieces) auto
  then show ?thesis using True by (simp add: read_to_end.simps)
next
  case False
  let ?w = "VisionWriter_new (TrafficState_new uuid) False seeds"
  have "writer_padding ?w" "vw_user_uuid ?w = Some uuid"
    using assms(1,2)
    by (simp_all add: writer_padding_def VisionWriter_new_def TrafficState_new_def writer_dir_def
        get_dir_def direction_new_def Let_def)
  then obtain w' fs where fs: "vision_writes ?w ws = (w', uuid @ continue_frames fs)" "frames_fit fs"
      "map fst fs = map (snd \<circ> snd) ws"
    using vision_writes_padding [of ?w ws] assms(3) False by (auto simp: uuid_prefix_def)
  moreover have "fs \<noteq> []" using fs(3) False by auto
  ultimately show ?thesis using reader_delivers [of uuid fs pieces n up] assms by simp
qed

lemma relay_vision_start:
  assumes "sink_ok (snd client)" and "sink_ok (snd target)"
  shows "vision.up.part (sk_written (snd target) @ vision_content 32768 (VisionReader_new (TrafficState_new uuid) True, fst client))
      (fst (relay_vision client target uuid testseed g))"
    and "vision.down.whole (stream_content (fst target)) (fst (snd (relay_vision client target uuid testseed g)))"
    and "down_inv draw (fst target) (sk_written (snd client))
      (VisionWriter_new (TrafficState_new uuid) False (if length testseed \<ge> 4 then testseed else [900, 500, 900, 256]))
      (fst (snd (relay_vision client target uuid testseed g)))"
  using assms
  by (simp_all add: relay_vision_def Let_def vision.up.part_def vision.down.whole_def vs_plain_def down_inv_def)



section \<open>Half-closed Vision connections\<close>

lemma vision_sink_write_shut:
  "vision_sink_write draw w bs = (x, w') \<Longrightarrow> sk_shut (vs_sink w') = sk_shut (vs_sink w)"
  by (auto simp: vision_sink_write_def sink_write_all_def split: prod.splits sum.splits list.splits option.splits if_splits)

lemma vision_client_never_shut:
  assumes "(relay_vision_step tap draw)\<^sup>*\<^sup>* s t"
  shows "sk_shut (vs_sink (pm_writer (fst (snd t)))) = sk_shut (vs_sink (pm_writer (fst (snd s))))"
  using assms
proof (induction rule: rtranclp_induct)
  case (step t t')
  from step.hyps(2) [unfolded relay_vision_step_def] show ?case
  proof cases
    case (down d g d' g' u)
    have "sk_shut (vs_sink (pm_writer d')) = sk_shut (vs_sink (pm_writer d))"
      using down(4) by (auto simp: pump_iter_def vision_sink_write_shut split: prod.splits sum.splits if_splits)
    then show ?thesis using down(1,2) step.IH by (simp add: stop_vision_def)
  qed (use step.IH in \<open>auto simp: stop_vision_def\<close>)
qed simp

lemma pump_shut_stops:
  "sk_shut (pm_writer u) \<Longrightarrow> pump_iter rd sink_write_all book (u, g) = (u', g') \<Longrightarrow>
     \<not> pm_running u' \<and> pm_writer u' = pm_writer u"
  by (auto simp: pump_iter_def sink_write_all_def split: prod.splits sum.splits if_splits)


end
