(* ===== verification/Packetaddr.thy ===== *)
theory Packetaddr
  imports Relay Incremental Vless_Encoding Mixed_Proxy
begin

text \<open>
  The packet-address relay of \<open>server/src/handler/relay.rs\<close>: UDP packets that carry their own address, over a
  VLESS connection. The codec, the loop that drains the client's buffer, the answers of the two
  datagram sockets, and the relay loop.
\<close>

section \<open>The codec\<close>

datatype PaError =
  PaEmpty | PaShortIPv4 | PaShortIPv6 | PaType u8 | PaDomain | PaNoIPv6 | PaIo io_error

definition PACKETADDR_MAGIC_DOMAIN :: rstr where
  "PACKETADDR_MAGIC_DOMAIN = str ''sp.packet-addr.v2fly.arpa''"

definition is_packetaddr_request :: "RequestHeader \<Rightarrow> bool" where
  "is_packetaddr_request request \<longleftrightarrow> address request = Domain PACKETADDR_MAGIC_DOMAIN"

fun encode_packetaddr_payload :: "Address \<Rightarrow> Port \<Rightarrow> bytes \<Rightarrow> PaError + bytes" where
  "encode_packetaddr_payload (IPv4 raw) (Port p) payload = Inr ([0x01] @ raw @ u16_be p @ payload)"
| "encode_packetaddr_payload (IPv6 raw) (Port p) payload = Inr ([0x02] @ raw @ u16_be p @ payload)"
| "encode_packetaddr_payload (Domain _) _ _ = Inl PaDomain"

text \<open>The address of \<open>n\<close> bytes that follows the type, the port, and the rest.\<close>

definition packetaddr_parts :: "(bytes \<Rightarrow> Address) \<Rightarrow> nat \<Rightarrow> bytes \<Rightarrow> Address \<times> Port \<times> bytes" where
  "packetaddr_parts mk n packet =
     (mk (take n (drop 1 packet)), Port (u16_of_be [packet ! (1 + n), packet ! (2 + n)]), drop (3 + n) packet)"

definition decode_packetaddr_payload :: "bytes \<Rightarrow> PaError + (Address \<times> Port \<times> bytes)" where
  "decode_packetaddr_payload packet =
     (if packet = [] then Inl PaEmpty
      else if hd packet = 0x01 then
        (if length packet < 1 + 4 + 2 then Inl PaShortIPv4 else Inr (packetaddr_parts IPv4 4 packet))
      else if hd packet = 0x02 then
        (if length packet < 1 + 16 + 2 then Inl PaShortIPv6 else Inr (packetaddr_parts IPv6 16 packet))
      else Inl (PaType (hd packet)))"

section \<open>The datagram sockets\<close>

text \<open>
  The pair of sockets: what was sent, whether the IPv6 one could be bound, the outcomes of the sends to
  come, and what each will receive (the end of a list is a timeout).
\<close>

type_synonym datagrams = "(io_error + SocketAddr \<times> bytes) list"

record UdpPair =
  ud_sent :: "(SocketAddr \<times> bytes) list"
  ud_has_ipv6 :: bool
  ud_faults :: "io_error option list"
  ud_recv4 :: datagrams
  ud_recv6 :: datagrams

definition udp_send_to :: "SocketAddr \<Rightarrow> bytes \<Rightarrow> UdpPair \<Rightarrow> (PaError + unit) \<times> UdpPair" where
  "udp_send_to target payload s =
     (case ud_faults s of
        Some e # fs \<Rightarrow> (Inl (PaIo e), s\<lparr>ud_faults := fs\<rparr>)
      | _ \<Rightarrow> (Inr (), s\<lparr>ud_sent := ud_sent s @ [(target, payload)], ud_faults := tl (ud_faults s)\<rparr>))"

fun send_packetaddr_datagram :: "Address \<Rightarrow> Port \<Rightarrow> bytes \<Rightarrow> UdpPair \<Rightarrow> (PaError + unit) \<times> UdpPair" where
  "send_packetaddr_datagram (IPv4 raw) (Port p) payload s = udp_send_to (SockV4 raw p) payload s"
| "send_packetaddr_datagram (IPv6 raw) (Port p) payload s =
     (if ud_has_ipv6 s then udp_send_to (SockV6 raw p) payload s else (Inl PaNoIPv6, s))"
| "send_packetaddr_datagram (Domain _) _ _ s = (Inl PaDomain, s)"

text \<open>The loop over the client's buffer: the error, or the bytes left and whether anything was sent.\<close>

function drain_packetaddr_loop :: "bool \<Rightarrow> bytes \<Rightarrow> UdpPair \<Rightarrow> (PaError + bytes \<times> bool) \<times> UdpPair" where
  "drain_packetaddr_loop sent input s =
     (if length input < 2 then (Inr (input, sent), s)
      else let len = from_be (take 2 input) in
        if length input < len + 2 then (Inr (input, sent), s)
        else case decode_packetaddr_payload (take len (drop 2 input)) of
          Inl e \<Rightarrow> (Inl e, s)
        | Inr (addr, prt, payload) \<Rightarrow>
            (case send_packetaddr_datagram addr prt payload s of
               (Inl e, s') \<Rightarrow> (Inl e, s')
             | (Inr _, s') \<Rightarrow> drain_packetaddr_loop True (drop (2 + len) input) s'))"
  by pat_completeness auto
termination
  by (relation "measure (\<lambda>(b, i, s). length i)") auto

declare drain_packetaddr_loop.simps [simp del]

definition drain_packetaddr_packets :: "bytes \<Rightarrow> UdpPair \<Rightarrow> (PaError + bytes \<times> bool) \<times> UdpPair" where
  "drain_packetaddr_packets input s = drain_packetaddr_loop False input s"

fun socket_addr_to_destination :: "SocketAddr \<Rightarrow> Address \<times> Port" where
  "socket_addr_to_destination (SockV4 ip p) = (IPv4 ip, Port p)"
| "socket_addr_to_destination (SockV6 ip p) = (IPv6 ip, Port p)"

text \<open>Answers of one socket until a timeout: each is framed with its source and written to the client.\<close>

fun flush_packetaddr_responses :: "bool \<Rightarrow> datagrams \<Rightarrow> Sink \<Rightarrow> (PaError + bool) \<times> datagrams \<times> Sink" where
  "flush_packetaddr_responses wrote [] k = (Inr wrote, [], k)"
| "flush_packetaddr_responses wrote (Inl e # rs) k =
     (if e = WouldBlock \<or> e = TimedOut then (Inr wrote, rs, k) else (Inl (PaIo e), rs, k))"
| "flush_packetaddr_responses wrote (Inr (source, bs) # rs) k =
     (if bs = [] then (Inr wrote, rs, k)
      else case socket_addr_to_destination source of (addr, prt) \<Rightarrow>
        case encode_packetaddr_payload addr prt (take 65535 bs) of
          Inl e \<Rightarrow> (Inl e, rs, k)
        | Inr packet \<Rightarrow>
            (case sink_write_all k (write_packet packet) of
               (Inl e, k') \<Rightarrow> (Inl (PaIo e), rs, k')
             | (Inr _, k') \<Rightarrow> flush_packetaddr_responses True rs k'))"

definition flush_packetaddr_socket_pair :: "UdpPair \<times> Sink \<Rightarrow> (PaError + bool) \<times> UdpPair \<times> Sink" where
  "flush_packetaddr_socket_pair st =
     (case st of (s, k) \<Rightarrow>
      case flush_packetaddr_responses False (ud_recv4 s) k of
        (Inl e, rs, k1) \<Rightarrow> (Inl e, s\<lparr>ud_recv4 := rs\<rparr>, k1)
      | (Inr wrote, rs, k1) \<Rightarrow>
          let s1 = s\<lparr>ud_recv4 := rs\<rparr> in
          if \<not> ud_has_ipv6 s then (Inr wrote, s1, k1)
          else case flush_packetaddr_responses False (ud_recv6 s) k1 of
            (Inl e, rs, k2) \<Rightarrow> (Inl e, s1\<lparr>ud_recv6 := rs\<rparr>, k2)
          | (Inr w, rs, k2) \<Rightarrow> (Inr (wrote \<or> w), s1\<lparr>ud_recv6 := rs\<rparr>, k2))"

section \<open>The relay loop\<close>

text \<open>What an iteration does before it reads from the client.\<close>

definition packetaddr_work :: "bytes \<Rightarrow> UdpPair \<times> Sink \<Rightarrow> (PaError + bytes) \<times> UdpPair \<times> Sink" where
  "packetaddr_work input st =
     (case st of (s, k) \<Rightarrow>
      case drain_packetaddr_packets input s of
        (Inl e, s1) \<Rightarrow> (Inl e, s1, k)
      | (Inr (rest, sent), s1) \<Rightarrow>
          (case (if sent then flush_packetaddr_socket_pair (s1, k) else (Inr False, s1, k)) of
             (Inl e, st2) \<Rightarrow> (Inl e, st2)
           | (Inr _, st2) \<Rightarrow>
               (case flush_packetaddr_socket_pair st2 of
                  (Inl e, st3) \<Rightarrow> (Inl e, st3)
                | (Inr _, st3) \<Rightarrow> (Inr rest, st3))))"

text \<open>The loop, by the answers of the client's socket (read into a buffer of 32768 bytes).\<close>

function relay_packetaddr_loop :: "answers \<Rightarrow> bytes \<Rightarrow> UdpPair \<times> Sink \<Rightarrow> (PaError + unit) \<times> UdpPair \<times> Sink" where
  "relay_packetaddr_loop as input st =
     (case packetaddr_work input st of
        (Inl e, st') \<Rightarrow> (Inl e, st')
      | (Inr rest, st') \<Rightarrow>
          if as = [] then (Inr (), st')
          else case stream_read 32768 as of
            (Inr bs, as') \<Rightarrow> if bs = [] then (Inr (), st') else relay_packetaddr_loop as' (rest @ bs) st'
          | (Inl e, as') \<Rightarrow>
              if e = WouldBlock \<or> e = TimedOut then relay_packetaddr_loop as' rest st'
              else if e = UnexpectedEof then (Inr (), st')
              else (Inl (PaIo e), st'))"
  by pat_completeness auto
termination
  by (relation "measure (\<lambda>(as, i, s). stream_left as)")
    (auto dest!: stream_read_data [OF sym] stream_read_error_left [OF sym])

declare relay_packetaddr_loop.simps [simp del]

definition relay_packetaddr_udp_stream :: "answers \<Rightarrow> bytes \<Rightarrow> UdpPair \<times> Sink \<Rightarrow> (PaError + unit) \<times> UdpPair \<times> Sink" where
  "relay_packetaddr_udp_stream as remaining st = relay_packetaddr_loop as remaining st"

section \<open>The codec and the client's stream\<close>

lemma decode_encode_packetaddr:
  assumes "encode_packetaddr_payload a p payload = Inr packet" and "wf_address a"
  shows "decode_packetaddr_payload packet = Inr (a, p, payload)"
proof -
  obtain prt where p: "p = Port prt" by (cases p)
  have "[(raw @ u16_be prt @ payload) ! n, (raw @ u16_be prt @ payload) ! Suc n] = u16_be prt" if "length raw = n" for raw n
    using that by (simp add: nth_append u16_be_def)
  then have w: "u16_of_be [(raw @ u16_be prt @ payload) ! n, (raw @ u16_be prt @ payload) ! Suc n] = prt" if "length raw = n" for raw n
    using that by (metis u16_of_be_u16_be)
  show ?thesis
  proof (cases a)
    case (IPv4 raw)
    then show ?thesis
      using assms p w [of raw 4] by (auto simp: decode_packetaddr_payload_def packetaddr_parts_def)
  next
    case (IPv6 raw)
    then show ?thesis
      using assms p w [of raw 16] by (auto simp: decode_packetaddr_payload_def packetaddr_parts_def)
  qed (use assms in simp)
qed

text \<open>One length-prefixed packet of the client's stream.\<close>

definition packet_parser :: "bytes \<Rightarrow> PaError + ((Address \<times> Port \<times> bytes) \<times> nat) option" where
  "packet_parser d =
     (if length d < 2 then Inr None
      else let len = from_be (take 2 d) in
        if length d < len + 2 then Inr None
        else bindr (decode_packetaddr_payload (take len (drop 2 d))) (\<lambda>x. Inr (Some (x, 2 + len))))"

lemma packet_parser_append:
  "packet_parser d = r \<Longrightarrow> r \<noteq> Inr None \<Longrightarrow> packet_parser (d @ m) = r"
  by (auto simp: packet_parser_def Let_def split: if_splits)

lemma packet_parser_frame:
  assumes "encode_packetaddr_payload a p payload = Inr packet" and "wf_address a" and "length packet < 65536"
  shows "packet_parser (write_packet packet @ m) = Inr (Some ((a, p, payload), length (write_packet packet)))"
proof -
  have "from_be (be 2 (length packet)) = length packet" using assms(3) by (intro from_be_be_small) simp
  then show ?thesis
    using decode_encode_packetaddr [OF assms(1,2)] by (simp add: packet_parser_def write_packet_def Let_def del: be_numeral)
qed

interpretation packetaddr: incremental packet_parser
proof
  show "packet_parser (d @ m) = Inl e" if "packet_parser d = Inl e" for d m e
    using packet_parser_append [OF that] by simp
  show "packet_parser (d @ m) = Inr (Some y)" if "packet_parser d = Inr (Some y)" for d m y
    using packet_parser_append [OF that] by simp
  show "0 < n \<and> n \<le> length d" if "packet_parser d = Inr (Some (x, n))" for d x n
    using that by (auto simp: packet_parser_def Let_def bindr_eq_Inr_iff split: if_splits)
qed

fun destination :: "Address \<times> Port \<times> bytes \<Rightarrow> SocketAddr \<times> bytes" where
  "destination (IPv4 raw, Port p, payload) = (SockV4 raw p, payload)"
| "destination (IPv6 raw, Port p, payload) = (SockV6 raw p, payload)"
| "destination (Domain d, Port p, payload) = (SockV4 [] p, payload)"

definition sends_ok :: "UdpPair \<Rightarrow> bool" where
  "sends_ok s \<longleftrightarrow> ud_faults s = [] \<and> ud_has_ipv6 s"

lemma decode_not_domain: "decode_packetaddr_payload d = Inr (a, p, x) \<Longrightarrow> a \<noteq> Domain n"
  by (auto simp: decode_packetaddr_payload_def packetaddr_parts_def split: if_splits)

lemma packetaddr_send_ok:
  "sends_ok s \<Longrightarrow> \<forall>n. a \<noteq> Domain n \<Longrightarrow>
     send_packetaddr_datagram a p x s = (Inr (), s\<lparr>ud_sent := ud_sent s @ [destination (a, p, x)]\<rparr>)"
  by (cases a; cases p; cases s) (auto simp: sends_ok_def udp_send_to_def)

lemma drain_packetaddr_eq:
  "sends_ok s \<Longrightarrow> drain_packetaddr_loop b input s =
     (case drain packet_parser input of (xs, e, r) \<Rightarrow>
        (case e of None \<Rightarrow> Inr (r, b \<or> xs \<noteq> []) | Some e \<Rightarrow> Inl e, s\<lparr>ud_sent := ud_sent s @ map destination xs\<rparr>))"
proof (induction b input s rule: drain_packetaddr_loop.induct)
  case (1 b input s)
  let ?len = "from_be (take 2 input)"
  show ?case
  proof (cases "length input < 2 \<or> length input < ?len + 2")
    case True
    then have "packet_parser input = Inr None" by (auto simp: packet_parser_def Let_def)
    then show ?thesis
      using True by (subst drain_packetaddr_loop.simps, subst drain.simps) (auto simp: Let_def)
  next
    case False
    show ?thesis
    proof (cases "decode_packetaddr_payload (take ?len (drop 2 input))")
      case (Inl e)
      then have "packet_parser input = Inl e" using False by (simp add: packet_parser_def Let_def)
      then show ?thesis
        using False Inl by (subst drain_packetaddr_loop.simps, subst drain.simps) (simp add: Let_def)
    next
      case (Inr x)
      obtain a p y where x: "x = (a, p, y)" by (rule prod_cases3)
      have pp: "packet_parser input = Inr (Some (x, 2 + ?len))" using False Inr by (simp add: packet_parser_def Let_def)
      have nd: "\<forall>n. a \<noteq> Domain n" using decode_not_domain Inr x by blast
      let ?s = "s\<lparr>ud_sent := ud_sent s @ [destination x]\<rparr>"
      have snd_ok: "send_packetaddr_datagram a p y s = (Inr (), ?s)" using packetaddr_send_ok [OF "1.prems"] nd x by simp
      have ok: "sends_ok ?s" using "1.prems" by (simp add: sends_ok_def)
      have step: "drain_packetaddr_loop b input s = drain_packetaddr_loop True (drop (2 + ?len) input) ?s"
        using False Inr x snd_ok by (subst drain_packetaddr_loop.simps) (simp add: Let_def)
      have IH: "drain_packetaddr_loop True (drop (2 + ?len) input) ?s =
         (case drain packet_parser (drop (2 + ?len) input) of (xs, e, r) \<Rightarrow>
           (case e of None \<Rightarrow> Inr (r, True \<or> xs \<noteq> []) | Some e \<Rightarrow> Inl e, ?s\<lparr>ud_sent := ud_sent ?s @ map destination xs\<rparr>))"
        by (rule "1.IH") (use False Inr x snd_ok ok in auto)
      show ?thesis
        unfolding step IH packetaddr.drain_step [OF pp] by (simp split: prod.splits option.splits)
    qed
  qed
qed

section \<open>The answers\<close>

text \<open>The datagrams among what a socket received; an empty one is not passed on.\<close>

fun datagrams_in :: "datagrams \<Rightarrow> (SocketAddr \<times> bytes) list" where
  "datagrams_in [] = []"
| "datagrams_in (Inl e # rs) = datagrams_in rs"
| "datagrams_in (Inr (source, bs) # rs) = (if bs = [] then [] else [(source, bs)]) @ datagrams_in rs"

lemma datagrams_in_append [simp]: "datagrams_in (xs @ ys) = datagrams_in xs @ datagrams_in ys"
  by (induction xs rule: datagrams_in.induct) simp_all

definition recv_ok :: "datagrams \<Rightarrow> bool" where
  "recv_ok rs \<longleftrightarrow> (\<forall>e. Inl e \<in> set rs \<longrightarrow> e = WouldBlock \<or> e = TimedOut) \<and> (\<forall>a bs. Inr (a, bs) \<in> set rs \<longrightarrow> length bs \<le> 65535)"

text \<open>How a datagram reaches the client.\<close>

fun response_frame :: "SocketAddr \<times> bytes \<Rightarrow> bytes" where
  "response_frame (SockV4 ip p, bs) = write_packet ([0x01] @ ip @ u16_be p @ bs)"
| "response_frame (SockV6 ip p, bs) = write_packet ([0x02] @ ip @ u16_be p @ bs)"

lemma recv_ok_simps [simp]:
  "recv_ok []" "recv_ok (Inl e # rs) = ((e = WouldBlock \<or> e = TimedOut) \<and> recv_ok rs)"
  "recv_ok (Inr (a, bs) # rs) = (length bs \<le> 65535 \<and> recv_ok rs)"
  by (auto simp: recv_ok_def)

lemma flush_responses_ok:
  "recv_ok rs \<Longrightarrow> sink_ok k \<Longrightarrow> \<exists>w c rs' k'. flush_packetaddr_responses wrote rs k = (Inr w, rs', k') \<and> rs = c @ rs'
     \<and> sink_ok k' \<and> sk_written k' = sk_written k @ concat (map response_frame (datagrams_in c)) \<and> recv_ok rs'"
proof (induction wrote rs k rule: flush_packetaddr_responses.induct)
  case (3 wrote source bs rs k)
  show ?case
  proof (cases "bs = []")
    case True
    then show ?thesis using 3 by (intro exI [of _ wrote] exI [of _ "[Inr (source, bs)]"] exI [of _ rs] exI [of _ k]) simp
  next
    case False
    let ?packet = "response_frame (source, bs)" and ?k = "k\<lparr>sk_written := sk_written k @ response_frame (source, bs)\<rparr>"
    obtain a p where ap: "socket_addr_to_destination source = (a, p)" by force
    obtain packet where enc: "encode_packetaddr_payload a p bs = Inr packet" "write_packet packet = ?packet"
      using ap by (cases source) auto
    have long: "take 65535 bs = bs" using 3(2) by simp
    have wr: "sink_write_all k ?packet = (Inr (), ?k)" by (rule sink_write_ok [OF 3(3)])
    have step: "flush_packetaddr_responses wrote (Inr (source, bs) # rs) k = flush_packetaddr_responses True rs ?k"
      using False ap enc wr long by simp
    have "\<exists>w c rs' k'. flush_packetaddr_responses True rs ?k = (Inr w, rs', k') \<and> rs = c @ rs'
        \<and> sink_ok k' \<and> sk_written k' = sk_written ?k @ concat (map response_frame (datagrams_in c)) \<and> recv_ok rs'"
      by (rule "3.IH" [OF False ap [symmetric], of packet "Inr ()"]) (use enc wr long 3 in auto)
    then obtain w c rs' k' where "flush_packetaddr_responses True rs ?k = (Inr w, rs', k')" "rs = c @ rs'" "sink_ok k'"
        "sk_written k' = sk_written ?k @ concat (map response_frame (datagrams_in c))" "recv_ok rs'" by blast
    then show ?thesis
      using False unfolding step by (intro exI [of _ w] exI [of _ "Inr (source, bs) # c"] exI [of _ rs'] exI [of _ k']) simp
  qed
qed (fastforce intro: exI [of _ "[Inl _]"])+

text \<open>What a number of flushes do: the datagrams of both sockets, interleaved, reach the client.\<close>

definition pa_flushed :: "UdpPair \<times> Sink \<Rightarrow> UdpPair \<times> Sink \<Rightarrow> bool" where
  "pa_flushed st st' \<longleftrightarrow> (case (st, st') of ((s, k), (s', k')) \<Rightarrow>
     \<exists>c4 c6 ds. ud_recv4 s = c4 @ ud_recv4 s' \<and> ud_recv6 s = c6 @ ud_recv6 s'
       \<and> ds \<in> shuffles (datagrams_in c4) (datagrams_in c6)
       \<and> sk_written k' = sk_written k @ concat (map response_frame ds))"

definition pair_ok :: "UdpPair \<times> Sink \<Rightarrow> bool" where
  "pair_ok st \<longleftrightarrow> (case st of (s, k) \<Rightarrow> sends_ok s \<and> recv_ok (ud_recv4 s) \<and> recv_ok (ud_recv6 s) \<and> sink_ok k)"

lemma shuffles_append:
  "a \<in> shuffles xs ys \<Longrightarrow> b \<in> shuffles xs' ys' \<Longrightarrow> a @ b \<in> shuffles (xs @ xs') (ys @ ys')"
proof (induction a arbitrary: xs ys)
  case (Cons z a)
  from Cons.prems(1) consider "xs \<noteq> []" "hd xs = z" "a \<in> shuffles (tl xs) ys" | "ys \<noteq> []" "hd ys = z" "a \<in> shuffles xs (tl ys)"
    unfolding Cons_in_shuffles_iff by blast
  then show ?case
  proof cases
    case 1
    then show ?thesis using Cons.IH [OF 1(3) Cons.prems(2)] by (simp add: Cons_in_shuffles_iff)
  next
    case 2
    then show ?thesis using Cons.IH [OF 2(3) Cons.prems(2)] by (simp add: Cons_in_shuffles_iff)
  qed
qed (simp add: Nil_in_shuffles)

lemma pa_flushed_refl [simp]: "pa_flushed (s, k) (s\<lparr>ud_sent := x\<rparr>, k)"
  by (auto simp: pa_flushed_def)

lemma pa_flushed_trans: "pa_flushed a b \<Longrightarrow> pa_flushed b c \<Longrightarrow> pa_flushed a c"
proof -
  assume ab: "pa_flushed a b" and bc: "pa_flushed b c"
  obtain s k s' k' s'' k'' where e: "a = (s, k)" "b = (s', k')" "c = (s'', k'')" by (metis surj_pair)
  obtain c4 c6 ds where 1: "ud_recv4 s = c4 @ ud_recv4 s'" "ud_recv6 s = c6 @ ud_recv6 s'"
    "ds \<in> shuffles (datagrams_in c4) (datagrams_in c6)" "sk_written k' = sk_written k @ concat (map response_frame ds)"
    using ab by (auto simp: pa_flushed_def e)
  obtain c4' c6' ds' where 2: "ud_recv4 s' = c4' @ ud_recv4 s''" "ud_recv6 s' = c6' @ ud_recv6 s''"
    "ds' \<in> shuffles (datagrams_in c4') (datagrams_in c6')" "sk_written k'' = sk_written k' @ concat (map response_frame ds')"
    using bc by (auto simp: pa_flushed_def e)
  show ?thesis
    unfolding pa_flushed_def e using 1 2 shuffles_append [OF 1(3) 2(3)]
    by (auto intro!: exI [of _ "c4 @ c4'"] exI [of _ "c6 @ c6'"] exI [of _ "ds @ ds'"])
qed

lemma flush_pair_ok:
  assumes "pair_ok (s, k)"
  shows "\<exists>w s' k'. flush_packetaddr_socket_pair (s, k) = (Inr w, s', k') \<and> pa_flushed (s, k) (s', k') \<and> pair_ok (s', k')
    \<and> ud_sent s' = ud_sent s"
proof -
  have ok: "sends_ok s" "recv_ok (ud_recv4 s)" "recv_ok (ud_recv6 s)" "sink_ok k" using assms by (simp_all add: pair_ok_def)
  obtain w c rs k1 where 1: "flush_packetaddr_responses False (ud_recv4 s) k = (Inr w, rs, k1)" "ud_recv4 s = c @ rs"
      "sink_ok k1" "sk_written k1 = sk_written k @ concat (map response_frame (datagrams_in c))" "recv_ok rs"
    using flush_responses_ok [OF ok(2,4)] by blast
  obtain w' c' rs' k2 where 2: "flush_packetaddr_responses False (ud_recv6 s) k1 = (Inr w', rs', k2)" "ud_recv6 s = c' @ rs'"
      "sink_ok k2" "sk_written k2 = sk_written k1 @ concat (map response_frame (datagrams_in c'))" "recv_ok rs'"
    using flush_responses_ok [OF ok(3) 1(3)] by blast
  let ?s = "s\<lparr>ud_recv4 := rs, ud_recv6 := rs'\<rparr>"
  have "flush_packetaddr_socket_pair (s, k) = (Inr (w \<or> w'), ?s, k2)"
    using 1(1) 2(1) ok(1) by (simp add: flush_packetaddr_socket_pair_def sends_ok_def Let_def)
  moreover have "datagrams_in c @ datagrams_in c' \<in> shuffles (datagrams_in c) (datagrams_in c')"
    using shuffles_append [of "datagrams_in c" "datagrams_in c" "[]" "datagrams_in c'" "[]" "datagrams_in c'"] by simp
  then have "pa_flushed (s, k) (?s, k2)"
    using 1 2 by (auto simp: pa_flushed_def intro!: exI [of _ c] exI [of _ c'] exI [of _ "datagrams_in c @ datagrams_in c'"])
  moreover have "pair_ok (?s, k2)" using 1 2 ok by (simp add: pair_ok_def sends_ok_def)
  ultimately show ?thesis by (intro exI [of _ "w \<or> w'"] exI [of _ ?s] exI [of _ k2]) simp
qed

section \<open>The relay\<close>

lemma packetaddr_work_ok:
  assumes "pair_ok (s, k)" and "drain packet_parser input = (xs, e, r)"
  shows "case e of
      Some e \<Rightarrow> packetaddr_work input (s, k) = (Inl e, s\<lparr>ud_sent := ud_sent s @ map destination xs\<rparr>, k)
    | None \<Rightarrow> \<exists>s' k'. packetaddr_work input (s, k) = (Inr r, s', k') \<and> pa_flushed (s, k) (s', k') \<and> pair_ok (s', k')
        \<and> ud_sent s' = ud_sent s @ map destination xs"
proof -
  let ?s = "s\<lparr>ud_sent := ud_sent s @ map destination xs\<rparr>"
  have "sends_ok s" using assms(1) by (simp add: pair_ok_def)
  then have d: "drain_packetaddr_packets input s = (case e of None \<Rightarrow> Inr (r, xs \<noteq> []) | Some e \<Rightarrow> Inl e, ?s)"
    using drain_packetaddr_eq [of s False input] assms(2) by (cases e) (simp_all add: drain_packetaddr_packets_def)
  show ?thesis
  proof (cases e)
    case None
    have ok: "pair_ok (?s, k)" using assms(1) by (simp add: pair_ok_def sends_ok_def)
    have "\<exists>w s1 k1. (if xs \<noteq> [] then flush_packetaddr_socket_pair (?s, k) else (Inr False, ?s, k)) = (Inr w, s1, k1)
        \<and> pa_flushed (s, k) (s1, k1) \<and> pair_ok (s1, k1) \<and> ud_sent s1 = ud_sent ?s"
    proof (cases "xs = []")
      case True
      then have "?s = s" by simp
      then show ?thesis
        using True ok pa_flushed_refl [of s k "ud_sent s @ map destination xs"]
        by (intro exI [of _ False] exI [of _ s] exI [of _ k]) simp
    next
      case False
      obtain w s1 k1 where f: "flush_packetaddr_socket_pair (?s, k) = (Inr w, s1, k1)" "pa_flushed (?s, k) (s1, k1)"
          "pair_ok (s1, k1)" "ud_sent s1 = ud_sent ?s"
        using flush_pair_ok [OF ok] by blast
      have "pa_flushed (s, k) (s1, k1)" using pa_flushed_trans [OF pa_flushed_refl f(2)] .
      with f False show ?thesis by (intro exI [of _ w] exI [of _ s1] exI [of _ k1]) simp
    qed
    then obtain w s1 k1 where 1: "(if xs \<noteq> [] then flush_packetaddr_socket_pair (?s, k) else (Inr False, ?s, k)) = (Inr w, s1, k1)"
        "pa_flushed (s, k) (s1, k1)" "pair_ok (s1, k1)" "ud_sent s1 = ud_sent ?s" by blast
    obtain w2 s2 k2 where 2: "flush_packetaddr_socket_pair (s1, k1) = (Inr w2, s2, k2)"
        "pa_flushed (s1, k1) (s2, k2)" "pair_ok (s2, k2)" "ud_sent s2 = ud_sent s1"
      using flush_pair_ok [OF 1(3)] by blast
    have "packetaddr_work input (s, k) = (Inr r, s2, k2)"
      using d None 1(1) 2(1) by (simp add: packetaddr_work_def)
    then show ?thesis using None 1 2 pa_flushed_trans [OF 1(2) 2(2)] by simp
  next
    case (Some e')
    then show ?thesis using d by (simp add: packetaddr_work_def)
  qed
qed

text \<open>What the client sends until the end of its stream, timeouts left out.\<close>

fun stream_bytes :: "answers \<Rightarrow> bytes" where
  "stream_bytes [] = []"
| "stream_bytes (Inl e # rs) = stream_bytes rs"
| "stream_bytes (Inr bs # rs) = (if bs = [] then [] else bs @ stream_bytes rs)"

definition waits_only :: "answers \<Rightarrow> bool" where
  "waits_only as \<longleftrightarrow> (\<forall>e. Inl e \<in> set as \<longrightarrow> e = WouldBlock \<or> e = TimedOut)"

lemma stream_read_waits:
  assumes "waits_only as" and "as \<noteq> []" and "stream_read 32768 as = (x, as')"
  shows "waits_only as' \<and> (case x of Inl e \<Rightarrow> (e = WouldBlock \<or> e = TimedOut) \<and> stream_bytes as = stream_bytes as'
    | Inr bs \<Rightarrow> stream_bytes as = (if bs = [] then [] else bs @ stream_bytes as'))"
  using assms by (cases "(32768 :: nat, as)" rule: stream_read.cases) (auto simp: waits_only_def split: if_splits)

lemma relay_packetaddr_run:
  assumes "waits_only as" and "pair_ok (s, k)" and "drain packet_parser (input @ stream_bytes as) = (xs, e, r)"
  shows "\<exists>s' k'. relay_packetaddr_loop as input (s, k) = (case e of None \<Rightarrow> Inr () | Some e \<Rightarrow> Inl e, s', k')
    \<and> ud_sent s' = ud_sent s @ map destination xs \<and> pa_flushed (s, k) (s', k')"
  using assms
proof (induction "stream_left as" arbitrary: as s k input xs rule: less_induct)
  case less
  obtain xs1 e1 r1 where d: "drain packet_parser input = (xs1, e1, r1)" by (rule prod_cases3)
  note work = packetaddr_work_ok [OF less.prems(2) d]
  show ?case
  proof (cases e1)
    case (Some e')
    have "drain packet_parser (input @ stream_bytes as) = (xs1, Some e', r1 @ stream_bytes as)"
      using packetaddr.drain_error d Some by simp
    then show ?thesis
      using work Some less.prems(3) by (subst relay_packetaddr_loop.simps) auto
  next
    case None
    obtain s1 k1 where w: "packetaddr_work input (s, k) = (Inr r1, s1, k1)" "pa_flushed (s, k) (s1, k1)" "pair_ok (s1, k1)"
        "ud_sent s1 = ud_sent s @ map destination xs1"
      using work None by auto
    have dm: "drain packet_parser (input @ stream_bytes as)
        = (case drain packet_parser (r1 @ stream_bytes as) of (ys, q) \<Rightarrow> (xs1 @ ys, q))"
      using packetaddr.drain_more d None by simp
    have dry: "drain packet_parser r1 = ([], None, r1)"
      using packetaddr.drain_more [of input xs1 r1 "[]"] d None by (auto split: prod.splits)
    have stop: ?thesis if "stream_bytes as = []" "relay_packetaddr_loop as input (s, k) = (Inr (), s1, k1)"
      using that w dm dry less.prems(3) by auto
    have go: ?thesis if l: "stream_left as' < stream_left as" "waits_only as'" "relay_packetaddr_loop as input (s, k)
        = relay_packetaddr_loop as' (r1 @ bs) (s1, k1)" and c: "stream_bytes as = bs @ stream_bytes as'" for as' bs
    proof -
      obtain ys where ys: "drain packet_parser ((r1 @ bs) @ stream_bytes as') = (ys, e, r)" "xs = xs1 @ ys"
        using dm less.prems(3) c by (auto split: prod.splits)
      from less.hyps [OF l(1,2) w(3) ys(1)] obtain s' k' where
        "relay_packetaddr_loop as' (r1 @ bs) (s1, k1) = (case e of None \<Rightarrow> Inr () | Some e \<Rightarrow> Inl e, s', k')"
        "ud_sent s' = ud_sent s1 @ map destination ys" "pa_flushed (s1, k1) (s', k')" by blast
      then show ?thesis using l(3) w(4) ys(2) pa_flushed_trans [OF w(2)] by auto
    qed
    show ?thesis
    proof (cases "as = []")
      case True
      then show ?thesis using w(1) by (intro stop) (simp_all add: relay_packetaddr_loop.simps)
    next
      case False
      obtain x as' where x: "stream_read 32768 as = (x, as')" by force
      note sr = stream_read_waits [OF less.prems(1) False x]
      show ?thesis
      proof (cases x)
        case (Inl e')
        then show ?thesis
          using sr x w(1) False stream_read_error_left [of 32768 as e' as']
          by (intro go [of as' "[]"]) (auto simp: relay_packetaddr_loop.simps [of as])
      next
        case (Inr bs)
        then show ?thesis
        proof (cases "bs = []")
          case True
          then show ?thesis using sr x w(1) False Inr by (intro stop) (auto simp: relay_packetaddr_loop.simps [of as])
        next
          case ne: False
          then show ?thesis
            using sr x w(1) False Inr stream_read_data [of 32768 as bs as']
            by (intro go [of as' bs]) (auto simp: relay_packetaddr_loop.simps [of as])
        qed
      qed
    qed
  qed
qed

text \<open>
  C8: the packet-address relay sends each packet of the client once, in order, to the address it
  names, however the stream is cut and whatever the timing. When the client's stream holds no
  malformed packet the relay ends without error with all packets sent; otherwise it stops at the first
  malformed one, with everything before it sent. What it writes to the client are the framed datagrams
  of both sockets, each socket's in order and each with its source.
  A packet here is what the encoder makes: the parser takes it back as it was written.
\<close>

theorem packetaddr_relay:
  assumes "waits_only as" and "pair_ok (s, k)" and "drain packet_parser (remaining @ stream_bytes as) = (xs, e, r)"
  shows "(\<forall>a p payload packet m. encode_packetaddr_payload a p payload = Inr packet \<longrightarrow> wf_address a \<longrightarrow> length packet < 65536 \<longrightarrow>
      packet_parser (write_packet packet @ m) = Inr (Some ((a, p, payload), length (write_packet packet))))
    \<and> (\<exists>s' k'. relay_packetaddr_udp_stream as remaining (s, k) = (case e of None \<Rightarrow> Inr () | Some e \<Rightarrow> Inl e, s', k')
    \<and> ud_sent s' = ud_sent s @ map destination xs
    \<and> (\<exists>c4 c6 ds. ud_recv4 s = c4 @ ud_recv4 s' \<and> ud_recv6 s = c6 @ ud_recv6 s'
         \<and> ds \<in> shuffles (datagrams_in c4) (datagrams_in c6)
         \<and> sk_written k' = sk_written k @ concat (map response_frame ds)))"
  using relay_packetaddr_run [OF assms] packet_parser_frame by (simp add: relay_packetaddr_udp_stream_def pa_flushed_def)

definition sample_pair :: UdpPair where
  "sample_pair = \<lparr>ud_sent = [], ud_has_ipv6 = True, ud_faults = [],
     ud_recv4 = [Inr (SockV4 [8, 8, 8, 8] 53, [7])], ud_recv6 = []\<rparr>"

theorem packetaddr_relay_witness:
  "\<exists>s' k'. relay_packetaddr_udp_stream [Inr [1, 10, 0, 0, 1, 0], Inl TimedOut, Inr [53, 65]] [0, 8]
      (sample_pair, \<lparr>sk_written = [], sk_faults = [], sk_shut = False\<rparr>) = (Inr (), s', k')
    \<and> ud_sent s' = [(SockV4 [10, 0, 0, 1] 53, [65])]"
proof -
  let ?as = "[Inr [1, 10, 0, 0, 1, 0], Inl TimedOut, Inr [53, 65]] :: answers"
  let ?k = "\<lparr>sk_written = [], sk_faults = [], sk_shut = False\<rparr>"
  have p: "packet_parser [0, 8, 1, 10, 0, 0, 1, 0, 53, 65] = Inr (Some ((IPv4 [10, 0, 0, 1], Port 53, [65]), 10))"
    by code_simp
  have q: "packet_parser [] = Inr None" by code_simp
  have "drain packet_parser [0, 8, 1, 10, 0, 0, 1, 0, 53, 65] = ([(IPv4 [10, 0, 0, 1], Port 53, [65])], None, [])"
    by (subst drain.simps, subst drain.simps) (simp add: p q)
  then have d: "drain packet_parser ([0, 8] @ stream_bytes ?as) = ([(IPv4 [10, 0, 0, 1], Port 53, [65])], None, [])"
    by simp
  have "waits_only ?as" "pair_ok (sample_pair, ?k)"
    by (simp_all add: waits_only_def pair_ok_def sample_pair_def sends_ok_def sink_ok_def)
  from packetaddr_relay [OF this d] show ?thesis by (auto simp: sample_pair_def)
qed

text \<open>A client reads a frame back, with its source, unless the datagram is too long for the length field.\<close>

lemma response_frame_roundtrip:
  assumes "length bs + 19 < 65536" and "case a of SockV4 ip p \<Rightarrow> length ip = 4 | SockV6 ip p \<Rightarrow> length ip = 16"
  shows "\<exists>packet. read_packet (response_frame (a, bs) @ rest) = Inr (packet, rest)
    \<and> (case socket_addr_to_destination a of (ad, po) \<Rightarrow> decode_packetaddr_payload packet = Inr (ad, po, bs))"
proof -
  obtain ad po where d: "socket_addr_to_destination a = (ad, po)" by force
  obtain packet where e: "encode_packetaddr_payload ad po bs = Inr packet" "response_frame (a, bs) = write_packet packet"
    using d by (cases a) auto
  have "wf_address ad" "length packet < 65536" using assms d e by (cases a; auto)+
  then show ?thesis
    using decode_encode_packetaddr [OF e(1)] packet.dec_enc [of packet rest] d e(2) by auto
qed

end
