(* ===== verification/Spec2Isabelle.thy ===== *)
theory Spec2Isabelle
  imports Vision Vless_Encoding Websocket Ws_Upgrade Anytls_Stream Kcp_Endpoint Ss_Stream Ss_Udp Trojan Net_Address Mixed_Http Packetaddr
begin

text \<open>
  Verification of wrongsv, a proxy server for VLESS and related protocols, from its Rust sources under
  \<open>src/\<close>.

  \<^bold>\<open>The program.\<close> A client connects over one of several carriers (TCP, TLS, WebSocket, AnyTLS, mKCP),
  sends a request that names a user and a target, and the server relays bytes between the two.
  \<open>crates/net-types\<close>, \<open>crates/protocol\<close> and \<open>crates/uuid\<close> hold the shared types; \<open>crates/vless\<close> the user
  registry and the Vision padding; \<open>crates/vless-encoding\<close> the request and packet formats;
  \<open>crates/websocket\<close> and \<open>crates/anytls\<close> two carriers; \<open>crates/server\<close> the configuration and one
  handler per inbound protocol.

  \<^bold>\<open>The model.\<close> A machine integer is a word of its width, \<open>Vec<u8>\<close> and slices are lists of bytes,
  \<open>String\<close> is its UTF-8 bytes, \<open>usize\<close> is a natural number. A \<open>Result\<close> is a sum with the error on the
  left. A struct is a record, an enum a datatype, a \<open>&mut self\<close> method a function that returns the new
  record. A reader whose reads may fail or time out is a list of bytes and errors (\<open>Tape\<close>). A loop is
  a recursive function with a termination proof; no definition uses fuel, so every statement about a
  result is about a result that exists. A lock leaves no trace: each critical section is one step.
  Code outside \<open>src/\<close> (hash functions, ciphers, generated protobuf code, random sources, the clock) is
  an argument, and what a theorem needs of it is a named hypothesis.

  \<^bold>\<open>The theories\<close> and the sources they model:
  \<^item> \<open>Prelude\<close>, \<open>Utf8\<close>, \<open>Rust_Str\<close>, \<open>Tape\<close>, \<open>Codec\<close>: results, big-endian integers, UTF-8, string
    slices, byte sources with errors, and the two codec interfaces \<open>prefix_codec\<close> and
    \<open>canonical_codec\<close>.
  \<^item> \<open>Protocol\<close>: addresses, ports, commands, users and the address codec (\<open>net-types\<close>,
    \<open>protocol/src\<close>). The parser accepts exactly the writer's output.
  \<^item> \<open>Uuid\<close>: \<open>uuid/src/types.rs\<close>; parsing inverts printing.
  \<^item> \<open>Validator\<close>: \<open>vless/src/validator.rs\<close> and the user loop of \<open>InboundServer::new\<close>
    (\<open>server/src/handler/mod.rs\<close>); the registry invariant under every sequence of operations, and
    the interface \<open>user_registry\<close> that the request decoder relies on.
  \<^item> \<open>Vless_Encoding\<close>: \<open>vless-encoding/src\<close>; header and packet round trips.
  \<^item> \<open>Vision\<close>: \<open>vless/src/vision.rs\<close>; what a padding writer sends, a reader gives back, however the
    transport cuts it; the TLS record check is exact.
  \<^item> \<open>Websocket\<close>, \<open>Ws_Upgrade\<close>: \<open>websocket/src\<close>; frames round-trip, a stream delivers the data
    frames' payload, an accepted upgrade request is well formed.
  \<^item> \<open>Anytls_Codec\<close>, \<open>Anytls_Session\<close>, \<open>Anytls_Stream\<close>: \<open>anytls/src\<close>; authentication, padding
    schemes, the reader loop as an implementation of an abstract frame semantics, isolation of
    streams, exact reads.
  \<^item> \<open>Kcp_Codec\<close>, \<open>Kcp_Session\<close>, \<open>Kcp_Network\<close>, \<open>Kcp_Endpoint\<close>: \<open>server/src/handler/kcp.rs\<close> and
    \<open>kcp/xray_session.rs\<close>; the packet mask is a bijection, a session's state moves forward and its
    buffers are bounded, two sessions over a network that loses, duplicates and reorders packets
    deliver in order and lose nothing, the endpoint keeps its sessions apart.
  \<^item> \<open>Shadowsocks\<close>, \<open>Ss_Stream\<close>, \<open>Ss_Udp\<close>: \<open>shadowsocks/src/lib.rs\<close>; requests and responses arrive
    whole in both editions, nonces are not reused, a salt cannot be replayed, the bitmap window of
    UDP packet numbers implements a set, UDP packets round-trip.
  \<^item> \<open>Incremental\<close>: parsers over a growing buffer; the interface \<open>incremental\<close> and the loop that drains a
    buffer, independent of how the bytes were cut.
  \<^item> \<open>Trojan\<close>: \<open>server/src/trojan.rs\<close> and \<open>server/src/handler/trojan_handler.rs\<close>; who gets in, that the
    head is read the same however it arrives, and that the UDP relay sends each packet once.
  \<^item> \<open>Net_Address\<close>: \<open>net-types/src/address.rs\<close>, the text form of addresses, with the standard library's IP
    parsers and printers; printing and parsing round-trip.
  \<^item> \<open>Conn\<close>: blocking code on one socket as a state monad over what is read and what is written.
  \<^item> \<open>Mixed_Proxy\<close>, \<open>Mixed_Http\<close>: \<open>server/src/mixed_proxy.rs\<close> and \<open>server/src/handler/mixed.rs\<close>; which SOCKS5
    requests are accepted, that nobody passes without the credentials, and what is forwarded for plain HTTP.
  \<^item> \<open>Metrics\<close>: \<open>crates/metrics\<close>; concurrent updates lose nothing, names cannot forge lines of the dump.
  \<^item> \<open>Relay\<close>: the TCP relays of \<open>server/src/handler/relay.rs\<close> as two interleaved threads over the interface
    \<open>channel\<close>; plain relays end and deliver everything, Vision relays end and have a transparent downlink.
  \<^item> \<open>Packetaddr\<close>: the packet-address UDP relay of the same file, as an instance of \<open>incremental\<close>.
  \<^item> \<open>Spec2Isabelle\<close> (this theory): properties that span components.

  \<^bold>\<open>Bounds.\<close> Sequence numbers of mKCP are compared modulo two to the 32nd; the reliability theorem
  therefore assumes fewer than two to the 31st chunks per direction. Length fields keep their width:
  theorems about them carry the bound that the width gives, and where the code does not check it, an
  error theorem shows what happens.

  \<^bold>\<open>Not modelled.\<close>
  The TCP relay loops of the VLESS handler are modelled in \<open>Relay\<close>; those of the other handlers repeat
  them over their own readers and writers. REALITY, ShadowTLS, gRPC, QUIC, WebTransport and WireGuard wrap
  third-party protocol stacks. The evaluators, the command line and the examples drive live
  connections. The configuration importers are not modelled yet.
\<close>

section \<open>Authentication of a VLESS request\<close>

text \<open>
  C1: only configured users get in. When the decoder, asking a registry loaded from a
  configuration, accepts a request, the request's user was built from an entry of that
  configuration, and the identifier on the wire agrees with that user's in every byte but the two
  that the routing key ignores.
\<close>

theorem vless_request_authenticated:
  assumes "load_users hexd sha256 md5 lower cf validator_new cus = Inr v"
    and "decode_request_header pb_dec (validator_get v) bs = Inr (d, rest)"
    and "hex_halves hexd" and "hash_len 32 sha256"
  shows "(\<exists>cu \<in> set cus. build_user hexd sha256 md5 cf cu = Inr (user (header d)))
    \<and> (\<forall>i < 16. i \<noteq> 6 \<longrightarrow> i \<noteq> 7 \<longrightarrow> user_sent_id d ! i = user_uuid (user (header d)) ! i)"
proof -
  note acc = decode_request_accepts [OF assms(2)]
  from acc have "validator_get v (user_sent_id d) = Some (user (header d))" by simp
  from loaded_user_configured [OF assms(1) this]
  have "\<exists>cu \<in> set cus. build_user hexd sha256 md5 cf cu = Inr (user (header d))"
    and "process_uuid (user_uuid (user (header d))) = process_uuid (user_sent_id d)" by simp_all
  moreover from this have "wf_uuid (user_uuid (user (header d)))"
    using build_user_wf [OF assms(3,4)] by blast
  ultimately show ?thesis
    using process_uuid_eq_iff [of "user_uuid (user (header d))" "user_sent_id d"] acc
    by (auto simp: wf_uuid_def)
qed

theorem vless_request_authenticated_witness:
  "\<exists>v d rest. load_users (\<lambda>_. None) (\<lambda>_. replicate 32 7) (\<lambda>_. replicate 16 0) (\<lambda>e. e) None validator_new
       [\<lparr>cu_id = [97], cu_email = [], cu_flow = [], cu_encryption = [], cu_udp = True\<rparr>] = Inr v
     \<and> decode_request_header pb_dec_ref (validator_get v)
         ([0] @ [7, 7, 7, 7, 7, 7, 1, 2, 0x87, 7, 7, 7, 7, 7, 7, 7] @ [0, 1, 0, 80, 1, 10, 0, 0, 1]) = Inr (d, rest)
     \<and> user_sent_id d ! 15 = user_uuid (user (header d)) ! 15"
proof -
  let ?hexd = "\<lambda>_. None" and ?sha = "\<lambda>_. replicate 32 7" and ?md5 = "\<lambda>_. replicate 16 0"
  let ?cu = "\<lparr>cu_id = [97], cu_email = [], cu_flow = [], cu_encryption = [], cu_udp = True\<rparr>"
  let ?bs = "[0] @ [7, 7, 7, 7, 7, 7, 1, 2, 0x87, 7, 7, 7, 7, 7, 7, 7] @ [0, 1, 0, 80, 1, 10, 0, 0, 1]"
  have "case load_users ?hexd ?sha ?md5 (\<lambda>e. e) None validator_new [?cu] of Inl _ \<Rightarrow> False
    | Inr v \<Rightarrow> is_ok (decode_request_header pb_dec_ref (validator_get v) ?bs)"
    by code_simp
  then obtain v d rest where v: "load_users ?hexd ?sha ?md5 (\<lambda>e. e) None validator_new [?cu] = Inr v"
      and d: "decode_request_header pb_dec_ref (validator_get v) ?bs = Inr (d, rest)"
    by (auto simp: is_ok_def split: sum.splits)
  have "hex_halves ?hexd" "hash_len 32 ?sha" by (simp_all add: hex_halves_def hash_len_def)
  from vless_request_authenticated [OF v d this] v d show ?thesis by auto
qed

end
